(* ===== verification/Prelude.thy ===== *)
theory Prelude
  imports Main "HOL-Library.Multiset" "HOL-Library.Word"
begin

text \<open>
  The vocabulary every component theory shares: identities of wakers and nodes, the faults a
  C++ operation can run into, the poll result and the error codes of the channels
  (\<^verbatim>\<open>include/coro/detail/poll_result.h\<close>, \<^verbatim>\<open>include/coro/sync/channel_error.h\<close>), the
  reachability predicate of step relations with the locale that turns a step-wise preservation
  argument into an invariant, and the list lemmas the components use.
\<close>

section \<open>Shared types\<close>

text \<open>
  A waker is an identity (the task it wakes); a nullable \<^verbatim>\<open>Rc<Waker>\<close> is an optional
  identity. An operation that wakes returns the wakers it woke, in the order of the
  \<^verbatim>\<open>wake()\<close> calls.
\<close>

type_synonym waker = nat
type_synonym rc_waker = "waker option"
type_synonym node = nat

text \<open>
  What the C++ code leaves undefined or aborts on is a value of the model: dereferencing a null
  \<^verbatim>\<open>Rc\<close>, failing an \<^verbatim>\<open>assert\<close>, reading the inactive member of a union or an empty
  optional, indexing outside a container, locking a non-recursive mutex twice,
  \<^verbatim>\<open>std::abort\<close>, constructing over a live object, destroying one that is not there,
  using an object after its destruction, and dividing by zero.
\<close>

datatype fault =
    Null_Deref
  | Assert_Failed
  | Inactive_Read
  | Out_Of_Range
  | Self_Deadlock
  | Aborted
  | Overwrite_Live
  | Destroy_Dead
  | Use_After_Free
  | Div_By_Zero

datatype exn = TaskCancelled | User_Exn nat

section \<open>Poll results\<close>

datatype 'a poll_result = PollPending | HasResult "exn + 'a" | PollDropped

definition isPending :: "'a poll_result \<Rightarrow> bool" where
  "isPending r \<longleftrightarrow> (case r of PollPending \<Rightarrow> True | _ \<Rightarrow> False)"

definition isReady :: "'a poll_result \<Rightarrow> bool" where
  "isReady r \<longleftrightarrow> (case r of HasResult (Inr _) \<Rightarrow> True | _ \<Rightarrow> False)"

definition isError :: "'a poll_result \<Rightarrow> bool" where
  "isError r \<longleftrightarrow> (case r of HasResult (Inl _) \<Rightarrow> True | _ \<Rightarrow> False)"

definition isDropped :: "'a poll_result \<Rightarrow> bool" where
  "isDropped r \<longleftrightarrow> (case r of PollDropped \<Rightarrow> True | _ \<Rightarrow> False)"

abbreviation PollReady :: "'a \<Rightarrow> 'a poll_result" where
  "PollReady v \<equiv> HasResult (Inr v)"

abbreviation PollError :: "exn \<Rightarrow> 'a poll_result" where
  "PollError e \<equiv> HasResult (Inl e)"

text \<open>
  \<^verbatim>\<open>value()\<close> reads the union's \<^verbatim>\<open>result\<close> member without testing the tag: on a pending or
  dropped result the member is not active. On an error result \<^verbatim>\<open>std::expected::value()\<close>
  throws \<^verbatim>\<open>bad_expected_access\<close>, the \<open>Inr (Inl e)\<close> of the model.
\<close>

definition poll_value :: "'a poll_result \<Rightarrow> fault + (exn + 'a)" where
  "poll_value r = (case r of HasResult x \<Rightarrow> Inr x | _ \<Rightarrow> Inl Inactive_Read)"

section \<open>Channel error codes\<close>

datatype ChannelError = Closed | SenderDropped | ReceiverDropped | Empty

datatype TrySendKind = Full | Inactive | Disconnected

datatype BroadcastRecvError = BEmpty | Lagged nat | BClosed

section \<open>Reachable states and invariants\<close>

inductive reach :: "('s \<Rightarrow> bool) \<Rightarrow> ('s \<Rightarrow> 's \<Rightarrow> bool) \<Rightarrow> 's \<Rightarrow> bool"
  for init :: "'s \<Rightarrow> bool" and step :: "'s \<Rightarrow> 's \<Rightarrow> bool" where
  reach_init: "init s \<Longrightarrow> reach init step s"
| reach_step: "reach init step s \<Longrightarrow> step s t \<Longrightarrow> reach init step t"

locale invariant_system =
  fixes init :: "'s \<Rightarrow> bool"
    and step :: "'s \<Rightarrow> 's \<Rightarrow> bool"
    and inv :: "'s \<Rightarrow> bool"
  assumes inv_init: "init s \<Longrightarrow> inv s"
    and inv_step: "inv s \<Longrightarrow> step s t \<Longrightarrow> inv t"
begin

lemma reach_inv: "reach init step s \<Longrightarrow> inv s"
  by (induction rule: reach.induct) (auto intro: inv_init inv_step)

lemma steps_inv: "step\<^sup>*\<^sup>* s t \<Longrightarrow> inv s \<Longrightarrow> inv t"
  by (induction rule: rtranclp_induct) (auto intro: inv_step)

end

section \<open>Sequences of operations\<close>

text \<open>
  A component used through its operations: \<open>exec op s\<close> is the result of one call and the state
  after it, \<open>run_ops\<close> the results of a sequence of calls. The locale \<open>op_system\<close> lifts an
  invariant, \<open>op_refinement\<close> the agreement with an abstract component up to the observation \<open>obs\<close>
  of the results, from one call to every sequence.
\<close>

primrec run_ops :: "('op \<Rightarrow> 's \<Rightarrow> 'out \<times> 's) \<Rightarrow> 'op list \<Rightarrow> 's \<Rightarrow> 'out list \<times> 's" where
  "run_ops exec [] s = ([], s)"
| "run_ops exec (op # ops) s = (let (r, s) = exec op s; (rs, s) = run_ops exec ops s in (r # rs, s))"

locale op_system =
  fixes init :: "'s"
    and exec :: "'op \<Rightarrow> 's \<Rightarrow> 'out \<times> 's"
    and inv :: "'s \<Rightarrow> bool"
  assumes inv_init: "inv init"
    and inv_exec: "inv s \<Longrightarrow> inv (snd (exec op s))"
begin

lemma run_inv_from: "inv s \<Longrightarrow> inv (snd (run_ops exec ops s))"
proof (induction ops arbitrary: s)
  case (Cons op ops)
  from Cons.IH [OF inv_exec [OF Cons.prems, of op]] show ?case
    by (auto simp: Let_def split: prod.splits)
qed simp

lemma run_inv: "inv (snd (run_ops exec ops init))"
  by (rule run_inv_from [OF inv_init])

end

text \<open>The same for the calls a client may make, those that satisfy \<open>ok\<close>.\<close>

locale guarded_system =
  fixes init :: "'s"
    and exec :: "'op \<Rightarrow> 's \<Rightarrow> 'out \<times> 's"
    and ok :: "'op \<Rightarrow> bool"
    and inv :: "'s \<Rightarrow> bool"
  assumes inv_init: "inv init"
    and inv_exec: "ok op \<Longrightarrow> inv s \<Longrightarrow> inv (snd (exec op s))"
begin

lemma guarded_run_from: "list_all ok ops \<Longrightarrow> inv s \<Longrightarrow> inv (snd (run_ops exec ops s))"
proof (induction ops arbitrary: s)
  case (Cons op ops)
  then have "list_all ok ops" "inv (snd (exec op s))" by (auto intro: inv_exec)
  from Cons.IH [OF this] show ?case by (auto simp: Let_def split: prod.splits)
qed simp

lemma guarded_run: "list_all ok ops \<Longrightarrow> inv (snd (run_ops exec ops init))"
  by (rule guarded_run_from [OF _ inv_init])

end

locale op_refinement = op_system init exec inv
  for init :: "'s" and exec :: "'op \<Rightarrow> 's \<Rightarrow> 'out \<times> 's" and inv +
  fixes ainit :: "'a"
    and aexec :: "'op \<Rightarrow> 'a \<Rightarrow> 'obs \<times> 'a"
    and abst :: "'s \<Rightarrow> 'a"
    and obs :: "'out \<Rightarrow> 'obs"
  assumes abst_init: "abst init = ainit"
    and abst_exec: "inv s \<Longrightarrow> aexec op (abst s) = (obs (fst (exec op s)), abst (snd (exec op s)))"
begin

lemma run_abst_from:
  "inv s \<Longrightarrow> run_ops aexec ops (abst s)
     = (map obs (fst (run_ops exec ops s)), abst (snd (run_ops exec ops s)))"
proof (induction ops arbitrary: s)
  case (Cons op ops)
  obtain r s' where e: "exec op s = (r, s')" by force
  from Cons.IH [of s'] inv_exec [OF Cons.prems, of op] abst_exec [OF Cons.prems, of op] show ?case
    by (simp add: e Let_def split: prod.splits)
qed simp

lemma run_abst:
  "run_ops aexec ops ainit = (map obs (fst (run_ops exec ops init)), abst (snd (run_ops exec ops init)))"
  using run_abst_from [OF inv_init] by (simp add: abst_init)

end

text \<open>
  Where the abstract state is related to the concrete one, rather than computed from it, every
  sequence of calls keeps the relation and gives the same results.
\<close>

locale op_simulation =
  fixes init :: "'s"
    and exec :: "'op \<Rightarrow> 's \<Rightarrow> 'out \<times> 's"
    and ainit :: "'a"
    and aexec :: "'op \<Rightarrow> 'a \<Rightarrow> 'out \<times> 'a"
    and rel :: "'s \<Rightarrow> 'a \<Rightarrow> bool"
  assumes rel_init: "rel init ainit"
    and rel_exec: "rel s a \<Longrightarrow> fst (exec op s) = fst (aexec op a) \<and> rel (snd (exec op s)) (snd (aexec op a))"
begin

lemma run_rel_from:
  "rel s a \<Longrightarrow> fst (run_ops exec ops s) = fst (run_ops aexec ops a) \<and> rel (snd (run_ops exec ops s)) (snd (run_ops aexec ops a))"
proof (induction ops arbitrary: s a)
  case (Cons op ops)
  obtain r s' where e: "exec op s = (r, s')" by force
  obtain q a' where f: "aexec op a = (q, a')" by force
  from Cons.IH [of s' a'] rel_exec [OF Cons.prems, of op] show ?case
    by (auto simp: e f Let_def split: prod.splits)
qed simp

lemma run_rel: "fst (run_ops exec ops init) = fst (run_ops aexec ops ainit) \<and> rel (snd (run_ops exec ops init)) (snd (run_ops aexec ops ainit))"
  by (rule run_rel_from [OF rel_init])

end

section \<open>Lists\<close>

named_theorems queue_simps \<open>facts on the ends of the intrusive lists and queues\<close>

definition front_of :: "'a list \<Rightarrow> 'a option" where
  "front_of xs = (case xs of [] \<Rightarrow> None | x # _ \<Rightarrow> Some x)"

definition back_of :: "'a list \<Rightarrow> 'a option" where
  "back_of xs = (if xs = [] then None else Some (last xs))"

lemma front_of_simps [simp]: "front_of [] = None" "front_of (x # xs) = Some x"
  by (simp_all add: front_of_def)

lemma back_of_simps [simp]:
  "back_of [] = None" "back_of [x] = Some x" "back_of (xs @ [x]) = Some x"
  by (simp_all add: back_of_def)

lemma front_of_append [queue_simps]:
  "front_of (xs @ ys) = (if xs = [] then front_of ys else front_of xs)"
  by (cases xs) simp_all

lemma back_of_append [queue_simps]:
  "back_of (xs @ ys) = (if ys = [] then back_of xs else back_of ys)"
  by (simp add: back_of_def)

lemma back_of_Cons [queue_simps]:
  "back_of (x # xs) = (if xs = [] then Some x else back_of xs)"
  by (simp add: back_of_def)

lemma front_of_None [simp]: "front_of xs = None \<longleftrightarrow> xs = []"
  by (cases xs) simp_all

lemma back_of_None [simp]: "back_of xs = None \<longleftrightarrow> xs = []"
  by (simp add: back_of_def)

lemma front_of_Some: "front_of xs = Some x \<longleftrightarrow> (\<exists>ys. xs = x # ys)"
  by (cases xs) auto

lemma back_of_Some: "back_of xs = Some x \<longleftrightarrow> (\<exists>ys. xs = ys @ [x])"
  by (cases xs rule: rev_cases) auto

lemma front_of_in_set: "front_of xs = Some x \<Longrightarrow> x \<in> set xs"
  by (auto simp: front_of_Some)

lemma back_of_in_set: "back_of xs = Some x \<Longrightarrow> x \<in> set xs"
  by (auto simp: back_of_Some)

lemma remove1_split: "x \<notin> set xs \<Longrightarrow> remove1 x (xs @ x # ys) = xs @ ys"
  by (induction xs) auto

lemma poll_result_cases:
  "isPending r \<or> isReady r \<or> isError r \<or> isDropped r"
  by (auto simp: isPending_def isReady_def isError_def isDropped_def
      split: poll_result.splits sum.splits)

lemma is_poll_simps [simp]:
  "isPending PollPending" "\<not> isPending (HasResult x)" "\<not> isPending PollDropped"
  "isDropped PollDropped" "\<not> isDropped (HasResult x)" "\<not> isDropped PollPending"
  "isReady (HasResult (Inr v))" "\<not> isReady (HasResult (Inl e))"
  "\<not> isReady PollPending" "\<not> isReady PollDropped"
  "isError (HasResult (Inl e))" "\<not> isError (HasResult (Inr v))"
  "\<not> isError PollPending" "\<not> isError PollDropped"
  by (simp_all add: isPending_def isDropped_def isReady_def isError_def)

end
