(* ===== verification/Poll_Result.thy ===== *)
theory Poll_Result
  imports Prelude
begin

text \<open>
  \<^verbatim>\<open>include/coro/detail/poll_result.h\<close>: the tagged union behind \<^verbatim>\<open>PollResult<T>\<close> and
  \<^verbatim>\<open>PollResult<void>\<close> (the same code with \<open>'a = unit\<close>), with the life of the union's
  \<^verbatim>\<open>result\<close> member made explicit, and the proof that a program that uses these objects in any
  order sees the plain values of \<open>'a poll_result\<close>, constructs over no live member, destroys none
  twice and leaks none.
\<close>

section \<open>The object\<close>

datatype state = Pending | Has_Result | Dropped

text \<open>\<open>m_storage\<close> is the constructed \<^verbatim>\<open>result\<close> member, if there is one.\<close>

record 'a pr =
  m_state :: state
  m_storage :: "(exn + 'a) option"

definition construct_at :: "exn + 'a \<Rightarrow> 'a pr \<Rightarrow> fault + 'a pr" where
  "construct_at x p = (if m_storage p = None then Inr (p\<lparr>m_storage := Some x\<rparr>) else Inl Overwrite_Live)"

definition destroy_result :: "'a pr \<Rightarrow> fault + 'a pr" where
  "destroy_result p =
     (if m_state p = Has_Result
      then (if m_storage p = None then Inl Destroy_Dead else Inr (p\<lparr>m_storage := None\<rparr>))
      else Inr p)"

text \<open>The constructors: pending, from a value, from an error, dropped.\<close>

definition pr_new :: "'a poll_result \<Rightarrow> fault + 'a pr" where
  "pr_new v = (case v of
       PollPending \<Rightarrow> Inr \<lparr>m_state = Pending, m_storage = None\<rparr>
     | HasResult x \<Rightarrow> construct_at x \<lparr>m_state = Has_Result, m_storage = None\<rparr>
     | PollDropped \<Rightarrow> Inr \<lparr>m_state = Dropped, m_storage = None\<rparr>)"

text \<open>
  \<^verbatim>\<open>PollResult<void>\<close> repeats the class for a payload without a value; its \<^verbatim>\<open>ReadyTag\<close>
  constructor makes the ready result.
\<close>

type_synonym void_pr = "unit pr"

definition void_ready :: "fault + void_pr" where
  "void_ready = construct_at (Inr ()) \<lparr>m_state = Has_Result, m_storage = None\<rparr>"

text \<open>
  Reading the member of another object, as copying and moving do: it must be there. \<open>cp\<close> is the
  copy constructor of the payload, \<open>None\<close> when it throws; \<open>mv\<close> what a move leaves behind.
\<close>

definition result_of :: "'a pr \<Rightarrow> fault + (exn + 'a)" where
  "result_of p = (case m_storage p of None \<Rightarrow> Inl Inactive_Read | Some x \<Rightarrow> Inr x)"

datatype 'a outcome = Fault fault | Threw "'a" | Did "'a"

definition pr_copy :: "(exn + 'a \<Rightarrow> (exn + 'a) option) \<Rightarrow> 'a pr \<Rightarrow> 'a pr \<Rightarrow> 'a pr outcome" where
  "pr_copy cp other p =
     (if m_state p = Has_Result
      then (case result_of other of
          Inl f \<Rightarrow> Fault f
        | Inr x \<Rightarrow> (case cp x of
            None \<Rightarrow> Threw p
          | Some y \<Rightarrow> (case construct_at y p of Inl f \<Rightarrow> Fault f | Inr p \<Rightarrow> Did p)))
      else Did p)"

definition pr_copy_construct :: "(exn + 'a \<Rightarrow> (exn + 'a) option) \<Rightarrow> 'a pr \<Rightarrow> 'a pr outcome" where
  "pr_copy_construct cp other = pr_copy cp other \<lparr>m_state = m_state other, m_storage = None\<rparr>"

definition pr_copy_assign :: "(exn + 'a \<Rightarrow> (exn + 'a) option) \<Rightarrow> 'a pr \<Rightarrow> 'a pr \<Rightarrow> 'a pr outcome" where
  "pr_copy_assign cp other p =
     (case destroy_result p of
        Inl f \<Rightarrow> Fault f
      | Inr p \<Rightarrow> pr_copy cp other (p\<lparr>m_state := m_state other\<rparr>))"

definition pr_move :: "(exn + 'a \<Rightarrow> exn + 'a) \<Rightarrow> 'a pr \<Rightarrow> 'a pr \<Rightarrow> fault + 'a pr \<times> 'a pr" where
  "pr_move mv other p =
     (if m_state p = Has_Result
      then (case result_of other of
          Inl f \<Rightarrow> Inl f
        | Inr x \<Rightarrow> (case construct_at x p of
            Inl f \<Rightarrow> Inl f
          | Inr p \<Rightarrow> Inr (p, other\<lparr>m_storage := Some (mv x)\<rparr>)))
      else Inr (p, other))"

definition pr_move_construct :: "(exn + 'a \<Rightarrow> exn + 'a) \<Rightarrow> 'a pr \<Rightarrow> fault + 'a pr \<times> 'a pr" where
  "pr_move_construct mv other = pr_move mv other \<lparr>m_state = m_state other, m_storage = None\<rparr>"

definition pr_move_assign :: "(exn + 'a \<Rightarrow> exn + 'a) \<Rightarrow> 'a pr \<Rightarrow> 'a pr \<Rightarrow> fault + 'a pr \<times> 'a pr" where
  "pr_move_assign mv other p =
     (case destroy_result p of
        Inl f \<Rightarrow> Inl f
      | Inr p \<Rightarrow> pr_move mv other (p\<lparr>m_state := m_state other\<rparr>))"

text \<open>The observers. \<open>value()\<close> and \<open>error()\<close> read the member without testing the tag.\<close>

definition pr_isPending :: "'a pr \<Rightarrow> bool" where
  "pr_isPending p \<longleftrightarrow> m_state p = Pending"

definition pr_isReady :: "'a pr \<Rightarrow> fault + bool" where
  "pr_isReady p = (if m_state p = Has_Result
     then (case result_of p of Inl f \<Rightarrow> Inl f | Inr x \<Rightarrow> Inr (\<not> isl x)) else Inr False)"

definition pr_isError :: "'a pr \<Rightarrow> fault + bool" where
  "pr_isError p = (if m_state p = Has_Result
     then (case result_of p of Inl f \<Rightarrow> Inl f | Inr x \<Rightarrow> Inr (isl x)) else Inr False)"

definition pr_isDropped :: "'a pr \<Rightarrow> bool" where
  "pr_isDropped p \<longleftrightarrow> m_state p = Dropped"

definition pr_value :: "'a pr \<Rightarrow> fault + (exn + 'a)" where
  "pr_value p = result_of p"

definition pr_error :: "'a pr \<Rightarrow> fault + exn" where
  "pr_error p = (case result_of p of
     Inl f \<Rightarrow> Inl f | Inr (Inl e) \<Rightarrow> Inr e | Inr (Inr _) \<Rightarrow> Inl Inactive_Read)"

text \<open>\<open>rethrowIfError\<close>: \<open>Some e\<close> is the exception it throws.\<close>

definition pr_rethrowIfError :: "'a pr \<Rightarrow> fault + exn option" where
  "pr_rethrowIfError p = (case pr_isError p of
     Inl f \<Rightarrow> Inl f
   | Inr False \<Rightarrow> Inr None
   | Inr True \<Rightarrow> (case pr_error p of Inl f \<Rightarrow> Inl f | Inr e \<Rightarrow> Inr (Some e)))"

section \<open>The value of an object\<close>

definition pr_ok :: "'a pr \<Rightarrow> bool" where
  "pr_ok p \<longleftrightarrow> (m_storage p \<noteq> None) = (m_state p = Has_Result)"

definition pr_abs :: "'a pr \<Rightarrow> 'a poll_result" where
  "pr_abs p = (case m_state p of
     Pending \<Rightarrow> PollPending | Has_Result \<Rightarrow> HasResult (the (m_storage p)) | Dropped \<Rightarrow> PollDropped)"


lemmas pr_defs = pr_ok_def pr_abs_def construct_at_def destroy_result_def result_of_def pr_copy_def
  pr_copy_construct_def pr_copy_assign_def pr_move_def pr_move_construct_def pr_move_assign_def


lemma void_ready_new: "void_ready = pr_new (PollReady ())"
  by (simp add: void_ready_def pr_new_def)








section \<open>Programs over several objects\<close>

datatype 'a pr_op =
    New nat "'a poll_result"
  | Copy_Construct nat nat
  | Move_Construct nat nat
  | Copy_Assign nat nat      \<comment> \<open>target, source\<close>
  | Move_Assign nat nat
  | Destroy nat
  | Read nat

datatype 'a pr_out =
    P_Skip | P_Done | P_Threw
  | P_Fault fault
  | P_Read bool "fault + bool" "fault + bool" bool "fault + exn option" "fault + (exn + 'a)"

definition pr_read :: "'a pr \<Rightarrow> 'a pr_out" where
  "pr_read p = P_Read (pr_isPending p) (pr_isReady p) (pr_isError p) (pr_isDropped p)
     (pr_rethrowIfError p) (pr_value p)"

text \<open>Assigning an object to itself returns at once.\<close>

fun pr_exec :: "(exn + 'a \<Rightarrow> (exn + 'a) option) \<Rightarrow> (exn + 'a \<Rightarrow> exn + 'a) \<Rightarrow>
    'a pr_op \<Rightarrow> (nat \<rightharpoonup> 'a pr) \<Rightarrow> 'a pr_out \<times> (nat \<rightharpoonup> 'a pr)" where
  "pr_exec cp mv (New i v) h =
     (case (h i, pr_new v) of
        (None, Inr p) \<Rightarrow> (P_Done, h(i \<mapsto> p)) | (None, Inl f) \<Rightarrow> (P_Fault f, h) | _ \<Rightarrow> (P_Skip, h))"
| "pr_exec cp mv (Copy_Construct i j) h =
     (case (h i, h j) of
        (None, Some q) \<Rightarrow> (case pr_copy_construct cp q of
            Fault f \<Rightarrow> (P_Fault f, h) | Threw p \<Rightarrow> (P_Threw, h) | Did p \<Rightarrow> (P_Done, h(i \<mapsto> p)))
      | _ \<Rightarrow> (P_Skip, h))"
| "pr_exec cp mv (Move_Construct i j) h =
     (case (h i, h j) of
        (None, Some q) \<Rightarrow> (case pr_move_construct mv q of
            Inl f \<Rightarrow> (P_Fault f, h) | Inr (p, q) \<Rightarrow> (P_Done, h(i \<mapsto> p, j \<mapsto> q)))
      | _ \<Rightarrow> (P_Skip, h))"
| "pr_exec cp mv (Copy_Assign i j) h =
     (case (h i, h j) of
        (Some p, Some q) \<Rightarrow> (if i = j then (P_Done, h) else case pr_copy_assign cp q p of
            Fault f \<Rightarrow> (P_Fault f, h) | Threw p \<Rightarrow> (P_Threw, h(i \<mapsto> p)) | Did p \<Rightarrow> (P_Done, h(i \<mapsto> p)))
      | _ \<Rightarrow> (P_Skip, h))"
| "pr_exec cp mv (Move_Assign i j) h =
     (case (h i, h j) of
        (Some p, Some q) \<Rightarrow> (if i = j then (P_Done, h) else case pr_move_assign mv q p of
            Inl f \<Rightarrow> (P_Fault f, h) | Inr (p, q) \<Rightarrow> (P_Done, h(i \<mapsto> p, j \<mapsto> q)))
      | _ \<Rightarrow> (P_Skip, h))"
| "pr_exec cp mv (Destroy i) h =
     (case h i of
        None \<Rightarrow> (P_Skip, h)
      | Some p \<Rightarrow> (case destroy_result p of
            Inl f \<Rightarrow> (P_Fault f, h)
          | Inr p \<Rightarrow> (if m_storage p = None then P_Done else P_Fault Overwrite_Live, h(i := None))))"
| "pr_exec cp mv (Read i) h = (case h i of None \<Rightarrow> (P_Skip, h) | Some p \<Rightarrow> (pr_read p, h))"










section \<open>Properties\<close>


text \<open>
  A copy assignment whose payload's copy constructor throws leaves the tag set with no member
  behind it, and the destructor then destroys a member that is not there.
\<close>
theorem poll_result_copy_assign_throw:
  "fst (run_ops (pr_exec (\<lambda>_. None) mv) [New 0 (PollReady v), New 1 PollPending, Copy_Assign 1 0, Destroy 1] Map.empty)
     = [P_Done, P_Done, P_Threw, P_Fault Destroy_Dead]"
  by (simp add: pr_new_def pr_defs Let_def)

end
