(* ===== verification/Rc.thy ===== *)
theory Rc
  imports Prelude
begin

text \<open>
  The non-atomic reference-counted pointers of \<^verbatim>\<open>include/coro/detail/rc.h\<close> (\<^verbatim>\<open>NonAtomicRc\<close>,
  \<^verbatim>\<open>NonAtomicWeak\<close> and their control block), which single-threaded targets use instead of
  \<^verbatim>\<open>std::shared_ptr\<close>. A program holds pointers in variables; the value in a control block holds
  pointers as members, so that destroying one value can destroy others. The calls this makes, of
  \<^verbatim>\<open>release_strong\<close> inside \<^verbatim>\<open>destroy_value\<close> inside \<^verbatim>\<open>release_strong\<close>, are a stack of actions still to
  be done. Control blocks are never reused: a freed one keeps its place and is marked, so that every later
  access is a fault. The pointer \<^verbatim>\<open>m_ptr\<close> travels with \<^verbatim>\<open>m_block\<close> and plays no part in ownership; the
  counts are integers that do not overflow.
\<close>

section \<open>Pointers and control blocks\<close>

datatype kind = Strong | Weak

type_synonym ptr = "kind \<times> nat option"

record rc_block =
  strong_count :: int
  weak_count :: int
  m_destroying :: bool
  members :: "ptr list"
  freed :: bool

record rc_state =
  blocks :: "rc_block list"
  vars :: "ptr list"

definition upd_block :: "nat \<Rightarrow> (rc_block \<Rightarrow> rc_block) \<Rightarrow> rc_state \<Rightarrow> rc_state" where
  "upd_block b f s = s\<lparr>blocks := (blocks s)[b := f (blocks s ! b)]\<rparr>"

definition live_block :: "nat \<Rightarrow> rc_state \<Rightarrow> bool" where
  "live_block b s \<longleftrightarrow> b < length (blocks s) \<and> \<not> freed (blocks s ! b)"

definition add_strong_ref :: "rc_block \<Rightarrow> rc_block" where
  "add_strong_ref c = c\<lparr>strong_count := strong_count c + 1\<rparr>"

definition add_weak_ref :: "rc_block \<Rightarrow> rc_block" where
  "add_weak_ref c = c\<lparr>weak_count := weak_count c + 1\<rparr>"

text \<open>Counting a pointer that has just been copied: the end of the copying constructors.\<close>

definition add_ref :: "ptr \<Rightarrow> rc_state \<Rightarrow> fault + rc_state" where
  "add_ref p s =
     (case snd p of
        None \<Rightarrow> Inr s
      | Some b \<Rightarrow>
          (if \<not> live_block b s then Inl Use_After_Free
           else Inr (upd_block b (if fst p = Strong then add_strong_ref else add_weak_ref) s)))"

section \<open>Releasing\<close>

text \<open>
  \<open>Drop p\<close> is the \<^verbatim>\<open>release()\<close> of the pointer \<open>p\<close>, \<open>Destroyed b\<close> what \<^verbatim>\<open>release_strong\<close> and its caller do
  once \<^verbatim>\<open>destroy_value\<close> has returned. Destroying a value destroys its members.
\<close>

datatype action = Drop ptr | Destroyed nat

definition delete_block :: "nat \<Rightarrow> rc_state \<Rightarrow> rc_state" where
  "delete_block b s = upd_block b (\<lambda>c. c\<lparr>freed := True\<rparr>) s"

definition release_strong :: "nat \<Rightarrow> rc_state \<Rightarrow> action list \<times> rc_state" where
  "release_strong b s =
     (let s = upd_block b (\<lambda>c. c\<lparr>strong_count := strong_count c - 1\<rparr>) s in
      if strong_count (blocks s ! b) = 0
      then (map Drop (members (blocks s ! b)) @ [Destroyed b],
            upd_block b (\<lambda>c. c\<lparr>m_destroying := True, members := []\<rparr>) s)
      else ([], s))"

definition release_strong_end :: "nat \<Rightarrow> rc_state \<Rightarrow> bool \<times> rc_state" where
  "release_strong_end b s =
     (let s = upd_block b (\<lambda>c. c\<lparr>m_destroying := False\<rparr>) s in (weak_count (blocks s ! b) = 0, s))"

definition release_weak :: "nat \<Rightarrow> rc_state \<Rightarrow> bool \<times> rc_state" where
  "release_weak b s =
     (let s = upd_block b (\<lambda>c. c\<lparr>weak_count := weak_count c - 1\<rparr>) s; c = blocks s ! b in
      if m_destroying c then (False, s)
      else (weak_count c = 0 \<and> strong_count c = 0, s))"

definition delete_if :: "nat \<Rightarrow> bool \<times> rc_state \<Rightarrow> rc_state" where
  "delete_if b r = (if fst r then delete_block b (snd r) else snd r)"

definition release_step :: "action \<Rightarrow> rc_state \<Rightarrow> fault + action list \<times> rc_state" where
  "release_step a s =
     (case a of
        Drop p \<Rightarrow>
          (case snd p of
             None \<Rightarrow> Inr ([], s)
           | Some b \<Rightarrow>
               (if \<not> live_block b s then Inl Use_After_Free
                else if fst p = Strong then Inr (release_strong b s)
                else Inr ([], delete_if b (release_weak b s))))
      | Destroyed b \<Rightarrow>
          (if \<not> live_block b s then Inl Use_After_Free
           else Inr ([], delete_if b (release_strong_end b s))))"

text \<open>Every member is released once, so the stack empties.\<close>

definition weight :: "action \<Rightarrow> nat" where
  "weight a = (case a of Drop _ \<Rightarrow> 2 | Destroyed _ \<Rightarrow> 1)"

definition work :: "action list \<Rightarrow> rc_state \<Rightarrow> nat" where
  "work as s = sum_list (map weight as) + 3 * sum_list (map (\<lambda>c. length (members c)) (blocks s))"

lemma work_update:
  "b < length cs \<Longrightarrow> sum_list (map (\<lambda>c. length (members c)) (cs[b := c]))
     + length (members (cs ! b)) = sum_list (map (\<lambda>c. length (members c)) cs) + length (members c)"
  by (induction cs arbitrary: b) (auto split: nat.splits)

lemma work_upd:
  "b < length (blocks s) \<Longrightarrow>
     work as (upd_block b f s) + 3 * length (members (blocks s ! b)) = work as s + 3 * length (members (f (blocks s ! b)))"
  using work_update [of b "blocks s" "f (blocks s ! b)"] by (simp add: work_def upd_block_def)

lemma work_same:
  "(\<And>c. members (f c) = members c) \<Longrightarrow> work as (upd_block b f s) = work as s"
  using work_upd [of b s as f]
  by (cases "b < length (blocks s)") (simp_all add: work_def upd_block_def list_update_beyond)

lemma work_append: "work (as @ bs) s = sum_list (map weight as) + work bs s"
  by (simp add: work_def)

lemma blocks_upd [simp]:
  "length (blocks (upd_block b f s)) = length (blocks s)" "vars (upd_block b f s) = vars s"
  "b < length (blocks s) \<Longrightarrow> blocks (upd_block b f s) ! b = f (blocks s ! b)"
  "c \<noteq> b \<Longrightarrow> blocks (upd_block b f s) ! c = blocks s ! c"
  by (auto simp: upd_block_def)

lemma live_upd:
  "(\<And>c. freed (f c) = freed c) \<Longrightarrow> live_block c (upd_block b f s) = live_block c s"
  unfolding live_block_def by (cases "c = b"; cases "b < length (blocks s)") simp_all

lemma release_step_work:
  assumes "release_step a s = Inr (new, s')"
  shows "work (new @ as) s' < work (a # as) s"
proof -
  have strong: "work (fst (release_strong b s) @ as) (snd (release_strong b s)) < work (Drop p # as) s"
    if b: "b < length (blocks s)" for b p
  proof -
    define t where t: "t = upd_block b (\<lambda>c. c\<lparr>strong_count := strong_count c - 1\<rparr>) s"
    have same: "work as t = work as s" for as unfolding t by (rule work_same) simp
    have dec: "work as (upd_block b (\<lambda>c. c\<lparr>m_destroying := True, members := []\<rparr>) t) + 3 * length (members (blocks t ! b)) = work as t" for as
      using work_upd [of b t as] b by (simp add: t)
    have drops: "sum_list (map weight (map Drop ps)) = 2 * length ps" for ps
      by (induction ps) (simp_all add: weight_def)
    have "work (Drop p # as) s = 2 + work as s" by (simp add: work_def weight_def)
    then show ?thesis using dec [of as] same [of as]
      unfolding release_strong_def Let_def t [symmetric]
      by (auto simp: work_append drops weight_def simp del: map_map)
  qed
  have same: "work as (delete_if b r) = work as (snd r)" for as b r
    unfolding delete_if_def delete_block_def by (simp add: work_same)
  have weak: "work as (snd (release_weak b s)) = work as s" for as b
    unfolding release_weak_def Let_def by (simp add: work_same)
  have fin: "work as (snd (release_strong_end b s)) = work as s" for as b
    unfolding release_strong_end_def Let_def by (simp add: work_same)
  have cons: "work as s < work (a # as) s" for a as by (cases a) (simp_all add: work_def weight_def)
  show ?thesis
  proof (cases a)
    case (Drop p)
    show ?thesis
    proof (cases "\<exists>b. snd p = Some b \<and> live_block b s \<and> fst p = Strong")
      case True
      then obtain b where b: "snd p = Some b" "live_block b s" "fst p = Strong" by blast
      then have "release_strong b s = (new, s')" using assms Drop by (simp add: release_step_def)
      then show ?thesis using strong [of b p] b(2) Drop by (simp add: live_block_def)
    next
      case False
      then show ?thesis using assms cons [of as a] Drop
        by (auto simp: release_step_def same weak split: option.splits if_splits)
    qed
  next
    case (Destroyed b)
    then show ?thesis using assms cons [of as a] by (auto simp: release_step_def same fin split: if_splits)
  qed
qed

function release_all :: "action list \<Rightarrow> rc_state \<Rightarrow> fault + rc_state" where
  "release_all [] s = Inr s"
| "release_all (a # as) s =
     (case release_step a s of Inl f \<Rightarrow> Inl f | Inr (new, s) \<Rightarrow> release_all (new @ as) s)"
  by pat_completeness auto
termination
  by (relation "measure (\<lambda>(as, s). work as s)") (auto simp: release_step_work)

section \<open>Operations\<close>

text \<open>
  Where a pointer is stored: in a variable, or as a member of the value in a block. A program names a
  member through a variable that points to its value, \<^verbatim>\<open>x->member\<close>; the reference it passes on is the
  address that had when the call was made.
\<close>

datatype place = Var nat | Member nat nat

datatype addr = At_Var nat | At_Member nat nat

definition and_then :: "'e + 'a \<Rightarrow> ('a \<Rightarrow> 'e + 'b) \<Rightarrow> 'e + 'b" where
  "and_then r f = (case r of Inl e \<Rightarrow> Inl e | Inr x \<Rightarrow> f x)"

definition null :: "ptr \<Rightarrow> ptr" where
  "null p = (fst p, None)"

fun valid :: "addr \<Rightarrow> rc_state \<Rightarrow> bool" where
  "valid (At_Var x) s \<longleftrightarrow> x < length (vars s)"
| "valid (At_Member b i) s \<longleftrightarrow> live_block b s \<and> i < length (members (blocks s ! b))"

fun content :: "addr \<Rightarrow> rc_state \<Rightarrow> ptr" where
  "content (At_Var x) s = vars s ! x"
| "content (At_Member b i) s = members (blocks s ! b) ! i"

definition load :: "addr \<Rightarrow> rc_state \<Rightarrow> fault + ptr" where
  "load a s = (if valid a s then Inr (content a s) else Inl Use_After_Free)"

fun put :: "addr \<Rightarrow> ptr \<Rightarrow> rc_state \<Rightarrow> rc_state" where
  "put (At_Var x) p s = s\<lparr>vars := (vars s)[x := p]\<rparr>"
| "put (At_Member b i) p s = upd_block b (\<lambda>c. c\<lparr>members := (members c)[i := p]\<rparr>) s"

definition store :: "addr \<Rightarrow> ptr \<Rightarrow> rc_state \<Rightarrow> fault + rc_state" where
  "store a p s = (if valid a s then Inr (put a p s) else Inl Use_After_Free)"

fun resolve :: "place \<Rightarrow> rc_state \<Rightarrow> addr option" where
  "resolve (Var x) s = (if x < length (vars s) then Some (At_Var x) else None)"
| "resolve (Member x i) s =
     (if x < length (vars s) then
        (case vars s ! x of
           (Strong, Some b) \<Rightarrow> (if valid (At_Member b i) s then Some (At_Member b i) else None)
         | _ \<Rightarrow> None)
      else None)"

definition release_at :: "addr \<Rightarrow> rc_state \<Rightarrow> fault + rc_state" where
  "release_at a s = and_then (load a s) (\<lambda>p. release_all [Drop p] s)"

definition rc_reset :: "addr \<Rightarrow> rc_state \<Rightarrow> fault + rc_state" where
  "rc_reset a s = and_then (load a s) (\<lambda>p. and_then (release_at a s) (store a (null p)))"

definition copy_assign :: "addr \<Rightarrow> addr \<Rightarrow> rc_state \<Rightarrow> fault + rc_state" where
  "copy_assign d src s =
     (if d = src then Inr s
      else and_then (load d s) (\<lambda>old. and_then (release_at d s) (\<lambda>s. and_then (load src s) (\<lambda>p.
             let q = (fst old, snd p) in and_then (store d q s) (add_ref q)))))"

definition move_assign :: "addr \<Rightarrow> addr \<Rightarrow> rc_state \<Rightarrow> fault + rc_state" where
  "move_assign d src s =
     (if d = src then Inr s
      else and_then (release_at d s) (\<lambda>s. and_then (load src s) (\<lambda>p.
             and_then (store d p s) (store src (null p)))))"

text \<open>The constructors make a new variable; \<open>k\<close> is the kind of the pointer constructed.\<close>

definition new_var :: "ptr \<Rightarrow> rc_state \<Rightarrow> rc_state" where
  "new_var p s = s\<lparr>vars := vars s @ [p]\<rparr>"

definition copy_construct :: "kind \<Rightarrow> addr \<Rightarrow> rc_state \<Rightarrow> fault + rc_state" where
  "copy_construct k src s =
     and_then (load src s) (\<lambda>p. let q = (k, snd p) in and_then (add_ref q s) (\<lambda>s. Inr (new_var q s)))"

definition move_construct :: "addr \<Rightarrow> rc_state \<Rightarrow> fault + rc_state" where
  "move_construct src s =
     and_then (load src s) (\<lambda>p. and_then (store src (null p) s) (\<lambda>s. Inr (new_var p s)))"

definition weak_lock :: "addr \<Rightarrow> rc_state \<Rightarrow> fault + rc_state" where
  "weak_lock src s =
     and_then (load src s) (\<lambda>p.
       case snd p of
         None \<Rightarrow> Inr (new_var (Strong, None) s)
       | Some b \<Rightarrow>
           (if \<not> live_block b s then Inl Use_After_Free
            else if strong_count (blocks s ! b) > 0
            then Inr (new_var (Strong, Some b) (upd_block b add_strong_ref s))
            else Inr (new_var (Strong, None) s)))"

text \<open>\<^verbatim>\<open>make_rc\<close> moves its arguments, pointers in variables, into the members of the new value.\<close>

fun take_args :: "nat list \<Rightarrow> ptr list \<Rightarrow> ptr list \<times> ptr list" where
  "take_args [] vs = ([], vs)"
| "take_args (x # xs) vs =
     (if x < length vs then (let (ps, vs') = take_args xs (vs[x := null (vs ! x)]) in (vs ! x # ps, vs'))
      else take_args xs vs)"

definition make_rc :: "nat list \<Rightarrow> rc_state \<Rightarrow> rc_state" where
  "make_rc xs s =
     (let (ps, vs) = take_args xs (vars s); b = length (blocks s) in
      s\<lparr>blocks := blocks s @ [\<lparr>strong_count = 1, weak_count = 0, m_destroying = False, members = ps, freed = False\<rparr>],
        vars := vs @ [(Strong, Some b)]\<rparr>)"

text \<open>
  A program. An operation that names a place there is none of, or that the types forbid, is one no
  program contains: it does nothing. A destroyed variable stays as an empty one.
\<close>

datatype rc_op = Make "nat list" | Copy place | Move place | Downgrade place | Lock place | Destroy nat
  | Reset place | Assign place place | Assign_Move place place

definition with_place :: "place \<Rightarrow> (kind \<Rightarrow> bool) \<Rightarrow> (addr \<Rightarrow> rc_state \<Rightarrow> fault + rc_state) \<Rightarrow> rc_state \<Rightarrow> fault + rc_state" where
  "with_place l ok f s =
     (case resolve l s of None \<Rightarrow> Inr s | Some a \<Rightarrow> if ok (fst (content a s)) then f a s else Inr s)"

definition place_kind :: "place \<Rightarrow> rc_state \<Rightarrow> kind option" where
  "place_kind l s = map_option (\<lambda>a. fst (content a s)) (resolve l s)"

fun rc_step :: "rc_op \<Rightarrow> rc_state \<Rightarrow> fault + rc_state" where
  "rc_step (Make xs) s = Inr (make_rc xs s)"
| "rc_step (Copy l) s = with_place l (\<lambda>_. True) (\<lambda>a s. copy_construct (fst (content a s)) a s) s"
| "rc_step (Move l) s = with_place l (\<lambda>_. True) move_construct s"
| "rc_step (Downgrade l) s = with_place l (\<lambda>k. k = Strong) (copy_construct Weak) s"
| "rc_step (Lock l) s = with_place l (\<lambda>k. k = Weak) weak_lock s"
| "rc_step (Destroy x) s = with_place (Var x) (\<lambda>_. True) rc_reset s"
| "rc_step (Reset l) s = with_place l (\<lambda>_. True) rc_reset s"
| "rc_step (Assign d l) s =
     (case place_kind l s of
        None \<Rightarrow> Inr s
      | Some k \<Rightarrow> with_place d (\<lambda>k'. k' = k \<or> k' = Weak) (\<lambda>a. copy_assign a (the (resolve l s))) s)"
| "rc_step (Assign_Move d l) s =
     (case place_kind l s of
        None \<Rightarrow> Inr s
      | Some k \<Rightarrow> with_place d (\<lambda>k'. k' = k) (\<lambda>a. move_assign a (the (resolve l s))) s)"

text \<open>After a fault nothing is known: the program stops.\<close>

definition rc_exec :: "rc_op \<Rightarrow> fault + rc_state \<Rightarrow> unit \<times> (fault + rc_state)" where
  "rc_exec op r = ((), and_then r (rc_step op))"

definition rc_init :: "fault + rc_state" where
  "rc_init = Inr \<lparr>blocks = [], vars = []\<rparr>"

section \<open>The counts\<close>

fun drops :: "action list \<Rightarrow> ptr multiset" where
  "drops [] = {#}"
| "drops (Drop p # as) = add_mset p (drops as)"
| "drops (Destroyed b # as) = drops as"

fun ends :: "action list \<Rightarrow> nat list" where
  "ends [] = []"
| "ends (Drop p # as) = ends as"
| "ends (Destroyed b # as) = b # ends as"

lemma drops_append [simp]: "drops (as @ bs) = drops as + drops bs"
  by (induction as rule: drops.induct) auto

lemma ends_append [simp]: "ends (as @ bs) = ends as @ ends bs"
  by (induction as rule: drops.induct) auto

lemma drops_members [simp]: "drops (map Drop ps) = mset ps" "ends (map Drop ps) = []"
  by (induction ps) auto

text \<open>
  \<open>M\<close> are the pointers that hold a reference, those about to be released included. A block is freed exactly when
  nothing refers to it and its value is not being destroyed, and a value whose last owner is gone has no
  members left.
\<close>

definition block_ok :: "ptr multiset \<Rightarrow> action list \<Rightarrow> nat \<Rightarrow> rc_block \<Rightarrow> bool" where
  "block_ok M as b c \<longleftrightarrow>
     strong_count c = int (count M (Strong, Some b)) \<and> weak_count c = int (count M (Weak, Some b))
   \<and> (m_destroying c \<longleftrightarrow> b \<in> set (ends as)) \<and> (m_destroying c \<longrightarrow> strong_count c = 0)
   \<and> (freed c \<longleftrightarrow> strong_count c = 0 \<and> weak_count c = 0 \<and> \<not> m_destroying c)
   \<and> (strong_count c = 0 \<longrightarrow> members c = [])"

definition counts_ok :: "ptr multiset \<Rightarrow> action list \<Rightarrow> rc_state \<Rightarrow> bool" where
  "counts_ok M as s \<longleftrightarrow>
     (\<forall>b < length (blocks s). block_ok M as b (blocks s ! b)) \<and> distinct (ends as)
   \<and> (\<forall>b\<in>set (ends as). b < length (blocks s)) \<and> (\<forall>k b. (k, Some b) \<in># M \<longrightarrow> b < length (blocks s))"

text \<open>
  While a pointer is released it still stands where it was stored. \<open>V\<close> are the variables that count and \<open>F b\<close>
  the members of \<open>b\<close> that do; they may be fewer than \<open>b\<close> has only where a variable keeps \<open>b\<close> alive.
\<close>

definition pool :: "ptr multiset \<Rightarrow> (nat \<Rightarrow> ptr multiset) \<Rightarrow> rc_state \<Rightarrow> ptr multiset" where
  "pool V F s = V + (\<Sum>b<length (blocks s). F b)"

definition pinned :: "ptr multiset \<Rightarrow> (nat \<Rightarrow> ptr multiset) \<Rightarrow> rc_state \<Rightarrow> bool" where
  "pinned V F s \<longleftrightarrow> (\<forall>b < length (blocks s). F b = mset (members (blocks s ! b)) \<or> (Strong, Some b) \<in># V)"

definition rc_inv :: "ptr multiset \<Rightarrow> (nat \<Rightarrow> ptr multiset) \<Rightarrow> action list \<Rightarrow> rc_state \<Rightarrow> bool" where
  "rc_inv V F as s \<longleftrightarrow> counts_ok (pool V F s + drops as) as s \<and> pinned V F s"

lemma sum_members_update:
  fixes n :: nat and m :: "'a multiset"
  assumes b: "b < n"
  shows "(\<Sum>c<n. (F(b := m)) c) + F b = (\<Sum>c<n. F c) + m"
proof -
  have "(\<Sum>c<n. G c) = G b + (\<Sum>c\<in>{..<n} - {b}. G c)" for G :: "nat \<Rightarrow> 'a multiset"
    using b by (simp add: sum.remove [of "{..<n}" b])
  note split = this
  have "(\<Sum>c\<in>{..<n} - {b}. (F(b := m)) c) = (\<Sum>c\<in>{..<n} - {b}. F c)" by (rule sum.cong) auto
  then show ?thesis using split [of "F(b := m)"] split [of F] by (simp only: fun_upd_same ac_simps)
qed

lemma pool_update: "b < length (blocks s) \<Longrightarrow> pool V (F(b := m)) s + F b = pool V F s + m"
  using sum_members_update [of b "length (blocks s)" F m] by (simp add: pool_def add.assoc)

lemma block_ok_other:
  "block_ok M as b c \<Longrightarrow> count M' (Strong, Some b) = count M (Strong, Some b) \<Longrightarrow>
   count M' (Weak, Some b) = count M (Weak, Some b) \<Longrightarrow> b \<in> set (ends as') \<longleftrightarrow> b \<in> set (ends as) \<Longrightarrow> block_ok M' as' b c"
  by (auto simp: block_ok_def)

lemma counts_ok_upd:
  assumes "counts_ok M as s" "b < length (blocks s)" "block_ok M' as' b (f (blocks s ! b))" "distinct (ends as')"
    "\<And>k c. c \<noteq> b \<Longrightarrow> count M' (k, Some c) = count M (k, Some c)"
    "\<And>c. c \<noteq> b \<Longrightarrow> c \<in> set (ends as') \<longleftrightarrow> c \<in> set (ends as)"
  shows "counts_ok M' as' (upd_block b f s)"
proof -
  have "block_ok M' as' c (blocks (upd_block b f s) ! c)" if "c < length (blocks s)" for c
    using assms(1-3) that assms(5) [of c] assms(6) [of c]
    by (cases "c = b") (auto simp: counts_ok_def intro: block_ok_other)
  moreover have "c < length (blocks s)" if "(k, Some c) \<in># M'" for k c
    using assms(1,2) assms(5) [of c k] that by (cases "c = b") (auto simp: counts_ok_def simp flip: count_greater_zero_iff)
  moreover have "c < length (blocks s)" if "c \<in> set (ends as')" for c
    using assms(1,2) assms(6) [of c] that by (cases "c = b") (auto simp: counts_ok_def)
  ultimately show ?thesis using assms(4) by (auto simp: counts_ok_def)
qed

lemma counts_ok_cong:
  assumes "counts_ok M as s" "\<And>k b. count M' (k, Some b) = count M (k, Some b)"
  shows "counts_ok M' as s"
  using assms(1) unfolding counts_ok_def
  by (auto simp: assms(2) simp flip: count_greater_zero_iff intro: block_ok_other)

section \<open>Releasing keeps the counts\<close>

lemma upd_upd: "upd_block b g (upd_block b f s) = upd_block b (g \<circ> f) s"
  by (cases "b < length (blocks s)") (simp_all add: upd_block_def list_update_beyond)

lemma delete_weak:
  "b < length (blocks s) \<Longrightarrow> delete_if b (release_weak b s) =
     upd_block b (\<lambda>c. let c = c\<lparr>weak_count := weak_count c - 1\<rparr> in
       if \<not> m_destroying c \<and> weak_count c = 0 \<and> strong_count c = 0 then c\<lparr>freed := True\<rparr> else c) s"
  by (auto simp: delete_if_def release_weak_def delete_block_def Let_def upd_block_def)

lemma delete_strong:
  "b < length (blocks s) \<Longrightarrow> delete_if b (release_strong_end b s) =
     upd_block b (\<lambda>c. let c = c\<lparr>m_destroying := False\<rparr> in if weak_count c = 0 then c\<lparr>freed := True\<rparr> else c) s"
  by (auto simp: delete_if_def release_strong_end_def delete_block_def Let_def upd_block_def)

text \<open>What releasing leaves alone: the variables, and the values they keep alive.\<close>

definition keeps :: "ptr multiset \<Rightarrow> (nat \<Rightarrow> ptr multiset) \<Rightarrow> rc_state \<Rightarrow> (nat \<Rightarrow> ptr multiset) \<Rightarrow> rc_state \<Rightarrow> bool" where
  "keeps V F s F' s' \<longleftrightarrow> length (blocks s') = length (blocks s) \<and> vars s' = vars s
   \<and> (\<forall>b. F' b = F b \<and> members (blocks s' ! b) = members (blocks s ! b) \<or> F' b = mset (members (blocks s' ! b)) \<and> (Strong, Some b) \<notin># V)"

lemma keeps_refl: "keeps V F s F s"
  by (simp add: keeps_def)

lemma keeps_trans: "keeps V F s F' s' \<Longrightarrow> keeps V F' s' F'' s'' \<Longrightarrow> keeps V F s F'' s''"
  unfolding keeps_def by metis

lemma keeps_upd:
  "(\<And>c. members (f c) = members c) \<Longrightarrow> keeps V F s F (upd_block b f s)"
  unfolding keeps_def
proof (intro conjI allI disjI1)
  fix c assume "\<And>c. members (f c) = members c"
  then show "members (blocks (upd_block b f s) ! c) = members (blocks s ! c)"
    by (cases "c = b"; cases "b < length (blocks s)") (simp_all add: upd_block_def list_update_beyond)
qed simp_all

lemma pinned_keeps: "pinned V F s \<Longrightarrow> keeps V F s F' s' \<Longrightarrow> pinned V F' s'"
  unfolding pinned_def keeps_def by metis

lemma pool_upd [simp]: "pool V F (upd_block b f s) = pool V F s"
  by (simp add: pool_def)

lemma release_drop_strong:
  assumes I: "rc_inv V F (Drop (Strong, Some b) # as) s"
  shows "\<exists>new s' F'. release_step (Drop (Strong, Some b)) s = Inr (new, s') \<and> rc_inv V F' (new @ as) s' \<and> keeps V F s F' s'"
proof -
  let ?M = "pool V F s + drops as" and ?c = "blocks s ! b"
  have C: "counts_ok (add_mset (Strong, Some b) ?M) (Drop (Strong, Some b) # as) s" and P: "pinned V F s"
    using I by (simp_all add: rc_inv_def)
  have b: "b < length (blocks s)" using C by (auto simp: counts_ok_def)
  have ok: "block_ok (add_mset (Strong, Some b) ?M) (Drop (Strong, Some b) # as) b ?c" using C b by (simp add: counts_ok_def)
  have dist: "distinct (ends as)" using C by (simp add: counts_ok_def)
  have live: "live_block b s" using ok b by (simp add: live_block_def block_ok_def)
  let ?dec = "\<lambda>c. c\<lparr>strong_count := strong_count c - 1\<rparr>"
  show ?thesis
  proof (cases "strong_count ?c = 1")
    case False
    then have step: "release_step (Drop (Strong, Some b)) s = Inr ([], upd_block b ?dec s)"
      using live b by (simp add: release_step_def release_strong_def)
    have "block_ok ?M as b (?dec ?c)" using ok False by (auto simp: block_ok_def)
    then have "counts_ok ?M as (upd_block b ?dec s)" using b dist by (intro counts_ok_upd [OF C]) auto
    moreover have K: "keeps V F s F (upd_block b ?dec s)" by (rule keeps_upd) simp
    ultimately have "rc_inv V F ([] @ as) (upd_block b ?dec s)" using pinned_keeps [OF P K] by (simp add: rc_inv_def)
    then show ?thesis using step K by blast
  next
    case True
    let ?f = "(\<lambda>c. c\<lparr>m_destroying := True, members := []\<rparr>) \<circ> ?dec" and ?new = "map Drop (members ?c) @ [Destroyed b]"
    have step: "release_step (Drop (Strong, Some b)) s = Inr (?new, upd_block b ?f s)"
      using live b True by (simp add: release_step_def release_strong_def upd_upd)
    have none: "count ?M (Strong, Some b) = 0" using ok True by (simp add: block_ok_def)
    then have notV: "(Strong, Some b) \<notin># V" by (auto simp: pool_def count_eq_zero_iff)
    then have Fb: "F b = mset (members ?c)" using P b by (auto simp: pinned_def)
    let ?F = "F(b := {#})"
    have pool: "pool V ?F s + mset (members ?c) = pool V F s" using pool_update [OF b, of V F "{#}"] Fb by simp
    have new: "b \<notin> set (ends as)" using ok True by (auto simp: block_ok_def)
    have "block_ok ?M (?new @ as) b (?f ?c)" using ok none by (auto simp: block_ok_def)
    then have "counts_ok ?M (?new @ as) (upd_block b ?f s)" using b dist new by (intro counts_ok_upd [OF C]) auto
    moreover have "pool V ?F s + drops (?new @ as) = ?M" by (simp add: pool [symmetric] ac_simps)
    moreover have K: "keeps V F s ?F (upd_block b ?f s)"
      unfolding keeps_def using notV b by (auto simp: upd_block_def)
    ultimately have "rc_inv V ?F (?new @ as) (upd_block b ?f s)" using pinned_keeps [OF P K] by (simp only: rc_inv_def pool_upd)
    then show ?thesis using step K by blast
  qed
qed

lemma release_other:
  assumes C: "counts_ok M (a # as) s" and P: "pinned V F s" and b: "b < length (blocks s)"
    and step: "release_step a s = Inr ([], upd_block b f s)" and f: "\<And>c. members (f c) = members c"
    and ok: "block_ok (pool V F s + drops as) as b (f (blocks s ! b))" and dist: "distinct (ends as)"
    and M: "\<And>k c. c \<noteq> b \<Longrightarrow> count (pool V F s + drops as) (k, Some c) = count M (k, Some c)"
    and E: "\<And>c. c \<noteq> b \<Longrightarrow> c \<in> set (ends as) \<longleftrightarrow> c \<in> set (ends (a # as))"
  shows "\<exists>new s' F'. release_step a s = Inr (new, s') \<and> rc_inv V F' (new @ as) s' \<and> keeps V F s F' s'"
proof -
  have "counts_ok (pool V F s + drops as) as (upd_block b f s)" by (rule counts_ok_upd [where f = f, OF C b ok dist M E])
  moreover have K: "keeps V F s F (upd_block b f s)" using f by (rule keeps_upd)
  ultimately have "rc_inv V F ([] @ as) (upd_block b f s)" using pinned_keeps [OF P K] by (simp add: rc_inv_def)
  then show ?thesis using step K by blast
qed

lemma action_cases:
  obtains k where "a = Drop (k, None)" | b where "a = Drop (Strong, Some b)" | b where "a = Drop (Weak, Some b)" | b where "a = Destroyed b"
proof (cases a)
  case (Drop p)
  obtain k ob where "p = (k, ob)" by (cases p)
  with Drop show ?thesis using that(1-3) by (cases ob; cases k) simp_all
next
  case (Destroyed b)
  then show ?thesis using that(4) by simp
qed

lemma release_step_inv:
  assumes I: "rc_inv V F (a # as) s"
  shows "\<exists>new s' F'. release_step a s = Inr (new, s') \<and> rc_inv V F' (new @ as) s' \<and> keeps V F s F' s'"
proof -
  have C: "counts_ok (pool V F s + drops (a # as)) (a # as) s" and P: "pinned V F s" using I by (simp_all add: rc_inv_def)
  have dist: "distinct (ends as)" using C by (cases a) (auto simp: counts_ok_def)
  consider k where "a = Drop (k, None)" | b where "a = Drop (Strong, Some b)" | b where "a = Drop (Weak, Some b)" | b where "a = Destroyed b"
    by (rule action_cases)
  then show ?thesis
  proof cases
    case 1
    have "counts_ok (pool V F s + drops as) as s"
      using C 1 by (auto simp: counts_ok_def block_ok_def)
    then show ?thesis using 1 P keeps_refl by (auto simp: release_step_def rc_inv_def)
  next
    case (2 b)
    then show ?thesis using release_drop_strong I by simp
  next
    case (3 b)
    have b: "b < length (blocks s)" using C 3 by (auto simp: counts_ok_def)
    have ok: "block_ok (pool V F s + drops (a # as)) (a # as) b (blocks s ! b)" using C b by (simp add: counts_ok_def)
    then have live: "live_block b s" using b 3 by (simp add: live_block_def block_ok_def)
    let ?f = "\<lambda>c. let c = c\<lparr>weak_count := weak_count c - 1\<rparr> in
       if \<not> m_destroying c \<and> weak_count c = 0 \<and> strong_count c = 0 then c\<lparr>freed := True\<rparr> else c"
    have step: "release_step a s = Inr ([], upd_block b ?f s)" using 3 live b by (simp add: release_step_def delete_weak)
    have new: "block_ok (pool V F s + drops as) as b (?f (blocks s ! b))"
      using ok 3 by (cases "m_destroying (blocks s ! b)") (auto simp: block_ok_def Let_def)
    show ?thesis by (rule release_other [OF C P b step _ new dist]) (auto simp: 3 Let_def)
  next
    case (4 b)
    have b: "b < length (blocks s)" "b \<notin> set (ends as)" using C 4 by (auto simp: counts_ok_def)
    have ok: "block_ok (pool V F s + drops (a # as)) (a # as) b (blocks s ! b)" using C b by (simp add: counts_ok_def)
    then have live: "live_block b s" using b 4 by (simp add: live_block_def block_ok_def)
    let ?f = "\<lambda>c. let c = c\<lparr>m_destroying := False\<rparr> in if weak_count c = 0 then c\<lparr>freed := True\<rparr> else c"
    have step: "release_step a s = Inr ([], upd_block b ?f s)" using 4 live b by (simp add: release_step_def delete_strong)
    have new: "block_ok (pool V F s + drops as) as b (?f (blocks s ! b))"
      using ok 4 b(2) by (auto simp: block_ok_def Let_def)
    show ?thesis by (rule release_other [OF C P b(1) step _ new dist]) (auto simp: 4 Let_def)
  qed
qed

lemma release_all_inv:
  "rc_inv V F as s \<Longrightarrow> \<exists>s' F'. release_all as s = Inr s' \<and> rc_inv V F' [] s' \<and> keeps V F s F' s'"
proof (induction as s arbitrary: F rule: release_all.induct)
  case (1 s)
  then show ?case using keeps_refl by auto
next
  case (2 a as s)
  from release_step_inv [OF "2.prems"] obtain new t G where
    t: "release_step a s = Inr (new, t)" "rc_inv V G (new @ as) t" "keeps V F s G t" by blast
  from "2.IH" [OF t(1) refl t(2)] obtain s' F' where
    s': "release_all (new @ as) t = Inr s'" "rc_inv V F' [] s'" "keeps V G t F' s'" by blast
  then show ?case using t keeps_trans [OF t(3) s'(3)] by auto
qed

section \<open>Operations keep the counts\<close>

definition total :: "rc_state \<Rightarrow> ptr multiset" where
  "total s = pool (mset (vars s)) (\<lambda>b. mset (members (blocks s ! b))) s"

definition rc_ok :: "rc_state \<Rightarrow> bool" where
  "rc_ok s \<longleftrightarrow> counts_ok (total s) [] s"

lemma pool_cong: "(\<And>b. b < length (blocks s) \<Longrightarrow> F b = G b) \<Longrightarrow> pool V F s = pool V G s"
  by (simp add: pool_def)

lemma content_total: "valid a s \<Longrightarrow> content a s \<in># total s"
  by (cases a) (auto simp: total_def pool_def live_block_def sum.remove [of "{..<length (blocks s)}" "case a of At_Member b i \<Rightarrow> b"])

lemma total_put:
  assumes "valid a s"
  shows "add_mset (content a s) (total (put a q s)) = add_mset q (total s)"
proof (cases a)
  case (At_Var x)
  then have "total (put a q s) = (mset (vars s))  - {#vars s ! x#} + {#q#} + (\<Sum>b<length (blocks s). mset (members (blocks s ! b)))"
    using assms by (simp add: total_def pool_def mset_update)
  moreover have "vars s ! x \<in># mset (vars s)" using assms At_Var by simp
  ultimately show ?thesis using At_Var by (simp add: total_def pool_def insert_DiffM)
next
  case (At_Member b i)
  have b: "b < length (blocks s)" "i < length (members (blocks s ! b))" using assms At_Member by (simp_all add: live_block_def)
  let ?G = "\<lambda>b. mset (members (blocks s ! b))" and ?m = "mset ((members (blocks s ! b))[i := q])"
  have "total (put a q s) = pool (mset (vars s)) (?G(b := ?m)) s"
    unfolding total_def At_Member put.simps pool_upd blocks_upd using b by (intro pool_cong) (simp add: upd_block_def nth_list_update)
  then have sum: "total (put a q s) + ?G b = total s + ?m" using pool_update [OF b(1), of _ ?G ?m] by (simp add: total_def)
  have cell: "add_mset (content a s) ?m = add_mset q (?G b)"
    using b(2) At_Member by (simp add: mset_update insert_DiffM)
  have "add_mset (content a s) (total (put a q s)) + ?G b = total s + add_mset (content a s) ?m" using sum by simp
  also have "\<dots> = add_mset q (total s) + ?G b" unfolding cell by simp
  finally show ?thesis by simp
qed

lemma total_put_diff:
  assumes "valid a s"
  shows "total (put a q s) = add_mset q (total s - {#content a s#})"
proof -
  have "add_mset (content a s) (total (put a q s)) = add_mset q (add_mset (content a s) (total s - {#content a s#}))"
    using total_put [OF assms] content_total [OF assms] by (simp add: insert_DiffM)
  then show ?thesis by (simp add: add_mset_commute)
qed

lemma put_simps [simp]:
  "length (blocks (put a q s)) = length (blocks s)" "length (vars (put a q s)) = length (vars s)"
  by (cases a; simp)+

lemma counts_put: "valid a s \<Longrightarrow> counts_ok M as s \<Longrightarrow> counts_ok M as (put a q s)"
proof (cases a)
  case (At_Var x)
  then show "counts_ok M as s \<Longrightarrow> ?thesis" by (simp add: counts_ok_def)
next
  case (At_Member b i)
  assume v: "valid a s" and C: "counts_ok M as s"
  then have b: "b < length (blocks s)" and ok: "block_ok M as b (blocks s ! b)" using At_Member by (auto simp: live_block_def counts_ok_def)
  have "block_ok M as b ((blocks s ! b)\<lparr>members := (members (blocks s ! b))[i := q]\<rparr>)"
    using ok v At_Member by (auto simp: block_ok_def)
  then show ?thesis unfolding At_Member put.simps using C b by (intro counts_ok_upd [OF C b]) (auto simp: counts_ok_def)
qed

lemma nth_list_update': "xs[i := x] ! j = (if i = j \<and> i < length xs then x else xs ! j)"
  by (cases "i < length xs") (simp_all add: nth_list_update list_update_beyond)

lemma members_put:
  "members (blocks (put d q s) ! b) = (case d of At_Member c j \<Rightarrow>
     if b = c \<and> c < length (blocks s) then (members (blocks s ! b))[j := q] else members (blocks s ! b) | _ \<Rightarrow> members (blocks s ! b))"
  by (cases d) (simp_all add: upd_block_def nth_list_update')

lemma live_put [simp]: "live_block b (put d q s) = live_block b s"
proof (cases d)
  case (At_Member c j)
  show ?thesis unfolding At_Member put.simps by (rule live_upd) simp
qed (simp add: live_block_def)

lemma content_put [simp]: "valid a s \<Longrightarrow> content a (put a q s) = q"
  by (cases a) (simp_all add: live_block_def)

lemma valid_put [simp]: "valid a (put d q s) = valid a s"
  by (cases a; cases d) (auto simp: members_put simp del: put.simps)

lemma content_put_other: "a \<noteq> d \<Longrightarrow> valid d s \<Longrightarrow> content a (put d q s) = content a s"
  by (cases a; cases d) (auto simp: upd_block_def nth_list_update')

lemma other_content:
  assumes "a \<noteq> d" "valid a s" "valid d s" "snd (content a s) \<noteq> None"
  shows "content a s \<in># total s - {#content d s#}"
proof -
  let ?t = "put d (null (content d s)) s"
  have "content a ?t \<in># total ?t" using assms(2) by (simp add: content_total)
  then show ?thesis using assms total_put_diff [OF assms(3)] by (auto simp: content_put_other null_def)
qed

lemma live_of:
  assumes "counts_ok M [] s" "(k, Some b) \<in># M"
  shows "live_block b s"
proof -
  have b: "b < length (blocks s)" using assms by (auto simp: counts_ok_def)
  then have "block_ok M [] b (blocks s ! b)" using assms by (simp add: counts_ok_def)
  moreover have "count M (k, Some b) > 0" using assms(2) by simp
  ultimately show ?thesis using b by (cases k) (auto simp: live_block_def block_ok_def)
qed

text \<open>A reference is added where there is one already: of the same kind, or a strong one.\<close>

lemma add_ref_ok:
  assumes C: "counts_ok M [] s" and q: "snd p \<noteq> None \<Longrightarrow> p \<in># M" and k: "k = fst p \<or> k = Weak"
  shows "\<exists>s'. add_ref (k, snd p) s = Inr s' \<and> counts_ok (add_mset (k, snd p) M) [] s' \<and> total s' = total s
    \<and> vars s' = vars s \<and> length (blocks s') = length (blocks s)"
proof (cases "snd p")
  case None
  then show ?thesis using counts_ok_cong [OF C] by (auto simp: add_ref_def)
next
  case (Some b)
  have p: "(fst p, Some b) \<in># M" using q Some by (metis option.distinct(1) prod.collapse)
  then have live: "live_block b s" by (rule live_of [OF C])
  then have b: "b < length (blocks s)" and ok: "block_ok M [] b (blocks s ! b)" using C by (auto simp: live_block_def counts_ok_def)
  have "count M (fst p, Some b) > 0" using p by simp
  then have "block_ok (add_mset (k, Some b) M) [] b ((if k = Strong then add_strong_ref else add_weak_ref) (blocks s ! b))"
    using ok k by (cases k; cases "fst p") (auto simp: block_ok_def add_strong_ref_def add_weak_ref_def)
  then have "counts_ok (add_mset (k, Some b) M) [] (upd_block b (if k = Strong then add_strong_ref else add_weak_ref) s)"
    by (intro counts_ok_upd [OF C b]) auto
  moreover have "members (blocks (upd_block b (if k = Strong then add_strong_ref else add_weak_ref) s) ! c) = members (blocks s ! c)" for c
    using b by (simp add: upd_block_def nth_list_update' add_strong_ref_def add_weak_ref_def)
  ultimately show ?thesis using live Some by (auto simp: add_ref_def total_def)
qed

text \<open>
  Releasing what a place holds: the pointer still stands there but counts no more, and what the other
  variables keep alive is as it was.
\<close>

definition held_except :: "addr \<Rightarrow> rc_state \<Rightarrow> rc_state \<Rightarrow> bool" where
  "held_except d s s' \<longleftrightarrow> vars s' = vars s
   \<and> (\<forall>x b. x < length (vars s) \<and> vars s ! x = (Strong, Some b) \<and> d \<noteq> At_Var x \<longrightarrow>
        live_block b s' \<and> members (blocks s' ! b) = members (blocks s ! b))"

lemma pinned_by_others:
  assumes "x < length vs" "y < length vs" "x \<noteq> y" "vs ! y = (k, Some b)"
  shows "(k, Some b) \<in># mset vs - {#vs ! x#}"
proof -
  have "vs[x := (k, None)] ! y \<in> set (vs[x := (k, None)])" using assms(2) by (metis length_list_update nth_mem)
  then have "vs[x := (k, None)] ! y \<in># mset (vs[x := (k, None)])" by simp
  then show ?thesis using assms by (simp add: mset_update)
qed

lemma keeps_held:
  assumes K: "keeps V F s F' s'" and I: "rc_inv V F' [] s'"
    and V: "\<And>x b. x < length (vars s) \<Longrightarrow> vars s ! x = (Strong, Some b) \<Longrightarrow> d \<noteq> At_Var x \<Longrightarrow> (Strong, Some b) \<in># V"
  shows "held_except d s s'"
proof -
  have "live_block b s' \<and> members (blocks s' ! b) = members (blocks s ! b)" if "(Strong, Some b) \<in># V" for b
    using K I that live_of [of "pool V F' s'" s' Strong b] by (auto simp: keeps_def rc_inv_def pool_def)
  then show ?thesis using K V unfolding held_except_def keeps_def by blast
qed

lemma release_var:
  assumes ok: "rc_ok s" and x: "x < length (vars s)"
  shows "\<exists>s'. release_all [Drop (vars s ! x)] s = Inr s' \<and> held_except (At_Var x) s s'
    \<and> counts_ok (total s' - {#vars s ! x#}) [] s'"
proof -
  let ?p = "vars s ! x" let ?V = "mset (vars s) - {#?p#}" let ?F = "\<lambda>b. mset (members (blocks s ! b))"
  have p: "?p \<in># mset (vars s)" using x by simp
  have "add_mset ?p (pool ?V ?F s) = total s" using p by (simp add: total_def pool_def insert_DiffM flip: union_mset_add_mset_left)
  then have "rc_inv ?V ?F [Drop ?p] s" using ok by (simp add: rc_inv_def rc_ok_def pinned_def counts_ok_def block_ok_def)
  from release_all_inv [OF this] obtain s' F' where
    s': "release_all [Drop ?p] s = Inr s'" and I: "rc_inv ?V F' [] s'" and K: "keeps ?V ?F s F' s'" by blast
  have "pool ?V F' s' = pool ?V (\<lambda>b. mset (members (blocks s' ! b))) s'"
    using K by (intro pool_cong) (metis keeps_def)
  moreover have "vars s' = vars s" using K by (simp add: keeps_def)
  ultimately have "total s' - {#?p#} = pool ?V F' s'" using p by (simp add: total_def pool_def)
  moreover have "held_except (At_Var x) s s'"
    by (rule keeps_held [OF K I]) (metis pinned_by_others x)
  ultimately show ?thesis using s' I by (simp add: rc_inv_def)
qed

lemma release_member:
  assumes ok: "rc_ok s" and x: "x < length (vars s)" "vars s ! x = (Strong, Some b)" and v: "valid (At_Member b i) s"
  shows "\<exists>s'. release_all [Drop (members (blocks s ! b) ! i)] s = Inr s' \<and> held_except (At_Member b i) s s'
    \<and> counts_ok (total s' - {#members (blocks s ! b) ! i#}) [] s'"
proof -
  let ?p = "members (blocks s ! b) ! i" let ?V = "mset (vars s)" let ?G = "\<lambda>s b. mset (members (blocks s ! b))"
  let ?F = "(?G s)(b := ?G s b - {#?p#})"
  have b: "b < length (blocks s)" and p: "?p \<in># ?G s b" using v by (auto simp: live_block_def)
  have pin: "(Strong, Some b) \<in># ?V" using x nth_mem [of x "vars s"] by simp
  have hole: "add_mset ?p (pool ?V ((?G t)(b := ?G t b - {#?p#})) t) = pool ?V (?G t) t"
    if "length (blocks t) = length (blocks s)" "?p \<in># ?G t b" for t
  proof -
    have "add_mset ?p (pool ?V ((?G t)(b := ?G t b - {#?p#})) t) + (?G t b - {#?p#})
      = pool ?V ((?G t)(b := ?G t b - {#?p#})) t + ?G t b" using that(2) by (simp add: insert_DiffM flip: union_mset_add_mset_right)
    also have "\<dots> = pool ?V (?G t) t + (?G t b - {#?p#})" using pool_update [of b t ?V "?G t"] b that(1) by simp
    finally show ?thesis by simp
  qed
  have "rc_inv ?V ?F [Drop ?p] s"
    using ok hole [OF refl p] pin by (auto simp: rc_inv_def rc_ok_def total_def pinned_def counts_ok_def block_ok_def)
  from release_all_inv [OF this] obtain s' F' where
    s': "release_all [Drop ?p] s = Inr s'" and I: "rc_inv ?V F' [] s'" and K: "keeps ?V ?F s F' s'" by blast
  have "F' b = ?F b \<and> members (blocks s' ! b) = members (blocks s ! b)" using K pin unfolding keeps_def by blast
  then have same: "members (blocks s' ! b) = members (blocks s ! b)" "F' b = ?G s b - {#?p#}" "length (blocks s') = length (blocks s)" "vars s' = vars s"
    using K by (simp_all add: keeps_def)
  have "pool ?V F' s' = pool ?V ((?G s')(b := ?G s' b - {#?p#})) s'"
  proof (rule pool_cong)
    fix c
    have "F' c = ?F c \<and> members (blocks s' ! c) = members (blocks s ! c) \<or> F' c = ?G s' c" using K unfolding keeps_def by blast
    then show "F' c = ((?G s')(b := ?G s' b - {#?p#})) c" using same by (cases "c = b") auto
  qed
  then have "add_mset ?p (pool ?V F' s') = total s'" using hole [of s'] same p by (simp add: total_def)
  then have "total s' - {#?p#} = pool ?V F' s'" by (metis add_mset_remove_trivial)
  moreover have "held_except (At_Member b i) s s'"
    by (rule keeps_held [OF K I]) (metis nth_mem set_mset_mset)
  ultimately show ?thesis using s' I by (simp add: rc_inv_def)
qed

lemma resolve_cases:
  assumes "resolve l s = Some a"
  obtains x where "l = Var x" "a = At_Var x" "x < length (vars s)"
  | x b i where "l = Member x i" "a = At_Member b i" "x < length (vars s)" "vars s ! x = (Strong, Some b)" "valid (At_Member b i) s"
proof (cases l)
  case (Var x)
  then show ?thesis using assms that(1) by (simp split: if_splits)
next
  case (Member x i)
  then show ?thesis using assms that(2) by (auto split: if_splits prod.splits kind.splits option.splits simp del: valid.simps)
qed

lemma resolve_valid: "resolve l s = Some a \<Longrightarrow> valid a s"
  by (erule resolve_cases) simp_all

definition apart :: "place \<Rightarrow> place \<Rightarrow> bool" where
  "apart d l \<longleftrightarrow> (case (d, l) of (Var x, Member y i) \<Rightarrow> x \<noteq> y | _ \<Rightarrow> True)"

lemma held_place:
  assumes "resolve l s = Some a" "resolve pl s = Some d" "apart pl l" "held_except d s s'"
  shows "valid a s' \<and> content a s' = content a s"
  using assms(1)
proof (cases rule: resolve_cases)
  case (1 x)
  then show ?thesis using assms(4) by (simp add: held_except_def)
next
  case (2 x b i)
  have "d \<noteq> At_Var x" using assms(2,3) 2(1) by (auto elim!: resolve_cases simp: apart_def)
  then have "live_block b s' \<and> members (blocks s' ! b) = members (blocks s ! b)"
    using assms(4) 2 unfolding held_except_def by blast
  then show ?thesis using 2 by simp
qed

lemma release_place:
  assumes ok: "rc_ok s" and d: "resolve l s = Some d"
  shows "\<exists>s'. release_at d s = Inr s' \<and> held_except d s s' \<and> valid d s' \<and> content d s' = content d s
    \<and> counts_ok (total s' - {#content d s#}) [] s'"
proof -
  have "\<exists>s'. release_all [Drop (content d s)] s = Inr s' \<and> held_except d s s' \<and> counts_ok (total s' - {#content d s#}) [] s'"
    using d by (cases rule: resolve_cases) (use release_var [OF ok] release_member [OF ok] in simp_all)
  moreover have "valid d s' \<and> content d s' = content d s" if "held_except d s s'" for s'
    using d
  proof (cases rule: resolve_cases)
    case (1 x)
    then show ?thesis using that by (simp add: held_except_def)
  next
    case (2 x b i)
    then show ?thesis by (intro held_place [OF d d _ that]) (simp add: apart_def)
  qed
  ultimately show ?thesis using resolve_valid [OF d] by (auto simp: release_at_def load_def and_then_def)
qed

lemma reset_ok:
  assumes ok: "rc_ok s" and d: "resolve l s = Some d"
  shows "\<exists>s'. rc_reset d s = Inr s' \<and> rc_ok s'"
proof -
  from release_place [OF ok d] obtain s' where s': "release_at d s = Inr s'" "valid d s'" "content d s' = content d s"
    "counts_ok (total s' - {#content d s#}) [] s'" by blast
  let ?t = "put d (null (content d s)) s'"
  have "counts_ok (total ?t) [] ?t"
    by (rule counts_ok_cong [OF counts_put [OF s'(2,4)]]) (simp add: total_put_diff [OF s'(2)] s'(3) null_def)
  then show ?thesis using s' resolve_valid [OF d] by (simp add: rc_reset_def load_def store_def and_then_def rc_ok_def)
qed

lemma copy_assign_ok:
  assumes ok: "rc_ok s" and d: "resolve pl s = Some d" and a: "resolve l s = Some a" and ap: "apart pl l"
    and k: "fst (content d s) = fst (content a s) \<or> fst (content d s) = Weak"
  shows "\<exists>s'. copy_assign d a s = Inr s' \<and> rc_ok s'"
proof (cases "d = a")
  case False
  from release_place [OF ok d] obtain s' where s': "release_at d s = Inr s'" "held_except d s s'" "valid d s'" "content d s' = content d s"
    "counts_ok (total s' - {#content d s#}) [] s'" by blast
  have src: "valid a s'" "content a s' = content a s" using held_place [OF a d ap s'(2)] by auto
  let ?q = "(fst (content d s), snd (content a s))" let ?t = "put d ?q s'"
  have "counts_ok (total s' - {#content d s#}) [] ?t" by (rule counts_put [OF s'(3,5)])
  moreover have "content a s \<in># total s' - {#content d s#}" if "snd (content a s) \<noteq> None"
    using other_content [of a d s'] False src s'(3,4) that by auto
  ultimately obtain t where "add_ref ?q ?t = Inr t" "counts_ok (add_mset ?q (total s' - {#content d s#})) [] t" "total t = total ?t"
    using add_ref_ok [of _ ?t "content a s" "fst (content d s)"] k by blast
  then show ?thesis using s' src False resolve_valid [OF d]
    by (simp add: copy_assign_def load_def store_def and_then_def rc_ok_def total_put_diff Let_def)
qed (use ok in \<open>simp add: copy_assign_def\<close>)

lemma move_assign_ok:
  assumes ok: "rc_ok s" and d: "resolve pl s = Some d" and a: "resolve l s = Some a" and ap: "apart pl l"
  shows "\<exists>s'. move_assign d a s = Inr s' \<and> rc_ok s'"
proof (cases "d = a")
  case False
  from release_place [OF ok d] obtain s' where s': "release_at d s = Inr s'" "held_except d s s'" "valid d s'" "content d s' = content d s"
    "counts_ok (total s' - {#content d s#}) [] s'" by blast
  have src: "valid a s'" "content a s' = content a s" using held_place [OF a d ap s'(2)] by auto
  let ?p = "content a s" let ?t = "put d ?p s'" let ?u = "put a (null ?p) ?t"
  have v: "valid a ?t" "content a ?t = ?p" using src False s'(3) by (auto simp: content_put_other)
  have "counts_ok (total ?u) [] ?u"
  proof (rule counts_ok_cong [OF counts_put [OF v(1) counts_put [OF s'(3,5)]]])
    show "count (total ?u) (k, Some b) = count (total s' - {#content d s#}) (k, Some b)" for k b
      by (simp add: total_put_diff [OF v(1)] total_put_diff [OF s'(3)] v(2) s'(4) null_def)
  qed
  then show ?thesis using s' src False v by (simp add: move_assign_def load_def store_def and_then_def rc_ok_def)
qed (use ok in \<open>simp add: move_assign_def\<close>)

lemma new_var_ok: "counts_ok (add_mset p (total s)) [] s \<Longrightarrow> rc_ok (new_var p s)"
  by (simp add: rc_ok_def new_var_def total_def pool_def counts_ok_def)

lemma copy_construct_ok:
  assumes ok: "rc_ok s" and a: "resolve l s = Some a" and k: "k = fst (content a s) \<or> k = Weak"
  shows "\<exists>s'. copy_construct k a s = Inr s' \<and> rc_ok s'"
proof -
  have v: "valid a s" using a by (rule resolve_valid)
  obtain t where t: "add_ref (k, snd (content a s)) s = Inr t" "counts_ok (add_mset (k, snd (content a s)) (total s)) [] t" "total t = total s"
    using add_ref_ok [of "total s" s "content a s" k] ok content_total [OF v] k unfolding rc_ok_def by blast
  then have "rc_ok (new_var (k, snd (content a s)) t)" by (intro new_var_ok) simp
  then show ?thesis using t v by (simp add: copy_construct_def load_def and_then_def Let_def)
qed

lemma move_construct_ok:
  assumes ok: "rc_ok s" and a: "resolve l s = Some a"
  shows "\<exists>s'. move_construct a s = Inr s' \<and> rc_ok s'"
proof -
  have v: "valid a s" using a by (rule resolve_valid)
  let ?t = "put a (null (content a s)) s"
  have "counts_ok (add_mset (content a s) (total ?t)) [] ?t"
  proof (rule counts_ok_cong [OF counts_put [OF v]])
    show "counts_ok (total s) [] s" using ok by (simp add: rc_ok_def)
    show "count (add_mset (content a s) (total ?t)) (k, Some b) = count (total s) (k, Some b)" for k b
      unfolding total_put [OF v] by (simp add: null_def)
  qed
  then show ?thesis using v new_var_ok by (simp add: move_construct_def load_def store_def and_then_def)
qed

lemma weak_lock_ok:
  assumes ok: "rc_ok s" and a: "resolve l s = Some a"
  shows "\<exists>s'. weak_lock a s = Inr s' \<and> rc_ok s'"
proof -
  have v: "valid a s" using a by (rule resolve_valid)
  have C: "counts_ok (total s) [] s" using ok by (simp add: rc_ok_def)
  have none: "rc_ok (new_var (Strong, None) s)" using counts_ok_cong [OF C] by (intro new_var_ok) simp
  show ?thesis
  proof (cases "snd (content a s)")
    case None
    then show ?thesis using v none by (simp add: weak_lock_def load_def and_then_def)
  next
    case (Some b)
    then have "(fst (content a s), Some b) \<in># total s" using content_total [OF v] by (metis prod.collapse)
    then have live: "live_block b s" by (rule live_of [OF C])
    then have b: "b < length (blocks s)" "block_ok (total s) [] b (blocks s ! b)" using C by (auto simp: live_block_def counts_ok_def)
    show ?thesis
    proof (cases "strong_count (blocks s ! b) > 0")
      case True
      then have "(Strong, Some b) \<in># total s" using b(2) by (simp add: block_ok_def)
      then obtain t where t: "add_ref (Strong, Some b) s = Inr t" "counts_ok (add_mset (Strong, Some b) (total s)) [] t" "total t = total s"
        using add_ref_ok [OF C, of "(Strong, Some b)" Strong] by auto
      then have "rc_ok (new_var (Strong, Some b) t)" by (intro new_var_ok) simp
      then show ?thesis using t v Some live True by (simp add: weak_lock_def load_def and_then_def add_ref_def)
    next
      case False
      then show ?thesis using v Some live none by (simp add: weak_lock_def load_def and_then_def)
    qed
  qed
qed

lemma take_args_count:
  "take_args xs vs = (ps, vs') \<Longrightarrow> count (mset ps) (k, Some b) + count (mset vs') (k, Some b) = count (mset vs) (k, Some b)"
proof (induction xs arbitrary: vs ps vs')
  case (Cons x xs)
  show ?case
  proof (cases "x < length vs")
    case True
    obtain qs where qs: "take_args xs (vs[x := null (vs ! x)]) = (qs, vs')" "ps = vs ! x # qs"
      using Cons.prems True by (auto split: prod.splits)
    obtain R where R: "mset vs = add_mset (vs ! x) R" using True by (metis insert_DiffM nth_mem set_mset_mset)
    then have "mset (vs[x := null (vs ! x)]) = add_mset (null (vs ! x)) R" using True by (simp add: mset_update)
    then have "count (mset (vs[x := null (vs ! x)])) (k, Some b) + (if vs ! x = (k, Some b) then 1 else 0) = count (mset vs) (k, Some b)"
      using R by (auto simp: null_def)
    then show ?thesis using Cons.IH [OF qs(1)] qs(2) by auto
  next
    case False
    then show ?thesis using Cons by simp
  qed
qed simp

lemma make_rc_ok:
  assumes ok: "rc_ok s"
  shows "rc_ok (make_rc xs s)"
proof -
  obtain ps vs where ta: "take_args xs (vars s) = (ps, vs)" by fastforce
  let ?n = "length (blocks s)" let ?t = "make_rc xs s"
  have C: "counts_ok (total s) [] s" using ok by (simp add: rc_ok_def)
  have sum: "(\<Sum>b<?n. mset (members ((blocks s @ [c]) ! b))) = (\<Sum>b<?n. mset (members (blocks s ! b)))" for c
    by (rule sum.cong) (auto simp: nth_append)
  have tot: "count (total ?t) (k, Some b) = count (total s) (k, Some b) + (if (k, b) = (Strong, ?n) then 1 else 0)" for k b
    using take_args_count [OF ta, of k b] by (auto simp: total_def pool_def make_rc_def ta Let_def sum)
  have none: "count (total s) (k, Some ?n) = 0" for k
  proof -
    have "(k, Some ?n) \<notin># total s" using C unfolding counts_ok_def by blast
    then show ?thesis by (simp add: count_eq_zero_iff)
  qed
  have old: "block_ok (total ?t) [] b (blocks ?t ! b)" if "b < ?n" for b
  proof -
    have "block_ok (total s) [] b (blocks s ! b)" using C that by (simp add: counts_ok_def)
    then have "block_ok (total ?t) [] b (blocks s ! b)" by (rule block_ok_other) (use that in \<open>simp_all add: tot\<close>)
    then show ?thesis using that by (simp add: make_rc_def ta Let_def nth_append)
  qed
  have new: "block_ok (total ?t) [] ?n (blocks ?t ! ?n)" unfolding block_ok_def by (simp add: tot none) (simp add: make_rc_def ta Let_def)
  have range: "b < Suc ?n" if "(k, Some b) \<in># total ?t" for k b
  proof (cases "b = ?n")
    case False
    then have "(k, Some b) \<in># total s" using that tot [of k b] by (simp flip: count_greater_zero_iff)
    then show ?thesis using C by (auto simp: counts_ok_def intro: less_SucI)
  qed simp
  have len: "length (blocks ?t) = Suc ?n" by (simp add: make_rc_def ta Let_def)
  show ?thesis unfolding rc_ok_def counts_ok_def len using old new range by (auto simp: less_Suc_eq)
qed

section \<open>Programs\<close>

text \<open>
  The assignments a client may make: everything but \<^verbatim>\<open>x = x->member\<close>, where the value that holds the
  source may be destroyed by the assignment itself.
\<close>

fun safe :: "rc_op \<Rightarrow> bool" where
  "safe (Assign d l) = apart d l"
| "safe (Assign_Move d l) = apart d l"
| "safe _ = True"

definition rc_good :: "fault + rc_state \<Rightarrow> bool" where
  "rc_good r \<longleftrightarrow> (\<exists>s. r = Inr s \<and> rc_ok s)"

lemma with_place_ok:
  assumes "rc_ok s" "\<And>a. resolve l s = Some a \<Longrightarrow> ok (fst (content a s)) \<Longrightarrow> \<exists>s'. f a s = Inr s' \<and> rc_ok s'"
  shows "\<exists>s'. with_place l ok f s = Inr s' \<and> rc_ok s'"
  using assms by (auto simp: with_place_def split: option.splits)

lemma rc_step_ok: "safe op \<Longrightarrow> rc_ok s \<Longrightarrow> \<exists>s'. rc_step op s = Inr s' \<and> rc_ok s'"
proof (cases op)
  case (Assign d l)
  assume "safe op" and ok: "rc_ok s"
  show ?thesis
  proof (cases "resolve l s")
    case (Some a)
    have "\<exists>s'. with_place d (\<lambda>k'. k' = fst (content a s) \<or> k' = Weak) (\<lambda>b. copy_assign b a) s = Inr s' \<and> rc_ok s'"
      by (rule with_place_ok [OF ok]) (use copy_assign_ok [OF ok _ Some] Assign \<open>safe op\<close> in auto)
    then show ?thesis using Some Assign by (simp add: place_kind_def)
  qed (use Assign ok in \<open>simp add: place_kind_def\<close>)
next
  case (Assign_Move d l)
  assume "safe op" and ok: "rc_ok s"
  show ?thesis
  proof (cases "resolve l s")
    case (Some a)
    have "\<exists>s'. with_place d (\<lambda>k'. k' = fst (content a s)) (\<lambda>b. move_assign b a) s = Inr s' \<and> rc_ok s'"
      by (rule with_place_ok [OF ok]) (use move_assign_ok [OF ok _ Some] Assign_Move \<open>safe op\<close> in auto)
    then show ?thesis using Some Assign_Move by (simp add: place_kind_def)
  qed (use Assign_Move ok in \<open>simp add: place_kind_def\<close>)
qed (auto intro!: with_place_ok make_rc_ok intro: copy_construct_ok move_construct_ok weak_lock_ok reset_ok simp del: resolve.simps)

interpretation rc: guarded_system rc_init rc_exec safe rc_good
proof
  show "rc_good rc_init"
    by (simp add: rc_good_def rc_init_def rc_ok_def total_def pool_def counts_ok_def)
  show "rc_good (snd (rc_exec op r))" if "safe op" "rc_good r" for op r
    using that rc_step_ok [of op] by (auto simp: rc_good_def rc_exec_def and_then_def)
qed

text \<open>
  C9. Reference counting on single-threaded targets frees everything once and nothing too early. For every
  sequence of making values that hold pointers, copying, moving, downgrading, locking, resetting, assigning
  and destroying pointers in variables and in members, short of assigning to a variable from a member of the
  value it points to, no control block is used after it was freed; the counts are the numbers of pointers; a
  block is freed exactly when no pointer of either kind is left, and a value without owners is destroyed.
\<close>

theorem rc_counts_exact:
  assumes "list_all safe ops"
  shows "\<exists>s. snd (run_ops rc_exec ops rc_init) = Inr s \<and> (\<forall>b < length (blocks s).
    strong_count (blocks s ! b) = int (count (total s) (Strong, Some b))
    \<and> weak_count (blocks s ! b) = int (count (total s) (Weak, Some b))
    \<and> (freed (blocks s ! b) \<longleftrightarrow> (Strong, Some b) \<notin># total s \<and> (Weak, Some b) \<notin># total s)
    \<and> ((Strong, Some b) \<notin># total s \<longrightarrow> members (blocks s ! b) = []))"
proof -
  from rc.guarded_run [OF assms] obtain s where s: "snd (run_ops rc_exec ops rc_init) = Inr s" "rc_ok s"
    by (auto simp: rc_good_def)
  then show ?thesis
    by (intro exI [of _ s]) (auto simp: rc_ok_def counts_ok_def block_ok_def count_eq_zero_iff)
qed

text \<open>A value that holds a weak pointer to itself, destroyed with its last owner.\<close>

definition demo_rc_ops :: "rc_op list" where
  "demo_rc_ops = [Make [], Downgrade (Var 0), Reset (Var 1), Make [1, 0], Assign (Member 2 0) (Var 2), Downgrade (Member 2 1), Destroy 2]"

theorem rc_counts_exact_witness:
  "\<exists>s. snd (run_ops rc_exec demo_rc_ops rc_init) = Inr s \<and> map freed (blocks s) = [False, True]
    \<and> map weak_count (blocks s) = [1, 0] \<and> (Weak, Some 0) \<in># total s \<and> (Strong, Some 0) \<notin># total s"
proof -
  have "list_all safe demo_rc_ops" by (simp add: demo_rc_ops_def apart_def)
  from rc_counts_exact [OF this] obtain s where s: "snd (run_ops rc_exec demo_rc_ops rc_init) = Inr s"
    and all: "\<And>b. b < length (blocks s) \<Longrightarrow> weak_count (blocks s ! b) = int (count (total s) (Weak, Some b))
      \<and> strong_count (blocks s ! b) = int (count (total s) (Strong, Some b))" by blast
  have run: "map_sum id (\<lambda>s. map (\<lambda>c. (freed c, strong_count c, weak_count c)) (blocks s)) (snd (run_ops rc_exec demo_rc_ops rc_init))
    = Inr [(False, 0, 1), (True, 0, 0)]" by code_simp
  then have L: "map (\<lambda>c. (freed c, strong_count c, weak_count c)) (blocks s) = [(False, 0, 1), (True, 0, 0)]" by (simp add: s)
  have len: "0 < length (blocks s)" using arg_cong [OF L, of length] by simp
  have "strong_count (blocks s ! 0) = 0" "weak_count (blocks s ! 0) = 1" using arg_cong [OF L, of "\<lambda>xs. xs ! 0"] len by simp_all
  then have "count (total s) (Weak, Some 0) = 1" "count (total s) (Strong, Some 0) = 0" using all [OF len] by simp_all
  then have "(Weak, Some 0) \<in># total s" "(Strong, Some 0) \<notin># total s"
    by (metis count_eq_zero_iff zero_neq_one)+
  moreover have "map freed (blocks s) = [False, True]" using arg_cong [OF L, of "map fst"] by (simp add: comp_def)
  moreover have "map weak_count (blocks s) = [1, 0]" using arg_cong [OF L, of "map (snd \<circ> snd)"] by (simp add: comp_def)
  ultimately show ?thesis using s by simp
qed

text \<open>
  \<^verbatim>\<open>x = x->next\<close>, the step along a list, uses freed memory where \<^verbatim>\<open>x\<close> is the only owner: \<^verbatim>\<open>operator=\<close>
  releases what \<^verbatim>\<open>x\<close> holds before it reads its argument.
\<close>

theorem rc_assign_from_own_member:
  "snd (run_ops rc_exec [Make [], Make [0], Assign (Var 1) (Member 1 0)] rc_init) = Inl Use_After_Free"
  by code_simp

end
