(* ===== verification/Intrusive_List.thy ===== *)
theory Intrusive_List
  imports Prelude
begin

text \<open>
  \<^verbatim>\<open>include/coro/detail/intrusive_list.h\<close>: the doubly-linked list whose links live in the
  nodes. The nodes' hook fields are an explicit store (\<open>hooks\<close>), because several lists share
  it and because \<^verbatim>\<open>remove\<close> must be safe on a node that is in no list. The list object is
  the record \<open>ilist\<close>. The representation relation \<open>il_rep\<close> says which abstract list a list
  object stands for, and every operation is proved to implement the corresponding operation on
  lists.
\<close>

section \<open>The store and the list object\<close>

record hooks =
  hk_prev :: "node \<Rightarrow> node option"
  hk_next :: "node \<Rightarrow> node option"

record ilist =
  m_size :: nat
  m_head :: "node option"
  m_tail :: "node option"

definition set_prev :: "node \<Rightarrow> node option \<Rightarrow> hooks \<Rightarrow> hooks" where
  "set_prev n v h = h\<lparr>hk_prev := (hk_prev h)(n := v)\<rparr>"

definition set_next :: "node \<Rightarrow> node option \<Rightarrow> hooks \<Rightarrow> hooks" where
  "set_next n v h = h\<lparr>hk_next := (hk_next h)(n := v)\<rparr>"

definition il_empty_list :: ilist where
  "il_empty_list = \<lparr>m_size = 0, m_head = None, m_tail = None\<rparr>"

section \<open>The operations\<close>

definition il_empty :: "ilist \<Rightarrow> bool" where
  "il_empty l \<longleftrightarrow> m_head l = None"

definition il_push_back :: "node \<Rightarrow> hooks \<times> ilist \<Rightarrow> hooks \<times> ilist" where
  "il_push_back n s = (let (h, l) = s;
      h = set_prev n (m_tail l) h;
      h = set_next n None h;
      (h, l) = (case m_tail l of
          Some t \<Rightarrow> (set_next t (Some n) h, l)
        | None \<Rightarrow> (h, l\<lparr>m_head := Some n\<rparr>))
    in (h, l\<lparr>m_tail := Some n, m_size := m_size l + 1\<rparr>))"

definition il_pop_front :: "hooks \<times> ilist \<Rightarrow> node option \<times> hooks \<times> ilist" where
  "il_pop_front s = (let (h, l) = s in
    case m_head l of
      None \<Rightarrow> (None, h, l)
    | Some n \<Rightarrow>
       (let l = l\<lparr>m_head := hk_next h n\<rparr>;
            (h, l) = (case m_head l of
                Some m \<Rightarrow> (set_prev m None h, l)
              | None \<Rightarrow> (h, l\<lparr>m_tail := None\<rparr>));
            h = set_prev n None (set_next n None h)
        in (Some n, h, l\<lparr>m_size := m_size l - 1\<rparr>)))"

definition il_pop_back :: "hooks \<times> ilist \<Rightarrow> node option \<times> hooks \<times> ilist" where
  "il_pop_back s = (let (h, l) = s in
    case m_head l of
      None \<Rightarrow> (None, h, l)
    | Some _ \<Rightarrow>
       (case m_tail l of
          None \<Rightarrow> (None, h, l)
        | Some n \<Rightarrow>
           (let l = l\<lparr>m_tail := hk_prev h n\<rparr>;
                (h, l) = (case m_tail l of
                    Some m \<Rightarrow> (set_next m None h, l)
                  | None \<Rightarrow> (h, l\<lparr>m_head := None\<rparr>));
                h = set_prev n None (set_next n None h)
            in (Some n, h, l\<lparr>m_size := m_size l - 1\<rparr>))))"

definition il_remove :: "node \<Rightarrow> hooks \<times> ilist \<Rightarrow> hooks \<times> ilist" where
  "il_remove n s = (let (h, l) = s in
    if hk_prev h n = None \<and> hk_next h n = None \<and> m_head l \<noteq> Some n then (h, l)
    else
      (let (h, l) = (case hk_prev h n of
             Some p \<Rightarrow> (set_next p (hk_next h n) h, l)
           | None \<Rightarrow> (h, l\<lparr>m_head := hk_next h n\<rparr>));
           (h, l) = (case hk_next h n of
             Some q \<Rightarrow> (set_prev q (hk_prev h n) h, l)
           | None \<Rightarrow> (h, l\<lparr>m_tail := hk_prev h n\<rparr>));
           l = l\<lparr>m_size := m_size l - 1\<rparr>
       in (set_prev n None (set_next n None h), l)))"

text \<open>
  Where the code follows \<^verbatim>\<open>m_tail\<close> of a list whose \<^verbatim>\<open>m_head\<close> is set, the branch for a
  null tail is unreachable on lists in the representation relation below.
  \<^verbatim>\<open>push_back_block(other)\<close>: both lists live over the same hooks; the result is the
  extended list and the emptied argument.
\<close>

definition il_push_back_block :: "hooks \<times> ilist \<Rightarrow> ilist \<Rightarrow> hooks \<times> ilist \<times> ilist" where
  "il_push_back_block s oth = (let (h, l) = s in
    case m_head oth of
      None \<Rightarrow> (h, l, oth)
    | Some oh \<Rightarrow>
       (if il_empty l
        then (h, l\<lparr>m_size := m_size oth, m_head := m_head oth, m_tail := m_tail oth\<rparr>,
              il_empty_list)
        else
          (let h = set_prev oh (m_tail l) h;
               h = (case m_tail l of Some t \<Rightarrow> set_next t (Some oh) h | None \<Rightarrow> h)
           in (h, l\<lparr>m_size := m_size l + m_size oth, m_tail := m_tail oth\<rparr>, il_empty_list))))"

text \<open>The backward walk of \<^verbatim>\<open>pop_back_block\<close>, and the split it makes.\<close>

function walk_back :: "hooks \<Rightarrow> node \<Rightarrow> nat \<Rightarrow> nat \<Rightarrow> node \<times> nat" where
  "walk_back h n i k =
     (if i < k then (case hk_prev h n of None \<Rightarrow> (n, i) | Some p \<Rightarrow> walk_back h p (i + 1) k)
      else (n, i))"
  by pat_completeness auto
termination
  by (relation "measure (\<lambda>(h, n, i, k). k - i)") auto

declare walk_back.simps [simp del]

definition il_pop_back_block :: "nat \<Rightarrow> hooks \<times> ilist \<Rightarrow> hooks \<times> ilist \<times> ilist" where
  "il_pop_back_block k s = (let (h, l) = s in
    if m_size l = 0 \<or> k = 0 then (h, l, il_empty_list)
    else (case m_tail l of
      None \<Rightarrow> (h, l, il_empty_list)
    | Some t \<Rightarrow>
       (let (n, i) = walk_back h t 1 k in
        if Some n = m_head l then (h, il_empty_list, l)
        else
          (let out = \<lparr>m_size = i, m_head = Some n, m_tail = m_tail l\<rparr>;
               l = l\<lparr>m_size := m_size l - i, m_tail := hk_prev h n\<rparr>;
               h = set_prev n None h;
               h = (case m_tail l of Some t' \<Rightarrow> set_next t' None h | None \<Rightarrow> h)
           in (h, l, out)))))"

text \<open>\<^verbatim>\<open>clear()\<close>: the loop follows \<^verbatim>\<open>next\<close> until it meets null; \<open>None\<close> is a loop that
  never ends (a cyclic chain).\<close>

partial_function (option) il_clear_loop :: "hooks \<Rightarrow> node option \<Rightarrow> hooks option" where
  "il_clear_loop h cur = (case cur of
      None \<Rightarrow> Some h
    | Some n \<Rightarrow>
       (let h1 = set_prev n None h
        in il_clear_loop (set_next n None h1) (hk_next h1 n)))"

definition il_clear :: "hooks \<times> ilist \<Rightarrow> (hooks \<times> ilist) option" where
  "il_clear s = (let (h, l) = s in
    (case il_clear_loop h (m_head l) of
       None \<Rightarrow> None
     | Some h' \<Rightarrow> Some (h', il_empty_list)))"

text \<open>Move construction and move assignment.\<close>

definition il_move :: "ilist \<Rightarrow> ilist \<times> ilist" where
  "il_move oth = (oth, il_empty_list)"

definition il_move_assign :: "hooks \<times> ilist \<Rightarrow> ilist \<Rightarrow> (hooks \<times> ilist \<times> ilist) option" where
  "il_move_assign s oth = (case il_clear s of
     None \<Rightarrow> None
   | Some (h, _) \<Rightarrow> Some (h, oth, il_empty_list))"

section \<open>The list a list object stands for\<close>

primrec dseg :: "hooks \<Rightarrow> node option \<Rightarrow> node list \<Rightarrow> node option \<Rightarrow> bool" where
  "dseg h p [] q \<longleftrightarrow> True"
| "dseg h p (x # xs) q \<longleftrightarrow>
     hk_prev h x = p \<and> hk_next h x = (if xs = [] then q else front_of xs) \<and> dseg h (Some x) xs q"

definition il_rep :: "hooks \<Rightarrow> ilist \<Rightarrow> node list \<Rightarrow> bool" where
  "il_rep h l xs \<longleftrightarrow> distinct xs \<and> dseg h None xs None
     \<and> m_head l = front_of xs \<and> m_tail l = back_of xs \<and> m_size l = length xs"

definition unlinked :: "hooks \<Rightarrow> node \<Rightarrow> bool" where
  "unlinked h n \<longleftrightarrow> hk_prev h n = None \<and> hk_next h n = None"

text \<open>Hooks that agree with \<open>h\<close> on every node but those of \<open>A\<close>.\<close>

definition same_off :: "node set \<Rightarrow> hooks \<Rightarrow> hooks \<Rightarrow> bool" where
  "same_off A h h' \<longleftrightarrow> (\<forall>n. n \<notin> A \<longrightarrow> hk_prev h' n = hk_prev h n \<and> hk_next h' n = hk_next h n)"

lemma hooks_upd [simp]:
  "hk_prev (set_prev n v h) = (hk_prev h)(n := v)" "hk_next (set_prev n v h) = hk_next h"
  "hk_next (set_next n v h) = (hk_next h)(n := v)" "hk_prev (set_next n v h) = hk_prev h"
  by (simp_all add: set_prev_def set_next_def)

lemma dseg_frame:
  "same_off A h h' \<Longrightarrow> set xs \<inter> A = {} \<Longrightarrow> dseg h' p xs q = dseg h p xs q"
  by (induction xs arbitrary: p) (auto simp: same_off_def)

lemma dseg_set_next_notin [simp]: "x \<notin> set xs \<Longrightarrow> dseg (set_next x v h) p xs q = dseg h p xs q"
  by (rule dseg_frame [where A = "{x}"]) (auto simp: same_off_def)

lemma dseg_set_prev_notin [simp]: "x \<notin> set xs \<Longrightarrow> dseg (set_prev x v h) p xs q = dseg h p xs q"
  by (rule dseg_frame [where A = "{x}"]) (auto simp: same_off_def)

lemma dseg_append:
  "dseg h p (xs @ ys) q \<longleftrightarrow>
     dseg h p xs (if ys = [] then q else front_of ys)
     \<and> dseg h (if xs = [] then p else back_of xs) ys q"
  by (induction xs arbitrary: p) (auto simp: queue_simps)

lemma dseg_prev_nth:
  "dseg h p xs q \<Longrightarrow> i < length xs \<Longrightarrow>
     hk_prev h (xs ! i) = (if i = 0 then p else Some (xs ! (i - 1)))"
proof (induction xs arbitrary: p i)
  case (Cons x xs)
  then show ?case by (cases i) (auto simp: nth_Cons')
qed simp

text \<open>Rewiring an end of a segment.\<close>

lemma dseg_set_next_last:
  "x \<notin> set xs \<Longrightarrow> dseg (set_next x q' h) p (xs @ [x]) q' \<longleftrightarrow> dseg h p (xs @ [x]) (hk_next h x)"
  by (simp add: dseg_append)

lemma dseg_set_prev_first:
  "x \<notin> set xs \<Longrightarrow> dseg (set_prev x p' h) p' (x # xs) q \<longleftrightarrow> dseg h (hk_prev h x) (x # xs) q"
  by simp

section \<open>Each operation implements its list operation\<close>

lemma il_push_back_rep:
  assumes "il_rep h l xs" "n \<notin> set xs" "il_push_back n (h, l) = (h', l')"
  shows "il_rep h' l' (xs @ [n])" "same_off (insert n (set xs)) h h'"
proof -
  have "il_rep h' l' (xs @ [n]) \<and> same_off (insert n (set xs)) h h'"
  proof (cases xs rule: rev_cases)
    case Nil
    with assms show ?thesis
      by (auto simp: il_rep_def il_push_back_def same_off_def)
  next
    case (snoc ys y)
    with assms show ?thesis
      by (auto simp: il_rep_def il_push_back_def same_off_def dseg_append queue_simps)
  qed
  then show "il_rep h' l' (xs @ [n])" "same_off (insert n (set xs)) h h'" by simp_all
qed

lemma il_pop_front_empty: "il_rep h l [] \<Longrightarrow> il_pop_front (h, l) = (None, h, l)"
  by (simp add: il_rep_def il_pop_front_def)

lemma il_pop_front_rep:
  assumes "il_rep h l (x # xs)" "il_pop_front (h, l) = (r, h', l')"
  shows "r = Some x" "il_rep h' l' xs" "unlinked h' x" "same_off (insert x (set xs)) h h'"
proof -
  have "r = Some x \<and> il_rep h' l' xs \<and> unlinked h' x \<and> same_off (insert x (set xs)) h h'"
    using assms
    by (cases xs) (auto simp: il_rep_def il_pop_front_def unlinked_def same_off_def queue_simps)
  then show "r = Some x" "il_rep h' l' xs" "unlinked h' x" "same_off (insert x (set xs)) h h'"
    by simp_all
qed

lemma il_pop_back_empty: "il_rep h l [] \<Longrightarrow> il_pop_back (h, l) = (None, h, l)"
  by (simp add: il_rep_def il_pop_back_def)

lemma il_pop_back_rep:
  assumes "il_rep h l (xs @ [x])" "il_pop_back (h, l) = (r, h', l')"
  shows "r = Some x" "il_rep h' l' xs" "unlinked h' x" "same_off (insert x (set xs)) h h'"
proof -
  have ne: "m_head l \<noteq> None" using assms(1) by (simp add: il_rep_def)
  have "r = Some x \<and> il_rep h' l' xs \<and> unlinked h' x \<and> same_off (insert x (set xs)) h h'"
    using assms ne
    by (cases xs rule: rev_cases)
      (auto simp: il_rep_def il_pop_back_def unlinked_def same_off_def dseg_append queue_simps
        split: option.splits if_splits)
  then show "r = Some x" "il_rep h' l' xs" "unlinked h' x" "same_off (insert x (set xs)) h h'"
    by simp_all
qed

lemma il_remove_unlinked:
  assumes "il_rep h l xs" "n \<notin> set xs" "unlinked h n"
  shows "il_remove n (h, l) = (h, l)"
  using assms by (auto simp: il_rep_def il_remove_def unlinked_def dest: front_of_in_set)

lemma il_remove_linked:
  assumes "il_rep h l (xs @ x # ys)" "il_remove x (h, l) = (h', l')"
  shows "il_rep h' l' (xs @ ys)" "unlinked h' x" "same_off (set (xs @ x # ys)) h h'"
proof -
  have "il_rep h' l' (xs @ ys) \<and> unlinked h' x \<and> same_off (set (xs @ x # ys)) h h'"
    using assms
    by (cases xs rule: rev_cases; cases ys)
      (auto simp: il_rep_def il_remove_def unlinked_def same_off_def dseg_append queue_simps
        split: if_splits)
  then show "il_rep h' l' (xs @ ys)" "unlinked h' x" "same_off (set (xs @ x # ys)) h h'"
    by simp_all
qed

lemma il_push_back_block_rep:
  assumes "il_rep h l xs" "il_rep h oth ys" "set xs \<inter> set ys = {}"
    "il_push_back_block (h, l) oth = (h', l', oth')"
  shows "il_rep h' l' (xs @ ys)" "il_rep h' oth' []" "same_off (set (xs @ ys)) h h'"
proof -
  have "il_rep h' l' (xs @ ys) \<and> il_rep h' oth' [] \<and> same_off (set (xs @ ys)) h h'"
    using assms
    by (cases xs rule: rev_cases; cases ys)
      (auto simp: il_rep_def il_push_back_block_def il_empty_def il_empty_list_def same_off_def
        dseg_append queue_simps split: if_splits)
  then show "il_rep h' l' (xs @ ys)" "il_rep h' oth' []" "same_off (set (xs @ ys)) h h'"
    by simp_all
qed

lemma walk_back_nth:
  assumes "dseg h None xs None" "j < length xs" "i \<le> k"
  shows "walk_back h (xs ! j) i k = (xs ! (j - min j (k - i)), i + min j (k - i))"
  using assms
proof (induction h "xs ! j" i k arbitrary: j rule: walk_back.induct)
  case (1 h i k)
  show ?case
  proof (cases "i < k \<and> j \<noteq> 0")
    case True
    then have p: "hk_prev h (xs ! j) = Some (xs ! (j - 1))"
      using dseg_prev_nth [OF 1(2,3)] by simp
    have "walk_back h (xs ! (j - 1)) (i + 1) k
        = (xs ! (j - 1 - min (j - 1) (k - (i + 1))), i + 1 + min (j - 1) (k - (i + 1)))"
      using True 1(2,3) by (intro 1(1) [OF _ p]) auto
    moreover have "j - 1 - min (j - 1) (k - (i + 1)) = j - min j (k - i)"
      and "i + 1 + min (j - 1) (k - (i + 1)) = i + min j (k - i)"
      using True by auto
    ultimately show ?thesis
      using True p by (subst walk_back.simps) simp
  next
    case False
    then show ?thesis
      using dseg_prev_nth [OF 1(2,3)] 1(4) by (subst walk_back.simps) auto
  qed
qed

lemma il_pop_back_block_rep:
  assumes rep: "il_rep h l xs" and op: "il_pop_back_block k (h, l) = (h', l', out)"
  shows "il_rep h' l' (take (length xs - k) xs)" "il_rep h' out (drop (length xs - k) xs)"
    "same_off (set xs) h h'"
proof -
  have "il_rep h' l' (take (length xs - k) xs) \<and> il_rep h' out (drop (length xs - k) xs)
        \<and> same_off (set xs) h h'"
  proof (cases "xs = [] \<or> k = 0")
    case True
    with assms show ?thesis
      by (auto simp: il_rep_def il_pop_back_block_def il_empty_list_def same_off_def)
  next
    case False
    define m where "m = length xs - k"
    have lt: "m < length xs" using False by (cases xs) (auto simp: m_def)
    have ds: "dseg h None xs None" and di: "distinct xs" using rep by (auto simp: il_rep_def)
    have "last xs = xs ! (length xs - 1)" using False by (simp add: last_conv_nth)
    then have w: "walk_back h (last xs) 1 k = (xs ! m, length xs - m)"
      using False walk_back_nth [OF ds, of "length xs - 1" 1 k]
      by (cases "k \<le> length xs") (auto simp: m_def min_def)
    have tail: "m_tail l = Some (last xs)" "m_size l = length xs" "m_head l = Some (xs ! 0)"
      using rep False by (auto simp: il_rep_def back_of_def front_of_def neq_Nil_conv)
    show ?thesis
    proof (cases "m = 0")
      case True
      with op False w tail rep show ?thesis
        by (auto simp: il_pop_back_block_def m_def il_rep_def il_empty_list_def same_off_def)
    next
      case mpos: False
      then obtain ys a where ya: "take m xs = ys @ [a]"
        by (metis lt less_nat_zero_code rev_exhaust take_eq_Nil list.size(3) not_gr_zero)
      obtain b zs where bz: "drop m xs = b # zs"
        using lt by (cases "drop m xs") auto
      have xs: "xs = ys @ a # b # zs"
        using ya bz by (metis append.assoc append_Cons append_Nil append_take_drop_id)
      have m: "m = length ys + 1" using ya lt by (metis length_append_singleton length_take
            less_imp_le min.absorb2 Suc_eq_plus1)
      have b: "xs ! m = b" "b \<noteq> xs ! 0"
        using xs m di by (auto simp: nth_append)
      have ab: "hk_prev h b = Some a" "a \<noteq> b" using ds di xs by (auto simp: dseg_append)
      have res: "h' = set_next a None (set_prev b None h)"
          "l' = l\<lparr>m_size := length xs - (length xs - m), m_tail := Some a\<rparr>"
          "out = \<lparr>m_size = length xs - m, m_head = Some b, m_tail = m_tail l\<rparr>"
        using op False w tail b ab by (auto simp: il_pop_back_block_def)
      have "il_rep h' l' (ys @ [a]) \<and> il_rep h' out (b # zs) \<and> same_off (set xs) h h'"
        using rep xs m ab res
        by (auto simp: il_rep_def same_off_def dseg_append queue_simps split: if_splits)
      then show ?thesis
        using ya bz unfolding m_def by simp
    qed
  qed
  then show "il_rep h' l' (take (length xs - k) xs)" "il_rep h' out (drop (length xs - k) xs)"
    "same_off (set xs) h h'"
    by simp_all
qed

lemma il_clear_loop_returns:
  assumes "distinct xs" "dseg h p xs None"
  shows "\<exists>h'. il_clear_loop h (front_of xs) = Some h'
           \<and> (\<forall>x\<in>set xs. unlinked h' x) \<and> same_off (set xs) h h'"
  using assms
proof (induction xs arbitrary: h p)
  case Nil
  then show ?case by (simp add: il_clear_loop.simps same_off_def)
next
  case (Cons x xs)
  let ?h = "set_next x None (set_prev x None h)"
  have "dseg ?h (Some x) xs None" using Cons.prems by simp
  with Cons.IH [of ?h "Some x"] Cons.prems(1)
  obtain h' where h': "il_clear_loop ?h (front_of xs) = Some h'"
    "\<forall>x\<in>set xs. unlinked h' x" "same_off (set xs) ?h h'"
    by auto
  have "il_clear_loop h (front_of (x # xs)) = Some h'"
    using h'(1) Cons.prems by (subst il_clear_loop.simps) (auto split: if_splits)
  moreover have "unlinked h' x"
    using h'(3) Cons.prems(1) by (simp add: same_off_def unlinked_def)
  ultimately show ?case
    using h'(2,3) by (auto simp: same_off_def)
qed

lemma il_clear_rep:
  assumes "il_rep h l xs"
  shows "\<exists>h'. il_clear (h, l) = Some (h', il_empty_list)
           \<and> (\<forall>x\<in>set xs. unlinked h' x) \<and> same_off (set xs) h h'"
  using il_clear_loop_returns [of xs h None] assms
  by (auto simp: il_clear_def il_rep_def)

section \<open>The interface the synchronisation primitives use\<close>

text \<open>
  The channels, the barrier and the executors use an intrusive list only through
  \<^verbatim>\<open>push_back\<close>, \<^verbatim>\<open>pop_front\<close> and \<^verbatim>\<open>remove\<close>. The locale states what they rely on.
  \<open>drain\<close> is the loop \<^verbatim>\<open>while (auto* raw = list.pop_front())\<close> they all share.
\<close>

partial_function (option) drain ::
    "('q \<Rightarrow> node option \<times> 'q) \<Rightarrow> 'q \<Rightarrow> (node list \<times> 'q) option" where
  "drain pop q = (case pop q of
      (None, q') \<Rightarrow> Some ([], q')
    | (Some n, q') \<Rightarrow> Option.bind (drain pop q') (\<lambda>(ns, q''). Some (n # ns, q'')))"

locale waiter_queue =
  fixes empty :: "'q"
    and push_back :: "node \<Rightarrow> 'q \<Rightarrow> 'q"
    and pop_front :: "'q \<Rightarrow> node option \<times> 'q"
    and remove :: "node \<Rightarrow> 'q \<Rightarrow> 'q"
    and contents :: "'q \<Rightarrow> node list"
    and invar :: "'q \<Rightarrow> bool"
  assumes contents_empty: "contents empty = []"
    and invar_empty: "invar empty"
    and invar_distinct: "invar q \<Longrightarrow> distinct (contents q)"
    and contents_push_back:
      "invar q \<Longrightarrow> n \<notin> set (contents q) \<Longrightarrow> contents (push_back n q) = contents q @ [n]"
    and invar_push_back: "invar q \<Longrightarrow> n \<notin> set (contents q) \<Longrightarrow> invar (push_back n q)"
    and pop_front_result: "invar q \<Longrightarrow> fst (pop_front q) = front_of (contents q)"
    and contents_pop_front: "invar q \<Longrightarrow> contents (snd (pop_front q)) = tl (contents q)"
    and invar_pop_front: "invar q \<Longrightarrow> invar (snd (pop_front q))"
    and contents_remove: "invar q \<Longrightarrow> contents (remove n q) = remove1 n (contents q)"
    and invar_remove: "invar q \<Longrightarrow> invar (remove n q)"
begin

text \<open>
  \<^verbatim>\<open>remove(&node); push_back(&node)\<close>, the registration idiom of every \<^verbatim>\<open>poll\<close>: the node
  ends up exactly once, at the back, wherever it was before.
\<close>

lemma requeue:
  assumes "invar q"
  shows "contents (push_back n (remove n q)) = remove1 n (contents q) @ [n]"
    and "invar (push_back n (remove n q))"
proof -
  have "n \<notin> set (contents (remove n q))"
    using assms invar_distinct [OF assms] by (simp add: contents_remove)
  then show "contents (push_back n (remove n q)) = remove1 n (contents q) @ [n]"
    and "invar (push_back n (remove n q))"
    using assms by (simp_all add: contents_push_back contents_remove invar_push_back invar_remove)
qed

text \<open>The drain loop ends, returns every node in order and leaves the list empty.\<close>

lemma drain_contents:
  "invar q \<Longrightarrow> \<exists>q'. drain pop_front q = Some (contents q, q') \<and> contents q' = [] \<and> invar q'"
proof (induction "contents q" arbitrary: q)
  case Nil
  obtain r q' where p: "pop_front q = (r, q')" by force
  from Nil p pop_front_result [OF Nil.prems] contents_pop_front [OF Nil.prems]
    invar_pop_front [OF Nil.prems]
  show ?case by (subst drain.simps) (auto dest: sym)
next
  case (Cons n ns)
  obtain r q' where p: "pop_front q = (r, q')" by force
  have r: "r = Some n" and c: "contents q' = ns" and i: "invar q'"
    using Cons.hyps(2) p pop_front_result [OF Cons.prems] contents_pop_front [OF Cons.prems]
      invar_pop_front [OF Cons.prems] by (auto dest: sym)
  obtain q'' where "drain pop_front q' = Some (ns, q'')" "contents q'' = []" "invar q''"
    using Cons.hyps(1) [OF c [symmetric] i] c by auto
  then show ?case
    using Cons.hyps(2) p r by (subst drain.simps) simp
qed

end

section \<open>The intrusive list provides the interface\<close>

fun chain :: "nat \<Rightarrow> hooks \<Rightarrow> node option \<Rightarrow> node list" where
  "chain 0 h n = []"
| "chain (Suc k) h None = []"
| "chain (Suc k) h (Some n) = n # chain k h (hk_next h n)"

definition il_contents :: "hooks \<times> ilist \<Rightarrow> node list" where
  "il_contents s = chain (m_size (snd s)) (fst s) (m_head (snd s))"

definition il_invar :: "hooks \<times> ilist \<Rightarrow> bool" where
  "il_invar s \<longleftrightarrow> il_rep (fst s) (snd s) (il_contents s)
     \<and> (\<forall>n. n \<notin> set (il_contents s) \<longrightarrow> unlinked (fst s) n)"

definition null_hooks :: hooks where
  "null_hooks = \<lparr>hk_prev = (\<lambda>_. None), hk_next = (\<lambda>_. None)\<rparr>"

definition il_init :: "hooks \<times> ilist" where
  "il_init = (null_hooks, il_empty_list)"

lemma chain_dseg: "dseg h p xs None \<Longrightarrow> chain (length xs) h (front_of xs) = xs"
  by (induction xs arbitrary: p) (auto split: if_splits)

lemma il_contents_rep: "il_rep h l xs \<Longrightarrow> il_contents (h, l) = xs"
  by (auto simp: il_rep_def il_contents_def dest: chain_dseg)

lemma il_invarI:
  "il_rep h l xs \<Longrightarrow> (\<And>n. n \<notin> set xs \<Longrightarrow> unlinked h n) \<Longrightarrow> il_invar (h, l)"
  by (simp add: il_invar_def il_contents_rep)

lemma il_invarE:
  assumes "il_invar (h, l)"
  obtains "il_rep h l (il_contents (h, l))" "\<And>n. n \<notin> set (il_contents (h, l)) \<Longrightarrow> unlinked h n"
  using assms by (auto simp: il_invar_def)

lemma unlinked_same_off:
  "same_off A h h' \<Longrightarrow> n \<notin> A \<Longrightarrow> unlinked h n \<Longrightarrow> unlinked h' n"
  by (simp add: same_off_def unlinked_def)

lemma il_push_back_invar:
  assumes "il_invar s" "n \<notin> set (il_contents s)"
  shows "il_contents (il_push_back n s) = il_contents s @ [n] \<and> il_invar (il_push_back n s)"
proof -
  obtain h l where s: "s = (h, l)" by force
  obtain h' l' where op: "il_push_back n (h, l) = (h', l')" by force
  from assms(1) s have rep: "il_rep h l (il_contents s)"
    and un: "\<And>m. m \<notin> set (il_contents s) \<Longrightarrow> unlinked h m"
    by (auto simp: il_invar_def)
  note r = il_push_back_rep [OF rep assms(2) op]
  then show ?thesis
    using s op un by (auto simp: il_contents_rep intro!: il_invarI unlinked_same_off [OF r(2)])
qed

lemma il_pop_front_invar:
  assumes "il_invar s"
  shows "fst (il_pop_front s) = front_of (il_contents s)
       \<and> il_contents (snd (il_pop_front s)) = tl (il_contents s)
       \<and> il_invar (snd (il_pop_front s))"
proof -
  obtain h l where s: "s = (h, l)" by force
  obtain r h' l' where op: "il_pop_front (h, l) = (r, h', l')" by (metis prod_cases3)
  from assms s have rep: "il_rep h l (il_contents s)"
    and un: "\<And>m. m \<notin> set (il_contents s) \<Longrightarrow> unlinked h m"
    by (auto simp: il_invar_def)
  show ?thesis
  proof (cases "il_contents s")
    case Nil
    then show ?thesis
      using assms s rep by (simp add: il_pop_front_empty)
  next
    case (Cons x xs)
    note p = il_pop_front_rep [OF rep [unfolded Cons] op]
    have "unlinked h' m" if "m \<notin> set xs" for m
      using p(3) unlinked_same_off [OF p(4) _ un] that Cons by (cases "m = x") auto
    then show ?thesis
      using s op p(1,2) Cons by (auto simp: il_contents_rep intro!: il_invarI)
  qed
qed

lemma il_remove_invar:
  assumes "il_invar s"
  shows "il_contents (il_remove n s) = remove1 n (il_contents s) \<and> il_invar (il_remove n s)"
proof -
  obtain h l where s: "s = (h, l)" by force
  obtain h' l' where op: "il_remove n (h, l) = (h', l')" by force
  from assms s have rep: "il_rep h l (il_contents s)"
    and un: "\<And>m. m \<notin> set (il_contents s) \<Longrightarrow> unlinked h m"
    by (auto simp: il_invar_def)
  show ?thesis
  proof (cases "n \<in> set (il_contents s)")
    case False
    with il_remove_unlinked [OF rep False un [OF False]] s assms show ?thesis
      by (simp add: remove1_idem)
  next
    case True
    then obtain xs ys where sp: "il_contents s = xs @ n # ys" "n \<notin> set xs"
      by (meson split_list_first)
    note r = il_remove_linked [OF rep [unfolded sp(1)] op]
    have "unlinked h' m" if "m \<notin> set (xs @ ys)" for m
      using r(2) unlinked_same_off [OF r(3) _ un] that sp(1) by (cases "m = n") auto
    then show ?thesis
      using s op r(1) sp by (auto simp: il_contents_rep remove1_split intro!: il_invarI)
  qed
qed

interpretation il: waiter_queue il_init il_push_back il_pop_front il_remove il_contents il_invar
proof
  show "il_contents il_init = []"
    by (simp add: il_init_def il_contents_def il_empty_list_def)
  show "il_invar il_init"
    unfolding il_init_def
    by (rule il_invarI [where xs = "[]"])
      (simp_all add: il_rep_def il_empty_list_def unlinked_def null_hooks_def)
  show "il_invar q \<Longrightarrow> distinct (il_contents q)" for q
    by (simp add: il_invar_def il_rep_def)
qed (simp_all add: il_push_back_invar il_pop_front_invar il_remove_invar)

text \<open>
  Plain lists of nodes provide it too: the channel theories keep their waiters as lists, which by
  the interpretation above is what the intrusive lists in the code contain.
\<close>

definition wl_push_back :: "node \<Rightarrow> node list \<Rightarrow> node list" where
  "wl_push_back n ns = ns @ [n]"

definition wl_pop_front :: "node list \<Rightarrow> node option \<times> node list" where
  "wl_pop_front ns = (front_of ns, tl ns)"

interpretation wl: waiter_queue "[]" wl_push_back wl_pop_front remove1 "\<lambda>ns. ns" distinct
  by unfold_locales (auto simp: wl_push_back_def wl_pop_front_def distinct_tl)

section \<open>Sequences of operations\<close>

datatype il_op = Push_Back node | Pop_Front | Pop_Back | Remove node

fun il_exec :: "il_op \<Rightarrow> hooks \<times> ilist \<Rightarrow> node option \<times> hooks \<times> ilist" where
  "il_exec (Push_Back n) s = (None, il_push_back n s)"
| "il_exec Pop_Front s = il_pop_front s"
| "il_exec Pop_Back s = il_pop_back s"
| "il_exec (Remove n) s = (None, il_remove n s)"

fun il_run :: "il_op list \<Rightarrow> hooks \<times> ilist \<Rightarrow> node option list \<times> hooks \<times> ilist" where
  "il_run [] s = ([], s)"
| "il_run (op # ops) s =
     (let (r, s') = il_exec op s; (rs, s'') = il_run ops s' in (r # rs, s''))"

text \<open>The specification: the same operations on a list of nodes.\<close>

fun ls_exec :: "il_op \<Rightarrow> node list \<Rightarrow> node option \<times> node list" where
  "ls_exec (Push_Back n) ns = (None, ns @ [n])"
| "ls_exec Pop_Front ns = (front_of ns, tl ns)"
| "ls_exec Pop_Back ns = (back_of ns, butlast ns)"
| "ls_exec (Remove n) ns = (None, remove1 n ns)"

fun ls_run :: "il_op list \<Rightarrow> node list \<Rightarrow> node option list \<times> node list" where
  "ls_run [] ns = ([], ns)"
| "ls_run (op # ops) ns =
     (let (r, ns') = ls_exec op ns; (rs, ns'') = ls_run ops ns' in (r # rs, ns''))"

text \<open>The caller's side of the contract: a node that is in the list is not linked again.\<close>

fun ls_ok :: "il_op list \<Rightarrow> node list \<Rightarrow> bool" where
  "ls_ok [] ns = True"
| "ls_ok (op # ops) ns =
     ((case op of Push_Back n \<Rightarrow> n \<notin> set ns | _ \<Rightarrow> True) \<and> ls_ok ops (snd (ls_exec op ns)))"

lemma il_pop_back_invar:
  assumes "il_invar s"
  shows "fst (il_pop_back s) = back_of (il_contents s)
       \<and> il_contents (snd (il_pop_back s)) = butlast (il_contents s)
       \<and> il_invar (snd (il_pop_back s))"
proof -
  obtain h l where s: "s = (h, l)" by force
  obtain r h' l' where op: "il_pop_back (h, l) = (r, h', l')" by (metis prod_cases3)
  from assms s have rep: "il_rep h l (il_contents s)"
    and un: "\<And>m. m \<notin> set (il_contents s) \<Longrightarrow> unlinked h m"
    by (auto simp: il_invar_def)
  show ?thesis
  proof (cases "il_contents s" rule: rev_cases)
    case Nil
    then show ?thesis
      using assms s rep by (simp add: il_pop_back_empty)
  next
    case (snoc xs x)
    note p = il_pop_back_rep [OF rep [unfolded snoc] op]
    have "unlinked h' m" if "m \<notin> set xs" for m
      using p(3) unlinked_same_off [OF p(4) _ un] that snoc by (cases "m = x") auto
    then show ?thesis
      using s op p(1,2) snoc by (auto simp: il_contents_rep intro!: il_invarI)
  qed
qed

lemma il_exec_refines:
  assumes "il_invar s" "case op of Push_Back n \<Rightarrow> n \<notin> set (il_contents s) | _ \<Rightarrow> True"
  shows "fst (il_exec op s) = fst (ls_exec op (il_contents s))
       \<and> il_contents (snd (il_exec op s)) = snd (ls_exec op (il_contents s))
       \<and> il_invar (snd (il_exec op s))"
  using assms
  by (cases op) (simp_all add: il_push_back_invar il_pop_front_invar il_pop_back_invar il_remove_invar)

lemma il_run_refines_from:
  assumes "il_invar s" "ls_ok ops (il_contents s)"
  shows "fst (il_run ops s) = fst (ls_run ops (il_contents s))
       \<and> il_contents (snd (il_run ops s)) = snd (ls_run ops (il_contents s))
       \<and> il_invar (snd (il_run ops s))"
  using assms
proof (induction ops arbitrary: s)
  case (Cons op ops)
  let ?s = "snd (il_exec op s)"
  have e: "fst (il_exec op s) = fst (ls_exec op (il_contents s))"
    "il_contents ?s = snd (ls_exec op (il_contents s))" "il_invar ?s"
    using il_exec_refines [of s op] Cons.prems by simp_all
  have "ls_ok ops (il_contents ?s)" using Cons.prems(2) e(2) by simp
  from Cons.IH [OF e(3) this] e show ?case
    by (simp add: case_prod_beta Let_def)
qed simp

text \<open>
  C5. For every sequence of \<^verbatim>\<open>push_back\<close>, \<^verbatim>\<open>pop_front\<close>, \<^verbatim>\<open>pop_back\<close> and
  \<^verbatim>\<open>remove\<close> calls on a fresh intrusive list, in which no node is linked while it is already
  in the list, the pointer manipulations return exactly the nodes the same calls on an abstract
  list of nodes return, and leave the links representing the same list; in particular
  \<^verbatim>\<open>remove\<close> is a no-op on a node that is in no list.
\<close>

theorem il_run_refines:
  assumes "ls_ok ops []"
  shows "fst (il_run ops il_init) = fst (ls_run ops [])
       \<and> il_contents (snd (il_run ops il_init)) = snd (ls_run ops [])
       \<and> il_invar (snd (il_run ops il_init))"
  using il_run_refines_from [of il_init ops] assms by (simp add: il.contents_empty il.invar_empty)

theorem il_run_refines_witness:
  "fst (il_run [Push_Back 1, Push_Back 2, Remove 7, Push_Back 3, Remove 2, Pop_Front, Pop_Back] il_init)
     = [None, None, None, None, None, Some 1, Some 3]
   \<and> ls_ok [Push_Back 1, Push_Back 2, Remove 7, Push_Back 3, Remove 2, Pop_Front, Pop_Back] []"
  using il_run_refines
    [of "[Push_Back 1, Push_Back 2, Remove 7, Push_Back 3, Remove 2, Pop_Front, Pop_Back]"]
  by (simp add: back_of_def)

text \<open>
  C38. Splicing and splitting: \<^verbatim>\<open>pop_back_block(k)\<close> cuts the last \<open>k\<close> nodes off (all of
  them when there are fewer) as a list of its own, in order, and \<^verbatim>\<open>push_back_block\<close> of the
  cut-off list puts them back: the round trip restores the contents, and leaves the argument
  empty.
\<close>

theorem il_block_round_trip:
  assumes "il_rep h l xs" "il_pop_back_block k (h, l) = (h1, l1, out)"
    "il_push_back_block (h1, l1) out = (h2, l2, out2)"
  shows "il_contents (h1, l1) = take (length xs - k) xs
       \<and> il_contents (h1, out) = drop (length xs - k) xs
       \<and> il_contents (h2, l2) = xs \<and> il_contents (h2, out2) = []"
proof -
  note c = il_pop_back_block_rep [OF assms(1,2)]
  have "set (take (length xs - k) xs) \<inter> set (drop (length xs - k) xs) = {}"
    using assms(1) by (simp add: il_rep_def set_take_disj_set_drop_if_distinct)
  note r = il_push_back_block_rep [OF c(1,2) this assms(3)]
  show ?thesis
    using c r(1,2) by (simp add: il_contents_rep)
qed

theorem il_block_round_trip_witness:
  "\<exists>h l h1 l1 out h2 l2 out2. il_rep h l [1, 2, 3]
     \<and> il_pop_back_block 2 (h, l) = (h1, l1, out) \<and> il_push_back_block (h1, l1) out = (h2, l2, out2)
     \<and> il_contents (h1, l1) = [1] \<and> il_contents (h1, out) = [2, 3] \<and> il_contents (h2, l2) = [1, 2, 3]"
proof -
  obtain h l where s: "snd (il_run [Push_Back 1, Push_Back 2, Push_Back 3] il_init) = (h, l)"
    by force
  have "il_invar (h, l) \<and> il_contents (h, l) = [1, 2, 3]"
    using il_run_refines_from [OF il.invar_empty, of "[Push_Back 1, Push_Back 2, Push_Back 3]"] s
    by (simp add: il.contents_empty)
  then have rep: "il_rep h l [1, 2, 3]"
    by (auto elim: il_invarE)
  obtain h1 l1 out where c: "il_pop_back_block 2 (h, l) = (h1, l1, out)"
    by (metis prod_cases3)
  obtain h2 l2 out2 where r: "il_push_back_block (h1, l1) out = (h2, l2, out2)"
    by (metis prod_cases3)
  have "il_contents (h1, l1) = [1] \<and> il_contents (h1, out) = [2, 3] \<and> il_contents (h2, l2) = [1, 2, 3]"
    using il_block_round_trip [OF rep c r] by simp
  with rep c r show ?thesis by blast
qed

end
