(* ===== verification/Run_Queue.thy ===== *)
theory Run_Queue
  imports Prelude
begin

unbundle bit_operations_syntax

text \<open>
  \<^verbatim>\<open>include/coro/detail/local_run_queue.h\<close>: the fixed-capacity work-stealing ring with
  wrapping 32-bit indices packed into one 64-bit head, and
  \<^verbatim>\<open>include/coro/detail/work_stealing_deque.h\<close>, the lock-based queue of the other build.

  The element type is the executor's: a nullable task pointer, \<open>'t option\<close>, whose C++ move is a
  copy. The first part models each operation as its owner runs it, with every
  \<^verbatim>\<open>compare_exchange_weak\<close> allowed to fail spuriously any finite number of times (the list
  of booleans). The interleavings of the owner and its thieves are a step relation in the theory
  \<open>Steal_Protocol\<close>, under sequential consistency: memory orders are not modelled.
\<close>

type_synonym u32 = "32 word"
type_synonym u64 = "64 word"

section \<open>Indices and the packed head\<close>

definition LOCAL_QUEUE_CAPACITY :: nat where
  "LOCAL_QUEUE_CAPACITY = 256"

definition slot :: "u32 \<Rightarrow> nat" where
  "slot i = unat (i AND 255)"

definition pack :: "u32 \<Rightarrow> u32 \<Rightarrow> u64" where
  "pack steal real = push_bit 32 (ucast steal) OR ucast real"

definition unpack :: "u64 \<Rightarrow> u32 \<times> u32" where
  "unpack n = (ucast (drop_bit 32 n), ucast (n AND 0xFFFFFFFF))"

definition queue_len :: "u32 \<Rightarrow> u32 \<Rightarrow> u32" where
  "queue_len head tail = tail - head"

section \<open>The queue as its owner sees it\<close>

record 't lrq =
  q_head :: u64
  q_tail :: u32
  q_buffer :: "'t option list"

record 't local =
  m_inner :: "'t lrq"
  m_lifo :: "'t option"

definition make_local_run_queue :: "'t local" where
  "make_local_run_queue =
     \<lparr>m_inner = \<lparr>q_head = 0, q_tail = 0, q_buffer = replicate LOCAL_QUEUE_CAPACITY None\<rparr>,
      m_lifo = None\<rparr>"

definition lrq_len :: "'t local \<Rightarrow> nat" where
  "lrq_len l = (let (s, head) = unpack (q_head (m_inner l)) in
     unat (queue_len head (q_tail (m_inner l)) + (if m_lifo l \<noteq> None then 1 else 0)))"

definition remaining_slots :: "'t local \<Rightarrow> u64" where
  "remaining_slots l = (let (steal, r) = unpack (q_head (m_inner l)) in
     of_nat LOCAL_QUEUE_CAPACITY - ucast (queue_len steal (q_tail (m_inner l))))"

definition has_tasks :: "'t local \<Rightarrow> bool" where
  "has_tasks l \<longleftrightarrow> lrq_len l \<noteq> 0"

definition push_lifo :: "'t option \<Rightarrow> 't local \<Rightarrow> 't option \<times> 't local" where
  "push_lifo task l = (m_lifo l, l\<lparr>m_lifo := task\<rparr>)"

definition pop_lifo :: "'t local \<Rightarrow> 't option \<times> 't local" where
  "pop_lifo l = (m_lifo l, l\<lparr>m_lifo := None\<rparr>)"

definition has_lifo :: "'t local \<Rightarrow> bool" where
  "has_lifo l \<longleftrightarrow> m_lifo l \<noteq> None"

definition push_back_finish :: "'t option \<Rightarrow> u32 \<Rightarrow> 't lrq \<Rightarrow> 't lrq" where
  "push_back_finish task tail q =
     q\<lparr>q_buffer := (q_buffer q)[slot tail := task], q_tail := tail + 1\<rparr>"

definition lrq_push_back :: "'t option \<Rightarrow> 't lrq \<Rightarrow> fault + 't lrq" where
  "lrq_push_back task q = (let tail = q_tail q; (steal, r) = unpack (q_head q) in
     if unat (queue_len steal tail) < LOCAL_QUEUE_CAPACITY
     then Inr (push_back_finish task tail q)
     else Inl Assert_Failed)"

text \<open>
  \<^verbatim>\<open>push_overflow\<close> after its CAS: the batch of the ring's second half and the new task,
  appended to the overflow queue by \<^verbatim>\<open>push_batch\<close>.
\<close>

definition NUM_TAKEN :: nat where
  "NUM_TAKEN = LOCAL_QUEUE_CAPACITY div 2"

definition push_overflow_commit ::
    "'t option \<Rightarrow> u32 \<Rightarrow> u32 \<Rightarrow> 't lrq \<Rightarrow> 't option list \<Rightarrow> 't lrq \<times> 't option list" where
  "push_overflow_commit task head tail q ovf =
     (let q = q\<lparr>q_head := pack tail tail\<rparr>;
          q = q\<lparr>q_tail := tail + of_nat NUM_TAKEN\<rparr>;
          src = head + of_nat NUM_TAKEN;
          batch = map (\<lambda>i. q_buffer q ! slot (src + of_nat i)) [0..<NUM_TAKEN] @ [task]
      in (q, ovf @ batch))"

text \<open>
  \<^verbatim>\<open>push_or_overflow\<close>: each \<open>True\<close> of the first argument is one spurious failure of the CAS
  in \<^verbatim>\<open>push_overflow\<close>, after which the loop starts over with the same task.
\<close>

fun push_or_overflow ::
    "bool list \<Rightarrow> 't option \<Rightarrow> 't lrq \<Rightarrow> 't option list \<Rightarrow> 't lrq \<times> 't option list" where
  "push_or_overflow fails task q ovf =
     (let (steal, real) = unpack (q_head q); tail = q_tail q in
      if unat (queue_len steal tail) < LOCAL_QUEUE_CAPACITY then (push_back_finish task tail q, ovf)
      else if steal \<noteq> real then (q, ovf @ [task])
      else (case fails of
              True # fs \<Rightarrow> push_or_overflow fs task q ovf
            | _ \<Rightarrow> push_overflow_commit task real tail q ovf))"

declare push_or_overflow.simps [simp del]

fun lrq_pop :: "bool list \<Rightarrow> 't lrq \<Rightarrow> 't option \<times> 't lrq" where
  "lrq_pop fails q =
     (let (steal, real) = unpack (q_head q); tail = q_tail q in
      if real = tail then (None, q)
      else
        (let next_real = real + 1;
             next = (if steal = real then pack next_real next_real else pack steal next_real)
         in case fails of
              True # fs \<Rightarrow> lrq_pop fs q
            | _ \<Rightarrow> (q_buffer q ! slot real, q\<lparr>q_head := next\<rparr>)))"

declare lrq_pop.simps [simp del]

section \<open>Stealing\<close>

definition steal_len :: "'t lrq \<Rightarrow> nat" where
  "steal_len q = (let (s, head) = unpack (q_head q) in unat (queue_len head (q_tail q)))"

definition steal_is_empty :: "'t lrq \<Rightarrow> bool" where
  "steal_is_empty q \<longleftrightarrow> steal_len q = 0"

text \<open>Phase 1 of \<^verbatim>\<open>steal_into2\<close>: claim the ceiling half by advancing \<^verbatim>\<open>real\<close>.\<close>

fun steal_claim :: "bool list \<Rightarrow> 't lrq \<Rightarrow> (u32 \<times> u32 \<times> 't lrq) option" where
  "steal_claim fails src =
     (let (src_steal, src_real) = unpack (q_head src); src_tail = q_tail src in
      if src_steal \<noteq> src_real then None
      else
        (let avail = src_tail - src_real; n = avail - avail div 2 in
         if n = 0 then None
         else (case fails of
                 True # fs \<Rightarrow> steal_claim fs src
               | _ \<Rightarrow> Some (src_steal, n, src\<lparr>q_head := pack src_steal (src_real + n)\<rparr>))))"

declare steal_claim.simps [simp del]

text \<open>Phase 2: the copy loop.\<close>

primrec steal_copy ::
    "nat \<Rightarrow> u32 \<Rightarrow> u32 \<Rightarrow> 't option list \<Rightarrow> 't option list \<Rightarrow> 't option list" where
  "steal_copy 0 first dst_tail srcb dstb = dstb"
| "steal_copy (Suc i) first dst_tail srcb dstb =
     (let dstb = steal_copy i first dst_tail srcb dstb
      in dstb[slot (dst_tail + of_nat i) := srcb ! slot (first + of_nat i)])"

text \<open>Phase 3: advance \<^verbatim>\<open>steal\<close> to the current \<^verbatim>\<open>real\<close>.\<close>

definition steal_finish :: "'t lrq \<Rightarrow> 't lrq" where
  "steal_finish q = (let (steal, real) = unpack (q_head q) in q\<lparr>q_head := pack real real\<rparr>)"

definition steal_into2 ::
    "bool list \<Rightarrow> 't lrq \<Rightarrow> 't lrq \<Rightarrow> u32 \<Rightarrow> u32 \<times> 't lrq \<times> 't lrq" where
  "steal_into2 fails src dst dst_tail =
     (case steal_claim fails src of
        None \<Rightarrow> (0, src, dst)
      | Some (first, n, src1) \<Rightarrow>
          (n, steal_finish src1,
           dst\<lparr>q_buffer := steal_copy (unat n) first dst_tail (q_buffer src1) (q_buffer dst)\<rparr>))"

definition steal_into :: "bool list \<Rightarrow> 't lrq \<Rightarrow> 't lrq \<Rightarrow> 't option \<times> 't lrq \<times> 't lrq" where
  "steal_into fails src dst =
     (let dst_tail = q_tail dst; (dst_steal, dr) = unpack (q_head dst) in
      if unat (queue_len dst_steal dst_tail) > LOCAL_QUEUE_CAPACITY div 2 then (None, src, dst)
      else
        (let (n, src, dst) = steal_into2 fails src dst dst_tail in
         if n = 0 then (None, src, dst)
         else
           (let n = n - 1;
                ret = q_buffer dst ! slot (dst_tail + n)
            in (ret, src, if n > 0 then dst\<lparr>q_tail := dst_tail + n\<rparr> else dst))))"

section \<open>Words and slots\<close>

lemma slot_mod: "slot w = unat w mod 256"
proof -
  have "w AND 255 = take_bit 8 w"
    by (simp add: take_bit_eq_mask mask_eq_exp_minus_1)
  then have "slot w = take_bit 8 (unat w)"
    unfolding slot_def by (simp only: unsigned_take_bit_eq)
  then show ?thesis
    by (simp add: take_bit_eq_mod)
qed

lemma slot_less [simp]: "slot w < 256"
  by (simp add: slot_mod)

lemma slot_add: "slot (w + of_nat i) = (slot w + i) mod 256"
proof -
  have "unat (w + of_nat i) mod 256 = (unat w + i) mod 2 ^ 32 mod 256"
    by (simp add: unat_word_ariths unat_of_nat mod_simps)
  also have "\<dots> = (unat w + i) mod 256"
    by (simp add: mod_mod_cancel)
  finally show ?thesis by (simp add: slot_mod mod_simps)
qed

lemma slot_add_if:
  assumes "i < 256"
  shows "slot (w + of_nat i) = (if slot w + i < 256 then slot w + i else slot w + i - 256)"
proof -
  have "slot w + i - 256 < 256" using slot_less [of w] assms by linarith
  then show ?thesis unfolding slot_add by (simp add: le_mod_geq)
qed

lemma slot_inj: "i < 256 \<Longrightarrow> j < 256 \<Longrightarrow> slot (w + of_nat i) = slot (w + of_nat j) \<longleftrightarrow> i = j"
  using slot_less [of w] by (simp add: slot_add_if) linarith

lemma slot_shift: "slot (w + 256) = slot w"
  using slot_add [of w 256] by simp

lemma mask_32: "(0xFFFFFFFF :: u64) = mask 32"
  by (simp add: mask_eq_exp_minus_1)

lemma unpack_pack [simp]: "unpack (pack s r) = (s, r)"
proof -
  have "ucast (drop_bit 32 (pack s r)) = s"
    by (rule bit_word_eqI) (auto simp: pack_def bit_simps dest: bit_imp_le_length)
  moreover have "ucast (pack s r AND mask 32) = r"
    by (rule bit_word_eqI) (auto simp: pack_def bit_simps dest: bit_imp_le_length)
  ultimately show ?thesis by (simp add: unpack_def mask_32)
qed

lemma pack_unpack: "unpack h = (s, r) \<Longrightarrow> pack s r = h"
proof -
  assume "unpack h = (s, r)"
  then have "s = ucast (drop_bit 32 h)" "r = ucast (h AND mask 32)"
    by (auto simp: unpack_def mask_32)
  then show ?thesis
    by (intro bit_word_eqI) (auto simp: pack_def bit_simps le_add_diff_inverse)
qed

lemma unat_diff_add [simp]: "k < 2 ^ 32 \<Longrightarrow> unat (a + of_nat k - (a :: u32)) = k"
  by (simp add: unat_of_nat)

section \<open>Ring contents\<close>

declare upt_rec_numeral [simp del]

definition ring_items :: "'t option list \<Rightarrow> u32 \<Rightarrow> nat \<Rightarrow> 't option list" where
  "ring_items buf a n = map (\<lambda>i. buf ! slot (a + of_nat i)) [0..<n]"

lemma length_ring_items [simp]: "length (ring_items buf a n) = n"
  by (simp add: ring_items_def)

lemma ring_items_0 [simp]: "ring_items buf a 0 = []"
  by (simp add: ring_items_def)

lemma ring_items_nth [simp]: "i < n \<Longrightarrow> ring_items buf a n ! i = buf ! slot (a + of_nat i)"
  by (simp add: ring_items_def)

lemma ring_items_add: "ring_items buf a (m + n) = ring_items buf a m @ ring_items buf (a + of_nat m) n"
proof (rule nth_equalityI)
  fix i assume "i < length (ring_items buf a (m + n))"
  then show "ring_items buf a (m + n) ! i
      = (ring_items buf a m @ ring_items buf (a + of_nat m) n) ! i"
    by (cases "i < m") (auto simp: nth_append add.assoc simp flip: of_nat_add)
qed simp

lemma ring_items_Suc: "ring_items buf a (Suc n) = ring_items buf a n @ [buf ! slot (a + of_nat n)]"
  by (simp add: ring_items_def)

lemma ring_items_Cons: "ring_items buf a (Suc n) = buf ! slot a # ring_items buf (a + 1) n"
  using ring_items_add [of buf a 1 n] by (simp add: ring_items_Suc)

lemma ring_items_shift: "ring_items buf (a + 256) n = ring_items buf a n"
proof -
  have "slot (a + 256 + of_nat i) = slot (a + of_nat i)" for i
    using slot_shift [of "a + of_nat i"] by (simp add: ac_simps)
  then show ?thesis by (simp add: ring_items_def)
qed

lemma ring_items_write:
  assumes "n \<le> k" "k < 256" "length buf = 256"
  shows "ring_items (buf[slot (a + of_nat k) := x]) a n = ring_items buf a n"
proof (rule nth_equalityI)
  fix i assume "i < length (ring_items (buf[slot (a + of_nat k) := x]) a n)"
  then have "i < n" by simp
  then show "ring_items (buf[slot (a + of_nat k) := x]) a n ! i = ring_items buf a n ! i"
    using assms slot_inj [of i k a] by (auto simp: nth_list_update_neq)
qed simp

lemma ring_items_push:
  assumes "n < 256" "length buf = 256"
  shows "ring_items (buf[slot (a + of_nat n) := x]) a (Suc n) = ring_items buf a n @ [x]"
  using assms by (simp add: ring_items_Suc ring_items_write nth_list_update_eq)

lemma ring_items_take: "m \<le> n \<Longrightarrow> take m (ring_items buf a n) = ring_items buf a m"
  using ring_items_add [of buf a m "n - m"] by simp

lemma ring_items_drop: "m \<le> n \<Longrightarrow> drop m (ring_items buf a n) = ring_items buf (a + of_nat m) (n - m)"
  using ring_items_add [of buf a m "n - m"] by simp

section \<open>The owner's operations implement a bounded FIFO\<close>

text \<open>A ring with no steal in progress: both halves of the head agree, at most 256 tasks.\<close>

definition lrq_at :: "'t lrq \<Rightarrow> u32 \<Rightarrow> nat \<Rightarrow> bool" where
  "lrq_at q a n \<longleftrightarrow> q_head q = pack a a \<and> q_tail q = a + of_nat n \<and> n \<le> 256
     \<and> length (q_buffer q) = 256"

definition lrq_items :: "'t lrq \<Rightarrow> 't option list" where
  "lrq_items q = (let (s, r) = unpack (q_head q) in ring_items (q_buffer q) r (unat (q_tail q - r)))"

definition lrq_quiet :: "'t lrq \<Rightarrow> bool" where
  "lrq_quiet q \<longleftrightarrow> (let (s, r) = unpack (q_head q) in s = r \<and> unat (q_tail q - r) \<le> 256)
     \<and> length (q_buffer q) = 256"

lemma lrq_quiet_at: "lrq_quiet q \<longleftrightarrow> (\<exists>a n. lrq_at q a n)"
proof
  assume q: "lrq_quiet q"
  obtain s r where u: "unpack (q_head q) = (s, r)" by force
  from q u have "lrq_at q r (unat (q_tail q - r))"
    by (auto simp: lrq_quiet_def lrq_at_def dest: pack_unpack)
  then show "\<exists>a n. lrq_at q a n" by blast
next
  assume "\<exists>a n. lrq_at q a n"
  then show "lrq_quiet q"
    by (auto simp: lrq_quiet_def lrq_at_def unat_of_nat)
qed

lemma lrq_at_quiet: "lrq_at q a n \<Longrightarrow> lrq_quiet q"
  by (auto simp: lrq_quiet_at)

lemma lrq_at_items: "lrq_at q a n \<Longrightarrow> lrq_items q = ring_items (q_buffer q) a n"
  by (simp add: lrq_items_def lrq_at_def unat_of_nat)

lemma unat_small: "n \<le> 256 \<Longrightarrow> unat (of_nat n :: u32) = n"
  by (simp add: unat_of_nat)

lemma of_nat_eq_0: "n \<le> 256 \<Longrightarrow> (of_nat n :: u32) = 0 \<longleftrightarrow> n = 0"
  by (simp only: word_unat_eq_iff unat_small unat_0)

lemmas lrq_at_simps = lrq_at_def of_nat_eq_0 unat_small queue_len_def LOCAL_QUEUE_CAPACITY_def Let_def

lemma pop_at:
  assumes "lrq_at q a n"
  shows "lrq_pop fails q = (if n = 0 then (None, q)
           else (q_buffer q ! slot a, q\<lparr>q_head := pack (a + 1) (a + 1)\<rparr>))"
proof (induction fails)
  case Nil
  then show ?case
    using assms by (subst lrq_pop.simps) (auto simp: lrq_at_simps)
next
  case (Cons b fs)
  then show ?case
    using assms by (subst lrq_pop.simps) (auto simp: lrq_at_simps split: bool.splits)
qed

lemma push_at:
  assumes "lrq_at q a n"
  shows "push_or_overflow fails task q ovf =
     (if n < 256 then (push_back_finish task (q_tail q) q, ovf)
      else push_overflow_commit task a (q_tail q) q ovf)"
proof (induction fails)
  case Nil
  then show ?case
    using assms by (subst push_or_overflow.simps) (auto simp: lrq_at_simps)
next
  case (Cons b fs)
  then show ?case
    using assms by (subst push_or_overflow.simps) (auto simp: lrq_at_simps split: bool.splits)
qed

lemma push_finish_at:
  assumes "lrq_at q a n" "n < 256"
  shows "lrq_at (push_back_finish task (q_tail q) q) a (Suc n)"
    "lrq_items (push_back_finish task (q_tail q) q) = lrq_items q @ [task]"
proof -
  show at: "lrq_at (push_back_finish task (q_tail q) q) a (Suc n)"
    using assms by (simp add: lrq_at_def push_back_finish_def)
  show "lrq_items (push_back_finish task (q_tail q) q) = lrq_items q @ [task]"
    using assms lrq_at_items [OF at] lrq_at_items [OF assms(1)]
    by (simp add: push_back_finish_def lrq_at_def ring_items_push)
qed

lemma overflow_commit_eq:
  "push_overflow_commit task head tail q ovf =
     (q\<lparr>q_head := pack tail tail, q_tail := tail + 128\<rparr>,
      ovf @ ring_items (q_buffer q) (head + 128) 128 @ [task])"
proof -
  have n: "NUM_TAKEN = 128" by (simp add: NUM_TAKEN_def LOCAL_QUEUE_CAPACITY_def)
  show ?thesis
    unfolding push_overflow_commit_def n Let_def ring_items_def [symmetric] by simp
qed

lemma overflow_at:
  assumes "lrq_at q a 256" "push_overflow_commit task a (q_tail q) q ovf = (q', ovf')"
  shows "lrq_at q' (a + 256) 128" "lrq_items q' = take 128 (lrq_items q)"
    "ovf' = ovf @ drop 128 (lrq_items q) @ [task]"
proof -
  note c = assms(2) [unfolded overflow_commit_eq]
  have it: "lrq_items q = ring_items (q_buffer q) a 256" by (rule lrq_at_items [OF assms(1)])
  show at: "lrq_at q' (a + 256) 128"
    using assms(1) c by (auto simp: lrq_at_def)
  have buf: "q_buffer q' = q_buffer q" using c by auto
  show "lrq_items q' = take 128 (lrq_items q)"
    using lrq_at_items [OF at] it by (simp add: buf ring_items_shift ring_items_take)
  have "drop 128 (ring_items (q_buffer q) a 256) = ring_items (q_buffer q) (a + 128) 128"
    using ring_items_drop [of 128 256 "q_buffer q" a] by simp
  then show "ovf' = ovf @ drop 128 (lrq_items q) @ [task]"
    using c it by simp
qed

lemma lrq_push_spec:
  assumes "lrq_quiet q" "push_or_overflow fails task q ovf = (q', ovf')"
  shows "lrq_quiet q' \<and> (if length (lrq_items q) < 256
      then lrq_items q' = lrq_items q @ [task] \<and> ovf' = ovf
      else lrq_items q' = take 128 (lrq_items q) \<and> ovf' = ovf @ drop 128 (lrq_items q) @ [task])"
proof -
  obtain a n where at: "lrq_at q a n" using assms(1) lrq_quiet_at by blast
  have len: "length (lrq_items q) = n" using lrq_at_items [OF at] by simp
  show ?thesis
  proof (cases "n < 256")
    case True
    then have "q' = push_back_finish task (q_tail q) q" "ovf' = ovf"
      using assms(2) push_at [OF at, of fails task ovf] by simp_all
    with True push_finish_at [OF at True, of task] len show ?thesis
      by (simp add: lrq_at_quiet)
  next
    case False
    then have n: "n = 256" using at by (simp add: lrq_at_def)
    then have "push_overflow_commit task a (q_tail q) q ovf = (q', ovf')"
      using assms(2) push_at [OF at, of fails task ovf] by simp
    from n overflow_at [OF at [unfolded n] this] len show ?thesis
      by (simp add: lrq_at_quiet)
  qed
qed

lemma lrq_pop_spec:
  assumes "lrq_quiet q" "lrq_pop fails q = (r, q')"
  shows "lrq_quiet q' \<and> (case lrq_items q of
      [] \<Rightarrow> r = None \<and> q' = q
    | x # xs \<Rightarrow> r = x \<and> lrq_items q' = xs)"
proof -
  obtain a n where at: "lrq_at q a n" using assms(1) lrq_quiet_at by blast
  show ?thesis
  proof (cases n)
    case 0
    with assms pop_at [OF at] lrq_at_items [OF at] show ?thesis by simp
  next
    case (Suc m)
    have at': "lrq_at q' (a + 1) m" and buf: "q_buffer q' = q_buffer q" and r: "r = q_buffer q ! slot a"
      using assms(2) pop_at [OF at, of fails] at Suc by (auto simp: lrq_at_def)
    have "lrq_items q' = ring_items (q_buffer q) (a + 1) m"
      using lrq_at_items [OF at'] buf by simp
    moreover have "lrq_items q = q_buffer q ! slot a # ring_items (q_buffer q) (a + 1) m"
      using lrq_at_items [OF at] Suc by (simp add: ring_items_Cons)
    ultimately show ?thesis using r at' by (auto intro: lrq_at_quiet)
  qed
qed

text \<open>Stealing: the ceiling half, oldest first; the last one is returned, the rest is queued.\<close>

lemma half_word: "n \<le> 256 \<Longrightarrow> (of_nat n :: u32) - of_nat n div 2 = of_nat (n - n div 2)"
proof -
  assume n: "n \<le> 256"
  have d: "(of_nat n :: u32) div 2 = of_nat (n div 2)"
    using n by (simp add: word_unat_eq_iff unat_div unat_of_nat)
  show ?thesis unfolding d using n by (simp add: of_nat_diff)
qed

lemma half_eq:
  assumes "n \<le> 256"
  shows "(of_nat n :: u32) = of_nat n div 2 \<longleftrightarrow> n = 0"
proof -
  have "(of_nat n :: u32) = of_nat n div 2 \<longleftrightarrow> (of_nat n :: u32) - of_nat n div 2 = 0"
    by (rule eq_iff_diff_eq_0)
  also have "\<dots> \<longleftrightarrow> (of_nat (n - n div 2) :: u32) = 0"
    by (simp only: half_word [OF assms])
  also have "\<dots> \<longleftrightarrow> n - n div 2 = 0"
    using assms by (intro of_nat_eq_0) linarith
  finally show ?thesis by linarith
qed

lemma claim_at:
  assumes "lrq_at q a n"
  shows "steal_claim fails q = (if n = 0 then None
     else Some (a, of_nat (n - n div 2), q\<lparr>q_head := pack a (a + of_nat (n - n div 2))\<rparr>))"
proof (induction fails)
  case Nil
  then show ?case
    using assms by (subst steal_claim.simps) (auto simp: lrq_at_simps half_word half_eq)
next
  case (Cons b fs)
  then show ?case
    using assms by (subst steal_claim.simps) (auto simp: lrq_at_simps half_word half_eq split: bool.splits)
qed

lemma length_steal_copy [simp]: "length (steal_copy k first dt srcb dstb) = length dstb"
  by (induction k) (simp_all add: Let_def)

lemma steal_copy_items:
  assumes "length dstb = 256" "d + k \<le> 256"
  shows "ring_items (steal_copy k first (da + of_nat d) srcb dstb) da (d + k)
       = ring_items dstb da d @ ring_items srcb first k"
  using assms
proof (induction k)
  case (Suc k)
  have "da + of_nat d + of_nat k = da + of_nat (d + k)" by simp
  then show ?case
    using Suc ring_items_push [of "d + k" "steal_copy k first (da + of_nat d) srcb dstb" da]
    by (simp add: Let_def ring_items_Suc add.assoc)
qed simp

lemma steal_into_at:
  assumes src: "lrq_at src a (Suc n)" and dst: "lrq_at dst b d" and room: "d \<le> 128"
    and m: "m = Suc n - Suc n div 2"
    and op: "steal_into fails src dst = (r, src', dst')"
  shows "lrq_at src' (a + of_nat m) (Suc n - m)" "lrq_at dst' b (d + (m - 1))"
    "r = lrq_items src ! (m - 1)" "lrq_items src' = drop m (lrq_items src)"
    "lrq_items dst' = lrq_items dst @ take (m - 1) (lrq_items src)"
proof -
  have mb: "0 < m" "m \<le> 128" "m \<le> Suc n" using src m by (auto simp: lrq_at_def)
  have w: "(of_nat m :: u32) - 1 = of_nat (m - 1)" using mb by (simp add: of_nat_diff)
  define cb where "cb = steal_copy m a (b + of_nat d) (q_buffer src) (q_buffer dst)"
  have len: "length cb = 256" using dst by (simp add: cb_def lrq_at_def)
  have cbi: "ring_items cb b (d + m) = ring_items (q_buffer dst) b d @ ring_items (q_buffer src) a m"
    unfolding cb_def using dst room mb by (intro steal_copy_items) (auto simp: lrq_at_def)
  have cl: "steal_claim fails src = Some (a, of_nat m, src\<lparr>q_head := pack a (a + of_nat m)\<rparr>)"
    using claim_at [OF src, of fails] m by simp
  have op2: "r = cb ! slot (b + of_nat d + of_nat (m - 1))"
    "src' = src\<lparr>q_head := pack (a + of_nat m) (a + of_nat m)\<rparr>"
    "q_buffer dst' = cb" "q_tail dst' = b + of_nat d + of_nat (m - 1)" "q_head dst' = q_head dst"
    using op dst room mb cl w of_nat_eq_0 [of m] of_nat_eq_0 [of "m - 1"] unat_small [of m]
    by (auto simp: steal_into_def steal_into2_def steal_finish_def cb_def lrq_at_simps word_gt_0
        split: if_splits)
  show at1: "lrq_at src' (a + of_nat m) (Suc n - m)"
    using src op2 mb by (auto simp: lrq_at_def of_nat_diff)
  show at2: "lrq_at dst' b (d + (m - 1))"
    using dst op2 mb room len by (simp add: lrq_at_def)
  have rs: "r = ring_items cb b (d + m) ! (d + (m - 1))"
    using op2(1) mb by (simp add: algebra_simps)
  have "r = ring_items (q_buffer src) a m ! (m - 1)"
    unfolding rs cbi
    using nth_append_length_plus [of "ring_items (q_buffer dst) b d" _ "m - 1"] by simp
  then show "r = lrq_items src ! (m - 1)"
    using mb lrq_at_items [OF src] by simp
  show "lrq_items src' = drop m (lrq_items src)"
    using lrq_at_items [OF at1] lrq_at_items [OF src] op2 mb by (simp add: ring_items_drop)
  have "ring_items cb b (d + (m - 1)) = take (d + (m - 1)) (ring_items cb b (d + m))"
    using mb by (simp add: ring_items_take)
  then show "lrq_items dst' = lrq_items dst @ take (m - 1) (lrq_items src)"
    using lrq_at_items [OF at2] lrq_at_items [OF dst] lrq_at_items [OF src] op2 cbi mb
    by (simp add: ring_items_take)
qed

lemma steal_into_empty:
  assumes "lrq_at src a 0" "lrq_at dst b d" "d \<le> 128"
  shows "steal_into fails src dst = (None, src, dst)"
  using assms claim_at [OF assms(1), of fails]
  by (auto simp: steal_into_def steal_into2_def lrq_at_simps)

lemma steal_into_full:
  assumes "lrq_at dst b d" "d > 128"
  shows "steal_into fails src dst = (None, src, dst)"
  using assms by (auto simp: steal_into_def lrq_at_simps)

text \<open>
  \<^verbatim>\<open>pack\<close> and \<^verbatim>\<open>unpack\<close> are inverse in both directions, on all 64-bit heads and all
  pairs of 32-bit indices.
\<close>

theorem pack_unpack_inverse:
  "unpack (pack s r) = (s, r) \<and> case_prod pack (unpack h) = h"
  using pack_unpack [of h "fst (unpack h)" "snd (unpack h)"] by (simp add: case_prod_beta)

text \<open>
  C36. The owner's operations are a FIFO of at most 256 tasks, for every position of the wrapping
  32-bit indices and any number of spurious CAS failures: \<^verbatim>\<open>push_or_overflow\<close> appends while
  there is room and otherwise keeps the older half and spills the younger half followed by the
  new task to the overflow queue, in order; \<^verbatim>\<open>pop\<close> returns the oldest task, or null exactly
  when the ring is empty.
\<close>

theorem lrq_owner_fifo:
  assumes "lrq_quiet q" "push_or_overflow fails task q ovf = (q1, ovf1)" "lrq_pop fails' q = (r, q2)"
  shows "lrq_quiet q1 \<and> lrq_quiet q2
    \<and> (if length (lrq_items q) < 256
        then lrq_items q1 = lrq_items q @ [task] \<and> ovf1 = ovf
        else lrq_items q1 = take 128 (lrq_items q)
           \<and> ovf1 = ovf @ drop 128 (lrq_items q) @ [task])
    \<and> (case lrq_items q of [] \<Rightarrow> r = None \<and> q2 = q | x # xs \<Rightarrow> r = x \<and> lrq_items q2 = xs)"
  using lrq_push_spec [OF assms(1,2)] lrq_pop_spec [OF assms(1,3)] by simp

theorem lrq_owner_fifo_witness:
  "let q = \<lparr>q_head = pack (- 1) (- 1), q_tail = 1,
            q_buffer = (replicate 256 None)[255 := Some (7 :: nat), 0 := Some 8]\<rparr>;
       (q1, ovf1) = push_or_overflow [True, False] (Some 9) q [];
       (r, q2) = lrq_pop [True] q
   in lrq_quiet q \<and> lrq_items q = [Some 7, Some 8]
    \<and> lrq_items q1 = [Some 7, Some 8, Some 9] \<and> r = Some 7 \<and> lrq_items q2 = [Some 8]"
proof -
  let ?q = "\<lparr>q_head = pack (- 1) (- 1), q_tail = 1,
            q_buffer = (replicate 256 None)[255 := Some (7 :: nat), 0 := Some 8]\<rparr>"
  have at: "lrq_at ?q (- 1) 2" by (simp add: lrq_at_def)
  have slots: "slot (- 1) = 255" "slot 0 = 0" by (simp_all add: slot_def)
  have two: "[0..<2] = [0, 1 :: nat]" by (simp add: upt_rec)
  have items: "lrq_items ?q = [Some 7, Some 8]"
    using lrq_at_items [OF at] by (simp add: ring_items_def slots two)
  obtain q1 ovf1 where p: "push_or_overflow [True, False] (Some 9) ?q [] = (q1, ovf1)" by force
  obtain r q2 where o: "lrq_pop [True] ?q = (r, q2)" by force
  show ?thesis
    using lrq_owner_fifo [OF lrq_at_quiet [OF at] p o] lrq_at_quiet [OF at] items p o by simp
qed

text \<open>
  A thief takes the ceiling half of the victim's tasks and nothing else: with \<open>m\<close> that half,
  \<^verbatim>\<open>steal_into\<close> returns the \<open>m\<close>-th oldest task to run at once, appends the \<open>m - 1\<close> older
  ones to the thief's own ring in order and leaves the victim the rest; it does nothing when the
  victim is empty or the thief's ring is more than half full.
\<close>

theorem steal_into_half:
  assumes "lrq_quiet src" "lrq_quiet dst" "steal_into fails src dst = (r, src', dst')"
  shows "lrq_quiet src' \<and> lrq_quiet dst'
    \<and> (if lrq_items src = [] \<or> length (lrq_items dst) > 128
        then r = None \<and> src' = src \<and> dst' = dst
        else (let m = length (lrq_items src) - length (lrq_items src) div 2 in
          r = lrq_items src ! (m - 1) \<and> lrq_items src' = drop m (lrq_items src)
          \<and> lrq_items dst' = lrq_items dst @ take (m - 1) (lrq_items src)))"
proof -
  obtain a n where src: "lrq_at src a n" using assms(1) lrq_quiet_at by blast
  obtain b d where dst: "lrq_at dst b d" using assms(2) lrq_quiet_at by blast
  have len: "length (lrq_items src) = n" "length (lrq_items dst) = d"
    using lrq_at_items [OF src] lrq_at_items [OF dst] by simp_all
  show ?thesis
  proof (cases "n = 0 \<or> d > 128")
    case True
    then have "steal_into fails src dst = (None, src, dst)"
      using steal_into_empty [of src a dst b d] steal_into_full [OF dst] src dst
      by (cases "d > 128") auto
    with True assms len show ?thesis by auto
  next
    case False
    then obtain k where k: "n = Suc k" by (cases n) auto
    note s = steal_into_at [OF src [unfolded k] dst _ refl assms(3)]
    show ?thesis
      using False s lrq_at_quiet [OF s(1)] lrq_at_quiet [OF s(2)] len k by (auto simp: Let_def)
  qed
qed

theorem steal_into_half_witness:
  "let src = \<lparr>q_head = 0, q_tail = 3,
              q_buffer = (replicate 256 None)[0 := Some (1 :: nat), 1 := Some 2, 2 := Some 3]\<rparr>;
       dst = \<lparr>q_head = 0, q_tail = 0, q_buffer = replicate 256 None\<rparr>;
       (r, src', dst') = steal_into [True] src dst
   in lrq_items src = [Some 1, Some 2, Some 3] \<and> r = Some 2
      \<and> lrq_items src' = [Some 3] \<and> lrq_items dst' = [Some 1]"
proof -
  let ?src = "\<lparr>q_head = 0, q_tail = 3,
              q_buffer = (replicate 256 None)[0 := Some (1 :: nat), 1 := Some 2, 2 := Some 3]\<rparr>"
  let ?dst = "\<lparr>q_head = 0, q_tail = 0, q_buffer = replicate 256 None\<rparr> :: nat lrq"
  have at: "lrq_at ?src 0 3" "lrq_at ?dst 0 0" by (simp_all add: lrq_at_def pack_def)
  have slots: "slot 0 = 0" "slot 1 = 1" "slot 2 = 2" by (simp_all add: slot_def)
  have three: "[0..<3] = [0, 1, 2 :: nat]" by (simp add: upt_rec)
  have items: "lrq_items ?src = [Some 1, Some 2, Some 3]" "lrq_items ?dst = []"
    using lrq_at_items [OF at(1)] lrq_at_items [OF at(2)]
    by (simp_all add: ring_items_def slots three)
  obtain r src' dst' where op: "steal_into [True] ?src ?dst = (r, src', dst')" by (metis prod_cases3)
  show ?thesis
    using steal_into_half [OF lrq_at_quiet [OF at(1)] lrq_at_quiet [OF at(2)] op] items op
    by (simp add: Let_def)
qed

section \<open>The lock-based queue\<close>

text \<open>
  \<^verbatim>\<open>WorkStealingDeque\<close>: every operation is one critical section over a \<^verbatim>\<open>std::deque\<close>,
  except \<^verbatim>\<open>steal_half\<close>, which releases the victim's lock before it pushes into \<^verbatim>\<open>dst\<close>.
\<close>

definition wsd_push :: "'t \<Rightarrow> 't list \<Rightarrow> 't list" where
  "wsd_push item dq = dq @ [item]"

definition wsd_pop :: "'t list \<Rightarrow> 't option \<times> 't list" where
  "wsd_pop dq = (if dq = [] then (None, dq) else (Some (hd dq), tl dq))"

definition wsd_steal :: "'t list \<Rightarrow> 't option \<times> 't list" where
  "wsd_steal dq = (if dq = [] then (None, dq) else (Some (hd dq), tl dq))"

primrec wsd_take_front :: "nat \<Rightarrow> 't list \<Rightarrow> 't list \<Rightarrow> 't list \<times> 't list" where
  "wsd_take_front 0 stolen dq = (stolen, dq)"
| "wsd_take_front (Suc n) stolen dq = wsd_take_front n (stolen @ [hd dq]) (tl dq)"

definition wsd_steal_half :: "'t list \<Rightarrow> 't list \<Rightarrow> 't option \<times> 't list \<times> 't list" where
  "wsd_steal_half dq dst =
     (if dq = [] then (None, dq, dst)
      else let n = (length dq + 1) div 2;
               (stolen, dq) = wsd_take_front n [] dq
           in (Some (stolen ! 0), dq, fold wsd_push (tl stolen) dst))"

lemma wsd_take_front_eq:
  "n \<le> length dq \<Longrightarrow> wsd_take_front n stolen dq = (stolen @ take n dq, drop n dq)"
proof (induction n arbitrary: stolen dq)
  case (Suc n)
  then obtain x xs where "dq = x # xs" by (cases dq) auto
  with Suc show ?case by simp
qed simp

lemma fold_wsd_push: "fold wsd_push xs dst = dst @ xs"
  by (induction xs arbitrary: dst) (simp_all add: wsd_push_def)

text \<open>Both builds take the ceiling half; they differ in which of its tasks runs first.\<close>

lemma wsd_steal_half_spec:
  assumes "dq \<noteq> []"
  defines "m \<equiv> length dq - length dq div 2"
  shows "wsd_steal_half dq dst = (Some (hd dq), drop m dq, dst @ tl (take m dq))"
proof -
  have m: "(length dq + 1) div 2 = m" unfolding m_def by presburger
  have pos: "0 < m" "m \<le> length dq" using assms(1) unfolding m_def by (cases dq; simp)+
  show ?thesis
    using assms(1) pos unfolding wsd_steal_half_def m
    by (simp add: wsd_take_front_eq fold_wsd_push hd_conv_nth)
qed

end
