(* ===== verification/Steal_Protocol.thy ===== *)
theory Steal_Protocol
  imports Run_Queue
begin

text \<open>
  The owner of a \<^verbatim>\<open>LocalRunQueue\<close> and any number of thieves
  (\<^verbatim>\<open>include/coro/detail/local_run_queue.h\<close>) as a step relation. One step is one atomic access
  of the head or the tail together with the slot accesses nobody else can see: a successful
  compare-exchange with the loads it validates, a store of the tail with the slot written before
  it, one element of a copy loop. A loop iteration whose compare-exchange fails changes nothing
  and is not a step. A thief loads the tail before its compare-exchange, so the tail it uses may
  be older than the current one; the step \<open>claim\<close> allows every such value.

  The fields \<open>delivered\<close>, \<open>in_steal\<close> and \<open>pushed\<close> record what has happened: the tasks handed to
  somebody to run, the tasks claimed by the steal in progress, the tasks ever passed to
  \<^verbatim>\<open>push_or_overflow\<close>.
\<close>

section \<open>States and steps\<close>

datatype 't owner_pc =
    O_Idle
  | O_Push "'t option"                  \<comment> \<open>room seen, slot and tail not yet written\<close>
  | O_Claimed "'t option" u32 u32       \<comment> \<open>task, head and tail after the overflow CAS\<close>
  | O_Spill "'t option" u32 "'t option list"  \<comment> \<open>task, \<^verbatim>\<open>src\<close> and batch so far\<close>

datatype 't thief_pc =
    T_Idle
  | T_Copy u32 nat "'t option list"     \<comment> \<open>\<^verbatim>\<open>first\<close>, \<^verbatim>\<open>n\<close> and the elements copied\<close>

record 't sp =
  ring :: "'t lrq"
  owner :: "'t owner_pc"
  thief :: "nat \<Rightarrow> 't thief_pc"
  injection :: "'t option list"
  delivered :: "'t option list"
  in_steal :: "'t option list"
  pushed :: "'t option list"

definition sp_init :: "'t sp \<Rightarrow> bool" where
  "sp_init \<sigma> \<longleftrightarrow> \<sigma> = \<lparr>ring = m_inner make_local_run_queue, owner = O_Idle, thief = (\<lambda>_. T_Idle),
     injection = [], delivered = [], in_steal = [], pushed = []\<rparr>"

inductive sp_step :: "'t sp \<Rightarrow> 't sp \<Rightarrow> bool" where
  push_room: "owner \<sigma> = O_Idle \<Longrightarrow> unpack (q_head (ring \<sigma>)) = (s, r) \<Longrightarrow>
    unat (queue_len s (q_tail (ring \<sigma>))) < LOCAL_QUEUE_CAPACITY \<Longrightarrow>
    sp_step \<sigma> (\<sigma>\<lparr>owner := O_Push task, pushed := pushed \<sigma> @ [task]\<rparr>)"
| push_store: "owner \<sigma> = O_Push task \<Longrightarrow>
    sp_step \<sigma> (\<sigma>\<lparr>owner := O_Idle, ring := push_back_finish task (q_tail (ring \<sigma>)) (ring \<sigma>)\<rparr>)"
| push_busy: "owner \<sigma> = O_Idle \<Longrightarrow> unpack (q_head (ring \<sigma>)) = (s, r) \<Longrightarrow>
    \<not> unat (queue_len s (q_tail (ring \<sigma>))) < LOCAL_QUEUE_CAPACITY \<Longrightarrow> s \<noteq> r \<Longrightarrow>
    sp_step \<sigma> (\<sigma>\<lparr>injection := injection \<sigma> @ [task], pushed := pushed \<sigma> @ [task]\<rparr>)"
| overflow_cas: "owner \<sigma> = O_Idle \<Longrightarrow> unpack (q_head (ring \<sigma>)) = (r, r) \<Longrightarrow>
    \<not> unat (queue_len r (q_tail (ring \<sigma>))) < LOCAL_QUEUE_CAPACITY \<Longrightarrow>
    sp_step \<sigma> (\<sigma>\<lparr>owner := O_Claimed task r (q_tail (ring \<sigma>)), pushed := pushed \<sigma> @ [task],
      ring := (ring \<sigma>)\<lparr>q_head := pack (q_tail (ring \<sigma>)) (q_tail (ring \<sigma>))\<rparr>\<rparr>)"
| overflow_expose: "owner \<sigma> = O_Claimed task h t \<Longrightarrow>
    sp_step \<sigma> (\<sigma>\<lparr>owner := O_Spill task (h + of_nat NUM_TAKEN) [],
      ring := (ring \<sigma>)\<lparr>q_tail := t + of_nat NUM_TAKEN\<rparr>\<rparr>)"
| overflow_move: "owner \<sigma> = O_Spill task src batch \<Longrightarrow> length batch < NUM_TAKEN \<Longrightarrow>
    sp_step \<sigma> (\<sigma>\<lparr>owner := O_Spill task src
      (batch @ [q_buffer (ring \<sigma>) ! slot (src + of_nat (length batch))])\<rparr>)"
| overflow_batch: "owner \<sigma> = O_Spill task src batch \<Longrightarrow> length batch = NUM_TAKEN \<Longrightarrow>
    sp_step \<sigma> (\<sigma>\<lparr>owner := O_Idle, injection := injection \<sigma> @ batch @ [task]\<rparr>)"
| pop: "owner \<sigma> = O_Idle \<Longrightarrow> unpack (q_head (ring \<sigma>)) = (s, r) \<Longrightarrow> r \<noteq> q_tail (ring \<sigma>) \<Longrightarrow>
    lrq_pop [] (ring \<sigma>) = (x, q') \<Longrightarrow>
    sp_step \<sigma> (\<sigma>\<lparr>ring := q', delivered := delivered \<sigma> @ [x]\<rparr>)"
| claim: "thief \<sigma> i = T_Idle \<Longrightarrow> unpack (q_head (ring \<sigma>)) = (s, r) \<Longrightarrow> s = r \<Longrightarrow>
    unat (src_tail - r) \<le> unat (q_tail (ring \<sigma>) - r) \<Longrightarrow>
    n = unat (src_tail - r) - unat (src_tail - r) div 2 \<Longrightarrow> n \<noteq> 0 \<Longrightarrow>
    sp_step \<sigma> (\<sigma>\<lparr>ring := (ring \<sigma>)\<lparr>q_head := pack s (r + of_nat n)\<rparr>,
      thief := (thief \<sigma>)(i := T_Copy s n []), in_steal := ring_items (q_buffer (ring \<sigma>)) s n\<rparr>)"
| copy: "thief \<sigma> i = T_Copy first n c \<Longrightarrow> length c < n \<Longrightarrow>
    sp_step \<sigma> (\<sigma>\<lparr>thief := (thief \<sigma>)(i := T_Copy first n
      (c @ [q_buffer (ring \<sigma>) ! slot (first + of_nat (length c))]))\<rparr>)"
| finish: "thief \<sigma> i = T_Copy first n c \<Longrightarrow> length c = n \<Longrightarrow>
    sp_step \<sigma> (\<sigma>\<lparr>thief := (thief \<sigma>)(i := T_Idle), ring := steal_finish (ring \<sigma>),
      delivered := delivered \<sigma> @ c, in_steal := []\<rparr>)"

section \<open>The invariant\<close>

text \<open>Tasks the owner holds between two of its steps.\<close>

fun owner_holds :: "'t option list \<Rightarrow> 't owner_pc \<Rightarrow> 't option list" where
  "owner_holds buf O_Idle = []"
| "owner_holds buf (O_Push task) = [task]"
| "owner_holds buf (O_Claimed task h t) = ring_items buf h 256 @ [task]"
| "owner_holds buf (O_Spill task src batch) =
     batch @ ring_items buf (src + of_nat (length batch)) (128 - length batch) @ [task]"

definition thieves_ok :: "'t sp \<Rightarrow> u32 \<Rightarrow> nat \<Rightarrow> bool" where
  "thieves_ok \<sigma> s a \<longleftrightarrow>
     (a = 0 \<and> in_steal \<sigma> = [] \<and> (\<forall>i. thief \<sigma> i = T_Idle))
   \<or> (\<exists>i n c. thief \<sigma> i = T_Copy s n c \<and> (\<forall>j. j \<noteq> i \<longrightarrow> thief \<sigma> j = T_Idle) \<and> 0 < n \<and> n \<le> a
        \<and> in_steal \<sigma> = ring_items (q_buffer (ring \<sigma>)) s n
        \<and> length c \<le> n \<and> c = take (length c) (in_steal \<sigma>))"

fun owner_ok :: "'t owner_pc \<Rightarrow> u32 \<Rightarrow> nat \<Rightarrow> nat \<Rightarrow> bool" where
  "owner_ok O_Idle ti a b = True"
| "owner_ok (O_Push task) ti a b = (b < 256)"
| "owner_ok (O_Claimed task h t) ti a b = (a = 0 \<and> b = 0 \<and> t = ti \<and> t = h + 256)"
| "owner_ok (O_Spill task src batch) ti a b = (length batch \<le> 128)"

text \<open>
  \<open>steal = s\<close>, \<open>real = s + a\<close>, \<open>tail = s + b\<close>: the three indices are in order and span at most the
  capacity. \<open>everywhere\<close> collects every task the queue and its users hold.
\<close>

definition everywhere :: "'t sp \<Rightarrow> u32 \<Rightarrow> nat \<Rightarrow> nat \<Rightarrow> 't option multiset" where
  "everywhere \<sigma> s a b = mset (delivered \<sigma>) + mset (injection \<sigma>) + mset (in_steal \<sigma>)
     + mset (ring_items (q_buffer (ring \<sigma>)) (s + of_nat a) (b - a))
     + mset (owner_holds (q_buffer (ring \<sigma>)) (owner \<sigma>))"

definition sp_at :: "'t sp \<Rightarrow> u32 \<Rightarrow> nat \<Rightarrow> nat \<Rightarrow> bool" where
  "sp_at \<sigma> s a b \<longleftrightarrow>
     q_head (ring \<sigma>) = pack s (s + of_nat a) \<and> q_tail (ring \<sigma>) = s + of_nat b
   \<and> a \<le> b \<and> b \<le> 256 \<and> length (q_buffer (ring \<sigma>)) = 256
   \<and> thieves_ok \<sigma> s a \<and> owner_ok (owner \<sigma>) (s + of_nat b) a b
   \<and> mset (pushed \<sigma>) = everywhere \<sigma> s a b"

definition sp_inv :: "'t sp \<Rightarrow> bool" where
  "sp_inv \<sigma> \<longleftrightarrow> (\<exists>s a b. sp_at \<sigma> s a b)"

lemma sp_invI: "sp_at \<sigma> s a b \<Longrightarrow> sp_inv \<sigma>"
  by (auto simp: sp_inv_def)

lemma of_nat_inj_small:
  assumes "a \<le> 256" "b \<le> 256"
  shows "(s :: u32) + of_nat a = s + of_nat b \<longleftrightarrow> a = b"
proof -
  have "unat (of_nat a :: u32) = a" "unat (of_nat b :: u32) = b" using assms by (simp_all only: unat_small)
  then show ?thesis by (metis add_left_cancel)
qed

lemma idx_diff: "a \<le> b \<Longrightarrow> b \<le> 256 \<Longrightarrow> unat ((s :: u32) + of_nat b - (s + of_nat a)) = b - a"
proof -
  assume ab: "a \<le> b" "b \<le> 256"
  then have "s + of_nat b - (s + of_nat a) = of_nat (b - a)" by (simp add: of_nat_diff)
  then show ?thesis using ab by (simp only: unat_small)
qed

lemma init_inv: "sp_init \<sigma> \<Longrightarrow> sp_inv \<sigma>"
  by (rule sp_invI [of _ 0 0 0])
    (simp add: sp_init_def sp_at_def make_local_run_queue_def thieves_ok_def everywhere_def
      LOCAL_QUEUE_CAPACITY_def pack_def)

section \<open>Each step keeps it\<close>

lemma ring_items_tail_split:
  assumes "a < b"
  shows "ring_items buf (s + of_nat a) (b - a)
    = buf ! slot (s + of_nat a) # ring_items buf (s + of_nat (Suc a)) (b - Suc a)"
proof -
  obtain k where k: "b - a = Suc k" "b - Suc a = k" using assms by (metis Suc_diff_Suc)
  show ?thesis unfolding k ring_items_Cons by (simp add: ac_simps)
qed

lemma thieves_ok_keep:
  assumes "thieves_ok \<sigma> s a" "thief \<tau> = thief \<sigma>" "in_steal \<tau> = in_steal \<sigma>"
    "\<And>n. n \<le> a \<Longrightarrow> ring_items (q_buffer (ring \<tau>)) s n = ring_items (q_buffer (ring \<sigma>)) s n"
    "a \<le> a'" "a = 0 \<longrightarrow> a' = 0"
  shows "thieves_ok \<tau> s a'"
proof (cases "a = 0")
  case True
  with assms show ?thesis by (auto simp: thieves_ok_def)
next
  case False
  with assms(1) obtain i n c where ic: "thief \<sigma> i = T_Copy s n c" "\<forall>j. j \<noteq> i \<longrightarrow> thief \<sigma> j = T_Idle"
    "0 < n" "n \<le> a" "in_steal \<sigma> = ring_items (q_buffer (ring \<sigma>)) s n" "length c \<le> n"
    "c = take (length c) (in_steal \<sigma>)"
    unfolding thieves_ok_def by blast
  have "ring_items (q_buffer (ring \<tau>)) s n = ring_items (q_buffer (ring \<sigma>)) s n"
    by (rule assms(4) [OF ic(4)])
  with ic assms(2,3,5) show ?thesis
    unfolding thieves_ok_def by (intro disjI2 exI [of _ i] exI [of _ n] exI [of _ c]) auto
qed

lemma step_push_room:
  assumes "sp_at \<sigma> s a b" "owner \<sigma> = O_Idle" "unpack (q_head (ring \<sigma>)) = (s', r)"
    "unat (queue_len s' (q_tail (ring \<sigma>))) < LOCAL_QUEUE_CAPACITY"
  shows "sp_at (\<sigma>\<lparr>owner := O_Push task, pushed := pushed \<sigma> @ [task]\<rparr>) s a b"
proof -
  have "s' = s" "b < 256"
    using assms unat_small [of b] by (auto simp: sp_at_def queue_len_def LOCAL_QUEUE_CAPACITY_def)
  with assms show ?thesis
    by (simp add: sp_at_def thieves_ok_def everywhere_def)
qed

lemma step_push_store:
  assumes at: "sp_at \<sigma> s a b" and own: "owner \<sigma> = O_Push task"
  shows "sp_at (\<sigma>\<lparr>owner := O_Idle, ring := push_back_finish task (q_tail (ring \<sigma>)) (ring \<sigma>)\<rparr>) s a (Suc b)"
proof -
  let ?buf = "q_buffer (ring \<sigma>)"
  have b: "b < 256" "a \<le> b" "length ?buf = 256" and tl: "q_tail (ring \<sigma>) = s + of_nat b"
    using at own by (simp_all add: sp_at_def)
  have keep: "ring_items (?buf[slot (s + of_nat b) := task]) s n = ring_items ?buf s n" if "n \<le> b" for n
    using ring_items_write [OF that] b by simp
  have th: "thieves_ok (\<sigma>\<lparr>owner := O_Idle, ring := push_back_finish task (s + of_nat b) (ring \<sigma>)\<rparr>) s a"
    by (rule thieves_ok_keep [of \<sigma> s a]) (use at b keep in \<open>auto simp: sp_at_def push_back_finish_def\<close>)
  have idx: "s + of_nat a + of_nat (b - a) = s + of_nat b" using b by (simp add: of_nat_diff)
  have "ring_items (?buf[slot (s + of_nat b) := task]) (s + of_nat a) (Suc (b - a))
      = ring_items ?buf (s + of_nat a) (b - a) @ [task]"
    using ring_items_push [of "b - a" ?buf "s + of_nat a" task] b by (simp add: idx)
  then show ?thesis
    using at own b th tl
    by (simp add: sp_at_def everywhere_def push_back_finish_def Suc_diff_le ac_simps)
qed


lemma step_push_busy:
  assumes "sp_at \<sigma> s a b"
  shows "sp_at (\<sigma>\<lparr>injection := injection \<sigma> @ [task], pushed := pushed \<sigma> @ [task]\<rparr>) s a b"
  using assms by (simp add: sp_at_def thieves_ok_def everywhere_def)

lemma head_unpack: "sp_at \<sigma> s a b \<Longrightarrow> unpack (q_head (ring \<sigma>)) = (s, s + of_nat a)"
  by (simp add: sp_at_def)

lemma steal_eq_real: "sp_at \<sigma> s a b \<Longrightarrow> s = s + of_nat a \<longleftrightarrow> a = 0"
  using of_nat_inj_small [of 0 a s] by (simp add: sp_at_def)

lemma step_overflow_cas:
  assumes at: "sp_at \<sigma> s a b" and own: "owner \<sigma> = O_Idle" and h: "unpack (q_head (ring \<sigma>)) = (r, r)"
    and full: "\<not> unat (queue_len r (q_tail (ring \<sigma>))) < LOCAL_QUEUE_CAPACITY"
  shows "sp_at (\<sigma>\<lparr>owner := O_Claimed task r (q_tail (ring \<sigma>)), pushed := pushed \<sigma> @ [task],
    ring := (ring \<sigma>)\<lparr>q_head := pack (q_tail (ring \<sigma>)) (q_tail (ring \<sigma>))\<rparr>\<rparr>) (q_tail (ring \<sigma>)) 0 0"
proof -
  have r: "r = s" "a = 0" using h head_unpack [OF at] steal_eq_real [OF at] by auto
  have b: "b = 256" using at full r unat_small [of b]
    by (simp add: sp_at_def queue_len_def LOCAL_QUEUE_CAPACITY_def)
  have "in_steal \<sigma> = []" "\<forall>i. thief \<sigma> i = T_Idle" using at r by (auto simp: sp_at_def thieves_ok_def)
  then show ?thesis using at own r b by (simp add: sp_at_def everywhere_def thieves_ok_def)
qed

lemma step_overflow_expose:
  assumes at: "sp_at \<sigma> s a b" and own: "owner \<sigma> = O_Claimed task h t"
  shows "sp_at (\<sigma>\<lparr>owner := O_Spill task (h + of_nat NUM_TAKEN) [],
    ring := (ring \<sigma>)\<lparr>q_tail := t + of_nat NUM_TAKEN\<rparr>\<rparr>) s 0 128"
proof -
  have z: "a = 0" "b = 0" "t = s" "s = h + 256" using at own by (auto simp: sp_at_def)
  have i: "in_steal \<sigma> = []" "\<forall>i. thief \<sigma> i = T_Idle" using at z by (auto simp: sp_at_def thieves_ok_def)
  have "ring_items (q_buffer (ring \<sigma>)) h 256
      = ring_items (q_buffer (ring \<sigma>)) (h + 256) 128 @ ring_items (q_buffer (ring \<sigma>)) (h + 128) 128"
    using ring_items_add [of "q_buffer (ring \<sigma>)" h 128 128] by (simp add: ring_items_shift)
  then have "mset (pushed \<sigma>) = mset (delivered \<sigma>) + mset (injection \<sigma>)
      + mset (ring_items (q_buffer (ring \<sigma>)) s 128)
      + mset (ring_items (q_buffer (ring \<sigma>)) (h + 128) 128 @ [task])"
    using at own i by (simp add: sp_at_def everywhere_def z)
  moreover have "q_head (ring \<sigma>) = pack s s" "length (q_buffer (ring \<sigma>)) = 256"
    using at by (simp_all add: sp_at_def z)
  ultimately show ?thesis
    unfolding sp_at_def everywhere_def thieves_ok_def NUM_TAKEN_def LOCAL_QUEUE_CAPACITY_def
    by (simp add: i z(3))
qed

lemma step_overflow_move:
  assumes at: "sp_at \<sigma> s a b" and own: "owner \<sigma> = O_Spill task src batch" and l: "length batch < NUM_TAKEN"
  shows "sp_at (\<sigma>\<lparr>owner := O_Spill task src
    (batch @ [q_buffer (ring \<sigma>) ! slot (src + of_nat (length batch))])\<rparr>) s a b"
proof -
  have l: "length batch < 128" using l by (simp add: NUM_TAKEN_def LOCAL_QUEUE_CAPACITY_def)
  have th: "thieves_ok (\<sigma>\<lparr>owner := O_Spill task src
    (batch @ [q_buffer (ring \<sigma>) ! slot (src + of_nat (length batch))])\<rparr>) s a"
    by (rule thieves_ok_keep [of \<sigma> s a]) (use at in \<open>auto simp: sp_at_def\<close>)
  show ?thesis
    using at own l th ring_items_tail_split [OF l, of "q_buffer (ring \<sigma>)" src]
    by (simp add: sp_at_def everywhere_def ac_simps)
qed

lemma step_overflow_batch:
  assumes at: "sp_at \<sigma> s a b" and own: "owner \<sigma> = O_Spill task src batch" and l: "length batch = NUM_TAKEN"
  shows "sp_at (\<sigma>\<lparr>owner := O_Idle, injection := injection \<sigma> @ batch @ [task]\<rparr>) s a b"
  using assms by (simp add: sp_at_def everywhere_def thieves_ok_def NUM_TAKEN_def LOCAL_QUEUE_CAPACITY_def)

lemma step_pop:
  assumes at: "sp_at \<sigma> s a b" and own: "owner \<sigma> = O_Idle" and h: "unpack (q_head (ring \<sigma>)) = (s', r)"
    and ne: "r \<noteq> q_tail (ring \<sigma>)" and p: "lrq_pop [] (ring \<sigma>) = (x, q')"
  shows "sp_inv (\<sigma>\<lparr>ring := q', delivered := delivered \<sigma> @ [x]\<rparr>)"
proof -
  let ?buf = "q_buffer (ring \<sigma>)" and ?\<tau> = "\<sigma>\<lparr>ring := q', delivered := delivered \<sigma> @ [x]\<rparr>"
  have r: "s' = s" "r = s + of_nat a" using h head_unpack [OF at] by auto
  have ab: "a < b" using at ne r by (auto simp: sp_at_def le_less)
  note split = ring_items_tail_split [OF ab, of ?buf s]
  show ?thesis
  proof (cases "a = 0")
    case True
    have q': "x = ?buf ! slot s" "q' = (ring \<sigma>)\<lparr>q_head := pack (s + 1) (s + 1)\<rparr>"
      using p at ne r True by (auto simp: lrq_pop.simps sp_at_def Let_def)
    have "in_steal \<sigma> = []" "\<forall>i. thief \<sigma> i = T_Idle" using at True by (auto simp: sp_at_def thieves_ok_def)
    moreover have "b - 1 \<le> 256" using at by (auto simp: sp_at_def)
    ultimately have "sp_at ?\<tau> (s + 1) 0 (b - 1)"
      using at own ab split True by (simp add: sp_at_def everywhere_def thieves_ok_def q' of_nat_diff)
    then show ?thesis by (rule sp_invI)
  next
    case False
    have q': "x = ?buf ! slot (s + of_nat a)" "q' = (ring \<sigma>)\<lparr>q_head := pack s (s + of_nat a + 1)\<rparr>"
      using p at ne r False steal_eq_real [OF at] by (auto simp: lrq_pop.simps sp_at_def Let_def)
    have "thieves_ok ?\<tau> s (Suc a)"
      by (rule thieves_ok_keep [of \<sigma> s a]) (use at False in \<open>auto simp: sp_at_def q'\<close>)
    then have "sp_at ?\<tau> s (Suc a) b"
      using at own ab split by (simp add: sp_at_def everywhere_def q' ac_simps)
    then show ?thesis by (rule sp_invI)
  qed
qed


lemma step_claim:
  assumes at: "sp_at \<sigma> s a b" and h: "unpack (q_head (ring \<sigma>)) = (r, r)"
    and k: "unat (src_tail - r) \<le> unat (q_tail (ring \<sigma>) - r)"
    and n: "n = unat (src_tail - r) - unat (src_tail - r) div 2" "n \<noteq> 0"
  shows "sp_at (\<sigma>\<lparr>ring := (ring \<sigma>)\<lparr>q_head := pack r (r + of_nat n)\<rparr>,
    thief := (thief \<sigma>)(i := T_Copy r n []), in_steal := ring_items (q_buffer (ring \<sigma>)) r n\<rparr>) s n b"
proof -
  have r: "r = s" "a = 0" using h head_unpack [OF at] steal_eq_real [OF at] by auto
  have "unat (q_tail (ring \<sigma>) - r) = b" using at idx_diff [of 0 b s] by (simp add: sp_at_def r)
  with k n have nb: "n \<le> b" by simp
  have own: "owner_ok (owner \<sigma>) (s + of_nat b) n b"
    using at nb n(2) r by (cases "owner \<sigma>") (auto simp: sp_at_def)
  have idle: "in_steal \<sigma> = []" "\<forall>i. thief \<sigma> i = T_Idle" using at r by (auto simp: sp_at_def thieves_ok_def)
  have "ring_items (q_buffer (ring \<sigma>)) s b
      = ring_items (q_buffer (ring \<sigma>)) s n @ ring_items (q_buffer (ring \<sigma>)) (s + of_nat n) (b - n)"
    using ring_items_add [of "q_buffer (ring \<sigma>)" s n "b - n"] nb by simp
  then show ?thesis
    using at own nb n(2) idle r by (simp add: sp_at_def everywhere_def thieves_ok_def)
qed

lemma active_thief:
  assumes "thieves_ok \<sigma> s a" "thief \<sigma> i = T_Copy first n c"
  shows "first = s \<and> (\<forall>j. j \<noteq> i \<longrightarrow> thief \<sigma> j = T_Idle) \<and> 0 < n \<and> n \<le> a
    \<and> in_steal \<sigma> = ring_items (q_buffer (ring \<sigma>)) s n \<and> length c \<le> n \<and> c = take (length c) (in_steal \<sigma>)"
  using assms unfolding thieves_ok_def by (metis thief_pc.distinct(1) thief_pc.inject)

lemma step_copy:
  assumes at: "sp_at \<sigma> s a b" and th: "thief \<sigma> i = T_Copy first n c" and l: "length c < n"
  shows "sp_at (\<sigma>\<lparr>thief := (thief \<sigma>)(i := T_Copy first n
    (c @ [q_buffer (ring \<sigma>) ! slot (first + of_nat (length c))]))\<rparr>) s a b"
proof -
  let ?c = "c @ [q_buffer (ring \<sigma>) ! slot (s + of_nat (length c))]"
  have "thieves_ok \<sigma> s a" using at by (simp add: sp_at_def)
  note act = active_thief [OF this th]
  have nth: "in_steal \<sigma> ! length c = q_buffer (ring \<sigma>) ! slot (s + of_nat (length c))"
    using act l by simp
  have tk: "take (Suc (length c)) (in_steal \<sigma>) = take (length c) (in_steal \<sigma>) @ [in_steal \<sigma> ! length c]"
    using act l by (intro take_Suc_conv_app_nth) simp
  have "?c = take (length ?c) (in_steal \<sigma>)" using tk nth act by (metis length_append_singleton)
  then have "thieves_ok (\<sigma>\<lparr>thief := (thief \<sigma>)(i := T_Copy s n ?c)\<rparr>) s a"
    unfolding thieves_ok_def using act l
    by (intro disjI2 exI [of _ i] exI [of _ n] exI [of _ ?c]) simp
  then show ?thesis using at act by (simp add: sp_at_def everywhere_def)
qed

lemma step_finish:
  assumes at: "sp_at \<sigma> s a b" and th: "thief \<sigma> i = T_Copy first n c" and l: "length c = n"
  shows "sp_at (\<sigma>\<lparr>thief := (thief \<sigma>)(i := T_Idle), ring := steal_finish (ring \<sigma>),
    delivered := delivered \<sigma> @ c, in_steal := []\<rparr>) (s + of_nat a) 0 (b - a)"
proof -
  have "thieves_ok \<sigma> s a" using at by (simp add: sp_at_def)
  note act = active_thief [OF this th]
  have c: "in_steal \<sigma> = c" using act l by (metis length_ring_items take_all_iff le_refl)
  have idx: "s + of_nat a + of_nat (b - a) = s + of_nat b" using at by (simp add: sp_at_def of_nat_diff)
  have own: "owner_ok (owner \<sigma>) (s + of_nat b) 0 (b - a)"
    using at act by (cases "owner \<sigma>") (auto simp: sp_at_def)
  have "b - a \<le> 256" using at by (auto simp: sp_at_def)
  then show ?thesis
    using at own act c
    by (simp add: sp_at_def everywhere_def thieves_ok_def steal_finish_def idx ac_simps)
qed

lemmas step_at = step_push_room step_push_store step_push_busy step_overflow_cas
  step_overflow_expose step_overflow_move step_overflow_batch step_claim step_copy step_finish

lemma step_inv: "sp_step \<sigma> \<tau> \<Longrightarrow> sp_inv \<sigma> \<Longrightarrow> sp_inv \<tau>"
proof (induction rule: sp_step.induct)
  case (pop \<sigma> s r x q')
  then show ?case using step_pop unfolding sp_inv_def [of \<sigma>] by metis
qed (unfold sp_inv_def, (metis step_at)+)

interpretation sp: invariant_system sp_init sp_step sp_inv
  by unfold_locales (auto intro: init_inv step_inv)

section \<open>What the protocol guarantees\<close>

definition ring_tasks :: "'t lrq \<Rightarrow> 't option list" where
  "ring_tasks q = (case unpack (q_head q) of (s, real) \<Rightarrow>
     ring_items (q_buffer q) real (unat (q_tail q - real)))"

lemma ring_tasks_at: "sp_at \<sigma> s a b \<Longrightarrow> ring_tasks (ring \<sigma>) = ring_items (q_buffer (ring \<sigma>)) (s + of_nat a) (b - a)"
  using idx_diff [of a b s] by (simp add: ring_tasks_def sp_at_def)

text \<open>
  C3. Whatever the interleaving of the owner and the thieves, every task pushed is in exactly one
  place (with its multiplicity): run or handed to a thief's worker, in the injection queue, claimed
  by the steal in progress, in the ring between \<^verbatim>\<open>real\<close> and \<^verbatim>\<open>tail\<close>, or in the
  owner's hands between two of its steps. No task is lost or run twice.
\<close>
theorem steal_protocol_conserves:
  assumes "reach sp_init sp_step \<sigma>"
  shows "mset (pushed \<sigma>) = mset (delivered \<sigma>) + mset (injection \<sigma>) + mset (in_steal \<sigma>)
    + mset (ring_tasks (ring \<sigma>)) + mset (owner_holds (q_buffer (ring \<sigma>)) (owner \<sigma>))"
proof -
  obtain s a b where at: "sp_at \<sigma> s a b"
    using sp.reach_inv [OF assms] unfolding sp_inv_def by blast
  then show ?thesis by (simp add: ring_tasks_at) (simp add: sp_at_def everywhere_def)
qed

text \<open>A run: the owner pushes task 7 and thief 3 claims it and has not copied it yet.\<close>

definition sp_demo :: "nat sp" where
  "sp_demo = \<lparr>ring = \<lparr>q_head = pack 0 1, q_tail = 1, q_buffer = (replicate 256 None)[0 := Some 7]\<rparr>,
     owner = O_Idle, thief = (\<lambda>_. T_Idle)(3 := T_Copy 0 1 []), injection = [], delivered = [],
     in_steal = [Some 7], pushed = [Some 7]\<rparr>"

lemma slot_0: "slot 0 = 0"
  by (simp add: slot_mod)

lemma sp_demo_reach: "reach sp_init sp_step sp_demo"
proof -
  define \<sigma> where "\<sigma> = (\<lambda>r o' th st pu. \<lparr>ring = r, owner = o', thief = th, injection = [], delivered = [],
    in_steal = st, pushed = pu\<rparr> :: nat sp)"
  define q where "q = (\<lparr>q_head = 0, q_tail = 1, q_buffer = (replicate 256 None)[0 := Some 7]\<rparr> :: nat lrq)"
  let ?q0 = "m_inner make_local_run_queue :: nat lrq" and ?idle = "\<lambda>_ :: nat. T_Idle :: nat thief_pc"
  have z: "unpack (0 :: u64) = (0, 0)" using unpack_pack [of 0 0] by (simp add: pack_def)
  have 0: "reach sp_init sp_step (\<sigma> ?q0 O_Idle ?idle [] [])"
    by (rule reach_init) (simp add: sp_init_def \<sigma>_def)
  have "sp_step (\<sigma> ?q0 O_Idle ?idle [] []) (\<sigma> ?q0 (O_Push (Some 7)) ?idle [] [Some 7])"
    using push_room [of "\<sigma> ?q0 O_Idle ?idle [] []" 0 0 "Some 7"]
    by (simp add: \<sigma>_def make_local_run_queue_def z queue_len_def LOCAL_QUEUE_CAPACITY_def)
  with 0 have 1: "reach sp_init sp_step (\<sigma> ?q0 (O_Push (Some 7)) ?idle [] [Some 7])" by (rule reach_step)
  have "push_back_finish (Some 7) (q_tail ?q0) ?q0 = q"
    by (simp add: make_local_run_queue_def push_back_finish_def slot_0 LOCAL_QUEUE_CAPACITY_def q_def)
  then have "sp_step (\<sigma> ?q0 (O_Push (Some 7)) ?idle [] [Some 7]) (\<sigma> q O_Idle ?idle [] [Some 7])"
    using push_store [of "\<sigma> ?q0 (O_Push (Some 7)) ?idle [] [Some 7]" "Some 7"] by (simp add: \<sigma>_def)
  with 1 have 2: "reach sp_init sp_step (\<sigma> q O_Idle ?idle [] [Some 7])" by (rule reach_step)
  have "ring_items (q_buffer q) 0 1 = [Some 7]" by (simp add: ring_items_def q_def slot_0)
  then have "sp_step (\<sigma> q O_Idle ?idle [] [Some 7]) sp_demo"
    using claim [of "\<sigma> q O_Idle ?idle [] [Some 7]" 3 0 0 1 1]
    by (simp add: \<sigma>_def sp_demo_def q_def z)
  with 2 show ?thesis by (rule reach_step)
qed

theorem steal_protocol_conserves_witness:
  "reach sp_init sp_step sp_demo \<and> mset (pushed sp_demo) = mset (delivered sp_demo)
    + mset (injection sp_demo) + mset (in_steal sp_demo) + mset (ring_tasks (ring sp_demo))
    + mset (owner_holds (q_buffer (ring sp_demo)) (owner sp_demo))"
  using steal_protocol_conserves [OF sp_demo_reach] sp_demo_reach by blast

text \<open>
  C4. At most one thief is between its claim and its finishing step, and what it has copied so far
  is a prefix of what it claimed, which the ring still holds: the owner never overwrites a slot a
  thief is reading, and never hands such a task out itself.
\<close>
theorem steal_exclusive:
  assumes "reach sp_init sp_step \<sigma>" "thief \<sigma> i = T_Copy first n c"
  shows "(\<forall>j. j \<noteq> i \<longrightarrow> thief \<sigma> j = T_Idle) \<and> 0 < n \<and> n \<le> LOCAL_QUEUE_CAPACITY
    \<and> in_steal \<sigma> = ring_items (q_buffer (ring \<sigma>)) first n \<and> c = take (length c) (in_steal \<sigma>)"
proof -
  obtain s a b where at: "sp_at \<sigma> s a b"
    using sp.reach_inv [OF assms(1)] unfolding sp_inv_def by blast
  then have "thieves_ok \<sigma> s a" "a \<le> 256" by (auto simp: sp_at_def)
  from active_thief [OF this(1) assms(2)] this(2) show ?thesis
    by (auto simp: LOCAL_QUEUE_CAPACITY_def)
qed

theorem steal_exclusive_witness:
  "reach sp_init sp_step sp_demo \<and> thief sp_demo 3 = T_Copy 0 1 []
    \<and> thief sp_demo 0 = T_Idle \<and> (1 :: nat) \<le> LOCAL_QUEUE_CAPACITY
    \<and> in_steal sp_demo = ring_items (q_buffer (ring sp_demo)) 0 1"
proof -
  have "thief sp_demo 3 = T_Copy 0 1 []" by (simp add: sp_demo_def)
  from steal_exclusive [OF sp_demo_reach this] this sp_demo_reach show ?thesis by auto
qed

end
