(* ===== verification/Scheduling.thy ===== *)
theory Scheduling
  imports Prelude
begin

text \<open>
  The scheduling state of a task and the protocol around it: \<^verbatim>\<open>SchedulingState\<close>
  (\<^verbatim>\<open>include/coro/detail/task_state.h\<close>), \<^verbatim>\<open>RelaxedState\<close>
  (\<^verbatim>\<open>include/coro/detail/relaxed_state.h\<close>), the compare-exchange loop of
  \<^verbatim>\<open>TaskBase::wake\<close> (\<^verbatim>\<open>src/task/task.cpp\<close>) and the transitions a worker makes around
  \<^verbatim>\<open>poll\<close>, which are the same text in \<^verbatim>\<open>worker_loop\<close>
  (\<^verbatim>\<open>src/runtime/work_stealing_executor.cpp\<close>) and in \<^verbatim>\<open>poll_task\<close>
  (\<^verbatim>\<open>src/runtime/current_thread_executor.cpp\<close>).

  Any number of threads run at once, each in the middle of \<^verbatim>\<open>schedule\<close>, \<^verbatim>\<open>wake\<close> or the
  worker's loop; a step is one atomic operation of one of them. All ready queues together are one
  multiset: which task a worker takes next does not matter here.
\<close>

section \<open>The state word\<close>

datatype SchedulingState = Idle | Running | Notified | RunningAndNotified | Done

text \<open>\<^verbatim>\<open>compare_exchange_strong\<close>: success, the caller's \<^verbatim>\<open>expected\<close> afterwards, the value.\<close>

definition compare_exchange :: "'s \<Rightarrow> 's \<Rightarrow> 's \<Rightarrow> bool \<times> 's \<times> 's" where
  "compare_exchange m_value expected desired =
     (if m_value \<noteq> expected then (False, m_value, m_value) else (True, expected, desired))"

text \<open>One pass of the loop of \<^verbatim>\<open>wake\<close>; \<open>WakeEnqueue\<close> goes on to \<^verbatim>\<open>enqueue\<close>.\<close>

datatype wake_outcome = WakeEnqueue | WakeReturn | WakeRetry SchedulingState

fun wake_iter :: "SchedulingState \<Rightarrow> SchedulingState \<Rightarrow> wake_outcome \<times> SchedulingState" where
  "wake_iter Idle s = (case compare_exchange s Idle Notified of
     (ok, expected, s) \<Rightarrow> (if ok then WakeEnqueue else WakeRetry expected, s))"
| "wake_iter Running s = (case compare_exchange s Running RunningAndNotified of
     (ok, expected, s) \<Rightarrow> (if ok then WakeReturn else WakeRetry expected, s))"
| "wake_iter Notified s = (WakeReturn, s)"
| "wake_iter RunningAndNotified s = (WakeReturn, s)"
| "wake_iter Done s = (WakeReturn, s)"

text \<open>The worker's transitions before and after \<^verbatim>\<open>poll\<close>; \<^verbatim>\<open>std::abort\<close> is a fault.\<close>

definition begin_poll :: "SchedulingState \<Rightarrow> fault + SchedulingState" where
  "begin_poll s = (case compare_exchange s Notified Running of
     (ok, expected, s) \<Rightarrow> if ok then Inr s else Inl Aborted)"

datatype after_poll = Parked | Renotify SchedulingState

definition end_poll_pending :: "SchedulingState \<Rightarrow> fault + after_poll \<times> SchedulingState" where
  "end_poll_pending s = (case compare_exchange s Running Idle of
     (ok, expected, s) \<Rightarrow>
       if ok then Inr (Parked, s)
       else if expected \<noteq> RunningAndNotified then Inl Aborted
       else Inr (Renotify expected, s))"

definition renotify :: "SchedulingState \<Rightarrow> SchedulingState \<Rightarrow> fault + SchedulingState" where
  "renotify expected s = (case compare_exchange s expected Notified of
     (ok, expected, s) \<Rightarrow> if ok then Inr s else Inl Aborted)"

section \<open>Threads and steps\<close>

text \<open>
  Where a thread is. The number in \<open>W_Try\<close> and \<open>W_Enqueue\<close> is how many polls of the task had begun
  when this call of \<^verbatim>\<open>wake\<close> started; it is only recorded.
\<close>

datatype pc =
    S_Enqueue nat                    \<comment> \<open>in \<^verbatim>\<open>schedule\<close>, before \<^verbatim>\<open>enqueue\<close>\<close>
  | W_Try nat nat SchedulingState    \<comment> \<open>in \<^verbatim>\<open>wake\<close>, with its \<^verbatim>\<open>expected\<close>\<close>
  | W_Enqueue nat nat                \<comment> \<open>in \<^verbatim>\<open>wake\<close>, compare-exchange won\<close>
  | R_Idle                           \<comment> \<open>a worker looking for a task\<close>
  | R_Got nat
  | R_Polling nat
  | R_Polled nat bool                \<comment> \<open>\<^verbatim>\<open>poll\<close> has returned \<^verbatim>\<open>done\<close>\<close>
  | R_Renotify nat SchedulingState
  | R_Requeue nat

record sched =
  scheduling_state :: "nat \<Rightarrow> SchedulingState"
  spawned :: "nat set"
  ready :: "nat multiset"
  threads :: "pc multiset"
  polls :: "nat \<Rightarrow> nat"              \<comment> \<open>how often each task's poll has begun\<close>
  returned :: "(nat \<times> nat) set"      \<comment> \<open>calls of \<^verbatim>\<open>wake\<close> that have returned\<close>
  aborted :: bool

definition set_state :: "nat \<Rightarrow> SchedulingState \<Rightarrow> sched \<Rightarrow> sched" where
  "set_state t s \<sigma> = \<sigma>\<lparr>scheduling_state := (scheduling_state \<sigma>)(t := s)\<rparr>"

definition sched_init :: "sched \<Rightarrow> bool" where
  "sched_init \<sigma> \<longleftrightarrow> (\<exists>n. \<sigma> = \<lparr>scheduling_state = (\<lambda>_. Idle), spawned = {}, ready = {#},
     threads = replicate_mset n R_Idle, polls = (\<lambda>_. 0), returned = {}, aborted = False\<rparr>)"

inductive sched_step :: "sched \<Rightarrow> sched \<Rightarrow> bool" where
  schedule: "t \<notin> spawned \<sigma> \<Longrightarrow>
    sched_step \<sigma> (set_state t Notified (\<sigma>\<lparr>spawned := insert t (spawned \<sigma>),
      threads := add_mset (S_Enqueue t) (threads \<sigma>)\<rparr>))"
| schedule_push: "threads \<sigma> = add_mset (S_Enqueue t) T \<Longrightarrow>
    sched_step \<sigma> (\<sigma>\<lparr>threads := T, ready := add_mset t (ready \<sigma>)\<rparr>)"
| wake_call: "t \<in> spawned \<sigma> \<Longrightarrow>
    sched_step \<sigma> (\<sigma>\<lparr>threads := add_mset (W_Try t (polls \<sigma> t) Idle) (threads \<sigma>)\<rparr>)"
| wake_retry: "threads \<sigma> = add_mset (W_Try t n expected) T \<Longrightarrow>
    wake_iter expected (scheduling_state \<sigma> t) = (WakeRetry e, s) \<Longrightarrow>
    sched_step \<sigma> (set_state t s (\<sigma>\<lparr>threads := add_mset (W_Try t n e) T\<rparr>))"
| wake_return: "threads \<sigma> = add_mset (W_Try t n expected) T \<Longrightarrow>
    wake_iter expected (scheduling_state \<sigma> t) = (WakeReturn, s) \<Longrightarrow>
    sched_step \<sigma> (set_state t s (\<sigma>\<lparr>threads := T, returned := insert (t, n) (returned \<sigma>)\<rparr>))"
| wake_win: "threads \<sigma> = add_mset (W_Try t n expected) T \<Longrightarrow>
    wake_iter expected (scheduling_state \<sigma> t) = (WakeEnqueue, s) \<Longrightarrow>
    sched_step \<sigma> (set_state t s (\<sigma>\<lparr>threads := add_mset (W_Enqueue t n) T\<rparr>))"
| wake_push: "threads \<sigma> = add_mset (W_Enqueue t n) T \<Longrightarrow>
    sched_step \<sigma> (\<sigma>\<lparr>threads := T, ready := add_mset t (ready \<sigma>),
      returned := insert (t, n) (returned \<sigma>)\<rparr>)"
| take_task: "threads \<sigma> = add_mset R_Idle T \<Longrightarrow> ready \<sigma> = add_mset t Q \<Longrightarrow>
    sched_step \<sigma> (\<sigma>\<lparr>threads := add_mset (R_Got t) T, ready := Q\<rparr>)"
| poll_begin: "threads \<sigma> = add_mset (R_Got t) T \<Longrightarrow> begin_poll (scheduling_state \<sigma> t) = Inr s \<Longrightarrow>
    sched_step \<sigma> (set_state t s (\<sigma>\<lparr>threads := add_mset (R_Polling t) T,
      polls := (polls \<sigma>)(t := Suc (polls \<sigma> t))\<rparr>))"
| poll_begin_abort: "threads \<sigma> = add_mset (R_Got t) T \<Longrightarrow> begin_poll (scheduling_state \<sigma> t) = Inl f \<Longrightarrow>
    sched_step \<sigma> (\<sigma>\<lparr>aborted := True\<rparr>)"
| poll_return: "threads \<sigma> = add_mset (R_Polling t) T \<Longrightarrow>
    sched_step \<sigma> (\<sigma>\<lparr>threads := add_mset (R_Polled t done) T\<rparr>)"
| poll_done: "threads \<sigma> = add_mset (R_Polled t True) T \<Longrightarrow>
    sched_step \<sigma> (set_state t Done (\<sigma>\<lparr>threads := add_mset R_Idle T\<rparr>))"
| poll_park: "threads \<sigma> = add_mset (R_Polled t False) T \<Longrightarrow>
    end_poll_pending (scheduling_state \<sigma> t) = Inr (Parked, s) \<Longrightarrow>
    sched_step \<sigma> (set_state t s (\<sigma>\<lparr>threads := add_mset R_Idle T\<rparr>))"
| poll_woken: "threads \<sigma> = add_mset (R_Polled t False) T \<Longrightarrow>
    end_poll_pending (scheduling_state \<sigma> t) = Inr (Renotify e, s) \<Longrightarrow>
    sched_step \<sigma> (set_state t s (\<sigma>\<lparr>threads := add_mset (R_Renotify t e) T\<rparr>))"
| poll_end_abort: "threads \<sigma> = add_mset (R_Polled t False) T \<Longrightarrow>
    end_poll_pending (scheduling_state \<sigma> t) = Inl f \<Longrightarrow>
    sched_step \<sigma> (\<sigma>\<lparr>aborted := True\<rparr>)"
| renotify_ok: "threads \<sigma> = add_mset (R_Renotify t e) T \<Longrightarrow> renotify e (scheduling_state \<sigma> t) = Inr s \<Longrightarrow>
    sched_step \<sigma> (set_state t s (\<sigma>\<lparr>threads := add_mset (R_Requeue t) T\<rparr>))"
| renotify_abort: "threads \<sigma> = add_mset (R_Renotify t e) T \<Longrightarrow> renotify e (scheduling_state \<sigma> t) = Inl f \<Longrightarrow>
    sched_step \<sigma> (\<sigma>\<lparr>aborted := True\<rparr>)"
| requeue: "threads \<sigma> = add_mset (R_Requeue t) T \<Longrightarrow>
    sched_step \<sigma> (\<sigma>\<lparr>threads := add_mset R_Idle T, ready := add_mset t (ready \<sigma>)\<rparr>)"

section \<open>The invariant\<close>

text \<open>How many times a thread holds a task that is in no queue, and how many times it polls one.\<close>

fun holds :: "nat \<Rightarrow> pc \<Rightarrow> nat" where
  "holds t (S_Enqueue u) = of_bool (u = t)"
| "holds t (W_Enqueue u n) = of_bool (u = t)"
| "holds t (R_Got u) = of_bool (u = t)"
| "holds t (R_Requeue u) = of_bool (u = t)"
| "holds t _ = 0"

fun is_polling :: "nat \<Rightarrow> pc \<Rightarrow> nat" where
  "is_polling t (R_Polling u) = of_bool (u = t)"
| "is_polling t (R_Polled u d) = of_bool (u = t)"
| "is_polling t (R_Renotify u e) = of_bool (u = t)"
| "is_polling t _ = 0"

definition held :: "nat \<Rightarrow> sched \<Rightarrow> nat" where
  "held t \<sigma> = count (ready \<sigma>) t + (\<Sum>p\<in>#threads \<sigma>. holds t p)"

definition pollers :: "nat \<Rightarrow> sched \<Rightarrow> nat" where
  "pollers t \<sigma> = (\<Sum>p\<in>#threads \<sigma>. is_polling t p)"

text \<open>A poll of \<open>t\<close> has begun after the first \<open>n\<close>, or will, unless the task is done.\<close>

definition will_poll :: "nat \<Rightarrow> nat \<Rightarrow> sched \<Rightarrow> bool" where
  "will_poll t n \<sigma> \<longleftrightarrow> n \<le> polls \<sigma> t
     \<and> (n < polls \<sigma> t \<or> scheduling_state \<sigma> t \<in> {Notified, RunningAndNotified, Done})"

fun pc_ok :: "sched \<Rightarrow> pc \<Rightarrow> bool" where
  "pc_ok \<sigma> (S_Enqueue t) = (t \<in> spawned \<sigma>)"
| "pc_ok \<sigma> (W_Try t n e) = (t \<in> spawned \<sigma> \<and> n \<le> polls \<sigma> t
     \<and> (e \<in> {Notified, RunningAndNotified, Done} \<longrightarrow> will_poll t n \<sigma>))"
| "pc_ok \<sigma> (W_Enqueue t n) = (t \<in> spawned \<sigma> \<and> will_poll t n \<sigma>)"
| "pc_ok \<sigma> (R_Renotify t e) = (e = RunningAndNotified \<and> scheduling_state \<sigma> t = RunningAndNotified)"
| "pc_ok \<sigma> _ = True"

definition tokens_ok :: "sched \<Rightarrow> bool" where
  "tokens_ok \<sigma> \<longleftrightarrow> (\<forall>t. held t \<sigma> = of_bool (t \<in> spawned \<sigma> \<and> scheduling_state \<sigma> t = Notified)
     \<and> pollers t \<sigma> = of_bool (t \<in> spawned \<sigma> \<and> scheduling_state \<sigma> t \<in> {Running, RunningAndNotified}))"

definition sched_inv :: "sched \<Rightarrow> bool" where
  "sched_inv \<sigma> \<longleftrightarrow> tokens_ok \<sigma> \<and> (\<forall>p. p \<in># threads \<sigma> \<longrightarrow> pc_ok \<sigma> p)
     \<and> (\<forall>t n. (t, n) \<in> returned \<sigma> \<longrightarrow> will_poll t n \<sigma>)
     \<and> (\<forall>t. t \<notin> spawned \<sigma> \<longrightarrow> scheduling_state \<sigma> t = Idle \<and> polls \<sigma> t = 0) \<and> \<not> aborted \<sigma>"


lemma Suc_of_bool [simp]: "Suc n = of_bool b \<longleftrightarrow> b \<and> n = 0"
  by (cases b) auto

lemma tokensD:
  assumes "sched_inv \<sigma>"
  shows "held t \<sigma> = of_bool (t \<in> spawned \<sigma> \<and> scheduling_state \<sigma> t = Notified)"
    and "pollers t \<sigma> = of_bool (t \<in> spawned \<sigma> \<and> scheduling_state \<sigma> t \<in> {Running, RunningAndNotified})"
  using assms by (simp_all add: sched_inv_def tokens_ok_def)

lemma threadD: "sched_inv \<sigma> \<Longrightarrow> threads \<sigma> = add_mset p T \<Longrightarrow> pc_ok \<sigma> p"
  by (simp add: sched_inv_def)

text \<open>What the position of a thread says about the state of its task.\<close>

lemma holder_state:
  assumes "sched_inv \<sigma>" "threads \<sigma> = add_mset p T" "holds t p = 1"
  shows "t \<in> spawned \<sigma> \<and> scheduling_state \<sigma> t = Notified"
  using tokensD(1) [OF assms(1), of t] assms(2,3) by (auto simp: held_def split: if_splits)

lemma poller_state:
  assumes "sched_inv \<sigma>" "threads \<sigma> = add_mset p T" "is_polling t p = 1"
  shows "t \<in> spawned \<sigma> \<and> scheduling_state \<sigma> t \<in> {Running, RunningAndNotified}"
    and "(\<Sum>q\<in>#T. is_polling t q) = 0"
  using tokensD(2) [OF assms(1), of t] assms(2,3) by (auto simp: pollers_def split: if_splits)

lemma ready_state: "sched_inv \<sigma> \<Longrightarrow> ready \<sigma> = add_mset t Q \<Longrightarrow> scheduling_state \<sigma> t = Notified"
  using tokensD(1) [of \<sigma> t] by (auto simp: held_def split: if_splits)

text \<open>The shape of every step: one thread moves, the others stay, and what was promised stays so.\<close>

definition advance :: "sched \<Rightarrow> sched \<Rightarrow> bool" where
  "advance \<sigma> \<tau> \<longleftrightarrow> spawned \<sigma> \<subseteq> spawned \<tau>
     \<and> (\<forall>t. polls \<sigma> t \<le> polls \<tau> t \<and> (\<forall>n. will_poll t n \<sigma> \<longrightarrow> will_poll t n \<tau>))"

lemma pc_ok_advance:
  assumes "advance \<sigma> \<tau>" "pc_ok \<sigma> p"
    and "\<And>t e. p = R_Renotify t e \<Longrightarrow> scheduling_state \<tau> t = scheduling_state \<sigma> t"
  shows "pc_ok \<tau> p"
  using assms by (cases p) (auto simp: advance_def intro: order_trans)

lemma sched_inv_step:
  assumes inv: "sched_inv \<sigma>" and thr: "threads \<sigma> = P + T" "threads \<tau> = P' + T"
    and adv: "advance \<sigma> \<tau>" and tok: "tokens_ok \<tau>"
    and new: "\<And>p. p \<in># P' \<Longrightarrow> pc_ok \<tau> p"
    and ren: "\<And>t e. R_Renotify t e \<in># T \<Longrightarrow> scheduling_state \<tau> t = scheduling_state \<sigma> t"
    and ret: "\<And>t n. (t, n) \<in> returned \<tau> \<Longrightarrow> (t, n) \<in> returned \<sigma> \<or> will_poll t n \<tau>"
    and uns: "\<And>t. t \<notin> spawned \<tau> \<Longrightarrow> scheduling_state \<tau> t = scheduling_state \<sigma> t \<and> polls \<tau> t = polls \<sigma> t"
    and ab: "aborted \<tau> = aborted \<sigma>"
  shows "sched_inv \<tau>"
  unfolding sched_inv_def
proof (intro conjI allI impI)
  show "tokens_ok \<tau>" by (rule tok)
  show "pc_ok \<tau> p" if "p \<in># threads \<tau>" for p
  proof (cases "p \<in># P'")
    case False
    with that thr have "p \<in># T" "pc_ok \<sigma> p" using inv by (auto simp: sched_inv_def)
    then show ?thesis using pc_ok_advance [OF adv] ren by blast
  qed (rule new)
  show "will_poll t n \<tau>" if "(t, n) \<in> returned \<tau>" for t n
    using ret [OF that] inv adv by (auto simp: sched_inv_def advance_def)
  show "scheduling_state \<tau> t = Idle" "polls \<tau> t = 0" if "t \<notin> spawned \<tau>" for t
    using that uns [OF that] inv adv by (auto simp: sched_inv_def advance_def)
  show "\<not> aborted \<tau>" using ab inv by (simp add: sched_inv_def)
qed

lemma renotify_polling:
  assumes "(\<Sum>q\<in>#T. is_polling t q) = 0" "R_Renotify u e \<in># T"
  shows "u \<noteq> t"
proof
  assume "u = t"
  obtain T' where "T = add_mset (R_Renotify u e) T'" using assms(2) by (metis mset_add)
  with assms(1) \<open>u = t\<close> show False by simp
qed

lemmas sched_simps = held_def pollers_def set_state_def will_poll_def advance_def

text \<open>A step of \<^verbatim>\<open>wake\<close> that changes nothing or marks the task.\<close>

lemma wake_iter_cases:
  assumes "wake_iter expected s = (w, s')"
  shows "w = WakeEnqueue \<and> s = Idle \<and> s' = Notified
    \<or> w = WakeReturn \<and> s = Running \<and> s' = RunningAndNotified
    \<or> w = WakeReturn \<and> s' = s \<and> expected \<in> {Notified, RunningAndNotified, Done}
    \<or> w = WakeRetry s \<and> s' = s"
  using assms by (cases expected) (auto simp: compare_exchange_def split: if_splits)

lemma step_schedule:
  assumes inv: "sched_inv \<sigma>" and t: "t \<notin> spawned \<sigma>"
  shows "sched_inv (set_state t Notified (\<sigma>\<lparr>spawned := insert t (spawned \<sigma>),
    threads := add_mset (S_Enqueue t) (threads \<sigma>)\<rparr>))" (is "sched_inv ?\<tau>")
proof (rule sched_inv_step [OF inv, of "{#}" "threads \<sigma>" _ "{#S_Enqueue t#}"])
  show "advance \<sigma> ?\<tau>" by (auto simp: sched_simps)
  show "tokens_ok ?\<tau>"
    using tokensD [OF inv] t by (auto simp: tokens_ok_def sched_simps)
  fix u e assume "R_Renotify u e \<in># threads \<sigma>"
  then have "scheduling_state \<sigma> u = RunningAndNotified" using inv by (auto simp: sched_inv_def)
  with inv t show "scheduling_state ?\<tau> u = scheduling_state \<sigma> u"
    by (auto simp: sched_inv_def sched_simps)
qed (use t in \<open>auto simp: sched_simps\<close>)

lemma step_push:
  assumes inv: "sched_inv \<sigma>" and p: "threads \<sigma> = add_mset p T" "holds t p = 1" "\<And>u. u \<noteq> t \<Longrightarrow> holds u p = 0"
    "\<And>u. is_polling u p = 0" and P: "P' = {#} \<or> P' = {#R_Idle#}"
    and R: "R = returned \<sigma> \<or> (\<exists>n. will_poll t n \<sigma> \<and> R = insert (t, n) (returned \<sigma>))"
  shows "sched_inv (\<sigma>\<lparr>threads := P' + T, ready := add_mset t (ready \<sigma>), returned := R\<rparr>)" (is "sched_inv ?\<tau>")
proof (rule sched_inv_step [OF inv, of "{#p#}" T _ P'])
  show "tokens_ok ?\<tau>"
    unfolding tokens_ok_def
  proof
    fix u
    show "held u ?\<tau> = of_bool (u \<in> spawned ?\<tau> \<and> scheduling_state ?\<tau> u = Notified)
      \<and> pollers u ?\<tau> = of_bool (u \<in> spawned ?\<tau> \<and> scheduling_state ?\<tau> u \<in> {Running, RunningAndNotified})"
      using P tokensD [OF inv, of u] p by (cases "u = t"; elim disjE) (simp_all add: held_def pollers_def)
  qed
  show "(u, m) \<in> returned \<sigma> \<or> will_poll u m ?\<tau>" if "(u, m) \<in> returned ?\<tau>" for u m
    using that R by (auto simp: will_poll_def)
qed (use p P in \<open>auto simp: sched_simps\<close>)


lemma step_wake_call:
  assumes inv: "sched_inv \<sigma>" and t: "t \<in> spawned \<sigma>"
  shows "sched_inv (\<sigma>\<lparr>threads := add_mset (W_Try t (polls \<sigma> t) Idle) (threads \<sigma>)\<rparr>)" (is "sched_inv ?\<tau>")
proof (rule sched_inv_step [OF inv, of "{#}" "threads \<sigma>" _ "{#W_Try t (polls \<sigma> t) Idle#}"])
  show "tokens_ok ?\<tau>" using tokensD [OF inv] by (simp add: tokens_ok_def sched_simps)
qed (use t in \<open>auto simp: sched_simps\<close>)

lemma renotify_state: "sched_inv \<sigma> \<Longrightarrow> threads \<sigma> = P + T \<Longrightarrow> R_Renotify u e \<in># T \<Longrightarrow>
  scheduling_state \<sigma> u = RunningAndNotified"
  by (auto simp: sched_inv_def)

lemma step_wake_iter:
  assumes inv: "sched_inv \<sigma>" and p: "threads \<sigma> = add_mset (W_Try t n expected) T"
    and w: "wake_iter expected (scheduling_state \<sigma> t) = (w, s)"
    and P: "P' = (case w of WakeEnqueue \<Rightarrow> {#W_Enqueue t n#} | WakeReturn \<Rightarrow> {#} | WakeRetry e \<Rightarrow> {#W_Try t n e#})"
    and R: "R = (if w = WakeReturn then insert (t, n) (returned \<sigma>) else returned \<sigma>)"
  shows "sched_inv (set_state t s (\<sigma>\<lparr>threads := P' + T, returned := R\<rparr>))" (is "sched_inv ?\<tau>")
proof (rule sched_inv_step [OF inv, of "{#W_Try t n expected#}" T _ P'])
  note cs = wake_iter_cases [OF w]
  have ok: "t \<in> spawned \<sigma>" "n \<le> polls \<sigma> t" "expected \<in> {Notified, RunningAndNotified, Done} \<Longrightarrow> will_poll t n \<sigma>"
    using threadD [OF inv p] by auto
  show "advance \<sigma> ?\<tau>" using cs by (auto simp: sched_simps)
  show "tokens_ok ?\<tau>"
    unfolding tokens_ok_def
  proof
    fix u
    show "held u ?\<tau> = of_bool (u \<in> spawned ?\<tau> \<and> scheduling_state ?\<tau> u = Notified)
      \<and> pollers u ?\<tau> = of_bool (u \<in> spawned ?\<tau> \<and> scheduling_state ?\<tau> u \<in> {Running, RunningAndNotified})"
      using cs tokensD [OF inv, of u] p P ok(1)
      by (cases "u = t"; elim disjE) (simp_all add: sched_simps)
  qed
  show "pc_ok ?\<tau> q" if "q \<in># P'" for q
    using cs that P ok by (elim disjE) (auto simp: sched_simps)
  show "scheduling_state ?\<tau> u = scheduling_state \<sigma> u" if "R_Renotify u e \<in># T" for u e
    using cs renotify_state [OF inv, of "{#W_Try t n expected#}" T u e] that p by (auto simp: sched_simps)
  show "(u, m) \<in> returned \<sigma> \<or> will_poll u m ?\<tau>" if "(u, m) \<in> returned ?\<tau>" for u m
    using that cs R ok by (auto simp: sched_simps split: if_splits)
qed (use p threadD [OF inv p] in \<open>auto simp: sched_simps\<close>)


lemma step_take:
  assumes inv: "sched_inv \<sigma>" and p: "threads \<sigma> = add_mset R_Idle T" and q: "ready \<sigma> = add_mset t Q"
  shows "sched_inv (\<sigma>\<lparr>threads := add_mset (R_Got t) T, ready := Q\<rparr>)" (is "sched_inv ?\<tau>")
proof (rule sched_inv_step [OF inv, of "{#R_Idle#}" T _ "{#R_Got t#}"])
  have "held u ?\<tau> = held u \<sigma>" "pollers u ?\<tau> = pollers u \<sigma>" for u
    using p q by (simp_all add: held_def pollers_def)
  then show "tokens_ok ?\<tau>" using inv by (simp add: tokens_ok_def sched_inv_def)
qed (use p in \<open>auto simp: sched_simps\<close>)

text \<open>A worker moves from \<open>p\<close> to \<open>p'\<close> and, as the only one at \<open>t\<close>, sets its state.\<close>

lemma step_worker:
  assumes inv: "sched_inv \<sigma>" and p: "threads \<sigma> = add_mset p T"
    and only: "\<And>u e. R_Renotify u e \<in># T \<Longrightarrow> u \<noteq> t"
    and t: "t \<in> spawned \<sigma>"
    and tok: "\<And>u. u \<noteq> t \<Longrightarrow> holds u p = holds u p' \<and> is_polling u p = is_polling u p'"
      "held t \<tau> = of_bool (s = Notified)" "pollers t \<tau> = of_bool (s \<in> {Running, RunningAndNotified})"
    and \<tau>: "\<tau> = set_state t s (\<sigma>\<lparr>threads := add_mset p' T, polls := N\<rparr>)"
    and N: "N = polls \<sigma> \<or> N = (polls \<sigma>)(t := Suc (polls \<sigma> t))"
    and wp: "\<And>n. will_poll t n \<sigma> \<Longrightarrow> will_poll t n \<tau>"
    and ok: "pc_ok \<tau> p'"
  shows "sched_inv \<tau>"
proof (rule sched_inv_step [OF inv, of "{#p#}" T _ "{#p'#}"])
  show "advance \<sigma> \<tau>"
    unfolding advance_def
  proof (intro conjI allI impI)
    show "will_poll u n \<tau>" if "will_poll u n \<sigma>" for u n
      using that wp N by (cases "u = t") (auto simp: \<tau> sched_simps)
  qed (use N in \<open>auto simp: \<tau> set_state_def\<close>)
  show "tokens_ok \<tau>"
    unfolding tokens_ok_def
  proof
    fix u
    show "held u \<tau> = of_bool (u \<in> spawned \<tau> \<and> scheduling_state \<tau> u = Notified)
      \<and> pollers u \<tau> = of_bool (u \<in> spawned \<tau> \<and> scheduling_state \<tau> u \<in> {Running, RunningAndNotified})"
    proof (cases "u = t")
      case True
      then show ?thesis using tok(2,3) t by (simp add: \<tau> set_state_def)
    next
      case False
      then show ?thesis using tokensD [OF inv, of u] tok(1) [OF False] p by (simp add: \<tau> sched_simps)
    qed
  qed
  show "scheduling_state \<tau> u = scheduling_state \<sigma> u" if "R_Renotify u e \<in># T" for u e
    using only [OF that] by (simp add: \<tau> set_state_def)
  show "scheduling_state \<tau> u = scheduling_state \<sigma> u \<and> polls \<tau> u = polls \<sigma> u" if "u \<notin> spawned \<tau>" for u
    using that t N by (auto simp: \<tau> set_state_def)
qed (use p ok in \<open>auto simp: \<tau> set_state_def\<close>)

lemma step_poll_begin:
  assumes inv: "sched_inv \<sigma>" and p: "threads \<sigma> = add_mset (R_Got t) T"
  shows "begin_poll (scheduling_state \<sigma> t) = Inr Running"
    and "sched_inv (set_state t Running (\<sigma>\<lparr>threads := add_mset (R_Polling t) T,
      polls := (polls \<sigma>)(t := Suc (polls \<sigma> t))\<rparr>))"
proof -
  have st: "t \<in> spawned \<sigma>" "scheduling_state \<sigma> t = Notified" using holder_state [OF inv p] by simp_all
  then show "begin_poll (scheduling_state \<sigma> t) = Inr Running" by (simp add: begin_poll_def compare_exchange_def)
  have ren: "u \<noteq> t" if "R_Renotify u e \<in># T" for u e
    using renotify_state [OF inv, of "{#R_Got t#}" T u e] p that st by auto
  show "sched_inv (set_state t Running (\<sigma>\<lparr>threads := add_mset (R_Polling t) T,
      polls := (polls \<sigma>)(t := Suc (polls \<sigma> t))\<rparr>))"
    by (rule step_worker [OF inv p _ _ _ _ _ refl, where N = "(polls \<sigma>)(t := Suc (polls \<sigma> t))"])
      (use ren st p tokensD [OF inv, of t] in \<open>auto simp: sched_simps\<close>)
qed


lemma polling_alone:
  assumes "sched_inv \<sigma>" "threads \<sigma> = add_mset p T" "is_polling t p = 1" "R_Renotify u e \<in># T"
  shows "u \<noteq> t"
  using renotify_polling [OF poller_state(2) [OF assms(1-3)] assms(4)] .

lemma step_poll_return:
  assumes inv: "sched_inv \<sigma>" and p: "threads \<sigma> = add_mset (R_Polling t) T"
  shows "sched_inv (\<sigma>\<lparr>threads := add_mset (R_Polled t d) T\<rparr>)" (is "sched_inv ?\<tau>")
proof (rule sched_inv_step [OF inv, of "{#R_Polling t#}" T _ "{#R_Polled t d#}"])
  have "held u ?\<tau> = held u \<sigma>" "pollers u ?\<tau> = pollers u \<sigma>" for u
    using p by (simp_all add: held_def pollers_def)
  then show "tokens_ok ?\<tau>" using inv by (simp add: tokens_ok_def sched_inv_def)
qed (use p in \<open>auto simp: sched_simps\<close>)

lemma step_poll_done:
  assumes inv: "sched_inv \<sigma>" and p: "threads \<sigma> = add_mset (R_Polled t True) T"
  shows "sched_inv (set_state t Done (\<sigma>\<lparr>threads := add_mset R_Idle T\<rparr>))"
proof -
  have st: "t \<in> spawned \<sigma>" "scheduling_state \<sigma> t \<in> {Running, RunningAndNotified}"
    using poller_state(1) [OF inv p] by simp_all
  show ?thesis
    by (rule step_worker [OF inv p, where N = "polls \<sigma>"])
      (use polling_alone [OF inv p, of t, simplified] st p tokensD [OF inv, of t] poller_state(2) [OF inv p, of t]
        in \<open>auto simp: sched_simps\<close>)
qed

lemma step_poll_pending:
  assumes inv: "sched_inv \<sigma>" and p: "threads \<sigma> = add_mset (R_Polled t False) T"
  shows "end_poll_pending (scheduling_state \<sigma> t) \<noteq> Inl f"
    and "end_poll_pending (scheduling_state \<sigma> t) = Inr (Parked, s) \<Longrightarrow>
      sched_inv (set_state t s (\<sigma>\<lparr>threads := add_mset R_Idle T\<rparr>))"
    and "end_poll_pending (scheduling_state \<sigma> t) = Inr (Renotify e, s) \<Longrightarrow>
      sched_inv (set_state t s (\<sigma>\<lparr>threads := add_mset (R_Renotify t e) T\<rparr>))"
proof -
  have st: "t \<in> spawned \<sigma>" "scheduling_state \<sigma> t = Running \<or> scheduling_state \<sigma> t = RunningAndNotified"
    using poller_state(1) [OF inv p] by simp_all
  note facts = polling_alone [OF inv p, of t, simplified] tokensD [OF inv, of t] poller_state(2) [OF inv p, of t] p
  show "end_poll_pending (scheduling_state \<sigma> t) \<noteq> Inl f"
    using st by (auto simp: end_poll_pending_def compare_exchange_def)
  show "sched_inv (set_state t s (\<sigma>\<lparr>threads := add_mset R_Idle T\<rparr>))"
    if "end_poll_pending (scheduling_state \<sigma> t) = Inr (Parked, s)"
  proof -
    have "scheduling_state \<sigma> t = Running" "s = Idle"
      using that by (auto simp: end_poll_pending_def compare_exchange_def split: if_splits)
    with st facts show ?thesis
      by (intro step_worker [OF inv p, where N = "polls \<sigma>"]) (auto simp: sched_simps)
  qed
  show "sched_inv (set_state t s (\<sigma>\<lparr>threads := add_mset (R_Renotify t e) T\<rparr>))"
    if "end_poll_pending (scheduling_state \<sigma> t) = Inr (Renotify e, s)"
  proof -
    have "scheduling_state \<sigma> t = RunningAndNotified" "s = RunningAndNotified" "e = RunningAndNotified"
      using that by (auto simp: end_poll_pending_def compare_exchange_def split: if_splits)
    with st facts show ?thesis
      by (intro step_worker [OF inv p, where N = "polls \<sigma>"]) (auto simp: sched_simps)
  qed
qed

lemma step_renotify:
  assumes inv: "sched_inv \<sigma>" and p: "threads \<sigma> = add_mset (R_Renotify t e) T"
  shows "renotify e (scheduling_state \<sigma> t) = Inr Notified"
    and "sched_inv (set_state t Notified (\<sigma>\<lparr>threads := add_mset (R_Requeue t) T\<rparr>))"
proof -
  have st: "t \<in> spawned \<sigma>" "scheduling_state \<sigma> t = RunningAndNotified" "e = RunningAndNotified"
    using threadD [OF inv p] poller_state(1) [OF inv p, of t] by simp_all
  then show "renotify e (scheduling_state \<sigma> t) = Inr Notified" by (simp add: renotify_def compare_exchange_def)
  show "sched_inv (set_state t Notified (\<sigma>\<lparr>threads := add_mset (R_Requeue t) T\<rparr>))"
    by (rule step_worker [OF inv p, where N = "polls \<sigma>"])
      (use polling_alone [OF inv p, of t, simplified] st p tokensD [OF inv, of t] poller_state(2) [OF inv p, of t]
        in \<open>auto simp: sched_simps\<close>)
qed


lemma sched_init_inv: "sched_init \<sigma> \<Longrightarrow> sched_inv \<sigma>"
  by (auto simp: sched_init_def sched_inv_def tokens_ok_def held_def pollers_def in_replicate_mset split: if_splits)

lemma sched_step_inv: "sched_step \<sigma> \<tau> \<Longrightarrow> sched_inv \<sigma> \<Longrightarrow> sched_inv \<tau>"
proof (induction rule: sched_step.induct)
  case (schedule_push \<sigma> t T)
  then show ?case using step_push [of \<sigma> "S_Enqueue t" T t "{#}" "returned \<sigma>"] by simp
next
  case (wake_retry \<sigma> t n expected T e s)
  then show ?case using step_wake_iter [of \<sigma> t n expected T "WakeRetry e" s] by simp
next
  case (wake_return \<sigma> t n expected T s)
  then show ?case using step_wake_iter [of \<sigma> t n expected T WakeReturn s] by simp
next
  case (wake_win \<sigma> t n expected T s)
  then show ?case using step_wake_iter [of \<sigma> t n expected T WakeEnqueue s] by simp
next
  case (wake_push \<sigma> t n T)
  have "will_poll t n \<sigma>" using threadD [OF wake_push(2,1)] by simp
  then show ?case
    using wake_push step_push [of \<sigma> "W_Enqueue t n" T t "{#}" "insert (t, n) (returned \<sigma>)"] by auto
next
  case (poll_begin \<sigma> t T s)
  then show ?case using step_poll_begin [OF poll_begin(3,1)] by simp
next
  case (renotify_ok \<sigma> t e T s)
  then show ?case using step_renotify [OF renotify_ok(3,1)] by simp
next
  case (requeue \<sigma> t T)
  then show ?case using step_push [of \<sigma> "R_Requeue t" T t "{#R_Idle#}" "returned \<sigma>"] by simp
qed (simp_all add: step_schedule step_wake_call step_take step_poll_begin step_poll_return
    step_poll_done step_poll_pending step_renotify)

interpretation sched: invariant_system sched_init sched_step sched_inv
  by unfold_locales (auto intro: sched_init_inv sched_step_inv)

section \<open>What the protocol guarantees\<close>

text \<open>
  C1. A task is in the ready queues, or in the hands of exactly one thread on its way into or out of
  them, exactly while its state is \<^verbatim>\<open>Notified\<close>; exactly one worker polls it while the state is
  \<^verbatim>\<open>Running\<close> or \<^verbatim>\<open>RunningAndNotified\<close>, and none otherwise. So no task is ever polled by
  two workers at once or queued twice, and none of the \<^verbatim>\<open>std::abort()\<close> calls is reached.
\<close>
theorem scheduled_exactly_once:
  assumes "reach sched_init sched_step \<sigma>"
  shows "\<not> aborted \<sigma>
    \<and> held t \<sigma> = of_bool (t \<in> spawned \<sigma> \<and> scheduling_state \<sigma> t = Notified)
    \<and> pollers t \<sigma> = of_bool (t \<in> spawned \<sigma> \<and> scheduling_state \<sigma> t \<in> {Running, RunningAndNotified})"
  using sched.reach_inv [OF assms] tokensD [of \<sigma> t] by (simp add: sched_inv_def)

text \<open>A run: task 0 is spawned, a worker polls it, and another thread wakes it during the poll.\<close>

definition sched_at ::
    "SchedulingState \<Rightarrow> nat multiset \<Rightarrow> pc multiset \<Rightarrow> nat \<Rightarrow> (nat \<times> nat) set \<Rightarrow> sched" where
  "sched_at s q ps n r = \<lparr>scheduling_state = (\<lambda>_. Idle)(0 := s), spawned = {0}, ready = q,
     threads = ps, polls = (\<lambda>_. 0)(0 := n), returned = r, aborted = False\<rparr>"

lemma sched_demo:
  "reach sched_init sched_step (sched_at RunningAndNotified {#} {#R_Polling 0#} 1 {(0, 1)})"
proof -
  let ?\<sigma> = "\<lparr>scheduling_state = \<lambda>_. Idle, spawned = {}, ready = {#}, threads = {#R_Idle#},
    polls = \<lambda>_. 0, returned = {}, aborted = False\<rparr>"
  have "sched_init ?\<sigma>" by (auto simp: sched_init_def intro: exI [of _ 1])
  then have 0: "reach sched_init sched_step ?\<sigma>" by (rule reach_init)
  have 1: "reach sched_init sched_step (sched_at Notified {#} {#S_Enqueue 0, R_Idle#} 0 {})"
    using reach_step [OF 0 schedule [of 0]] by (simp add: sched_at_def set_state_def fun_upd_idem)
  have 2: "reach sched_init sched_step (sched_at Notified {#0#} {#R_Idle#} 0 {})"
    using reach_step [OF 1 schedule_push [of _ 0 "{#R_Idle#}"]] by (simp add: sched_at_def)
  have 3: "reach sched_init sched_step (sched_at Notified {#} {#R_Got 0#} 0 {})"
    using reach_step [OF 2 take_task [of _ "{#}" 0 "{#}"]] by (simp add: sched_at_def)
  have 4: "reach sched_init sched_step (sched_at Running {#} {#R_Polling 0#} 1 {})"
    using reach_step [OF 3 poll_begin [of _ 0 "{#}" Running]]
    by (simp add: sched_at_def begin_poll_def compare_exchange_def set_state_def)
  have 5: "reach sched_init sched_step (sched_at Running {#} {#W_Try 0 1 Idle, R_Polling 0#} 1 {})"
    using reach_step [OF 4 wake_call [of 0]] by (simp add: sched_at_def)
  have 6: "reach sched_init sched_step (sched_at Running {#} {#W_Try 0 1 Running, R_Polling 0#} 1 {})"
    using reach_step [OF 5 wake_retry [of _ 0 1 Idle "{#R_Polling 0#}" Running Running]]
    by (simp add: sched_at_def compare_exchange_def set_state_def)
  show ?thesis
    using reach_step [OF 6 wake_return [of _ 0 1 Running "{#R_Polling 0#}" RunningAndNotified]]
    by (simp add: sched_at_def compare_exchange_def set_state_def)
qed

theorem scheduled_exactly_once_witness:
  "let \<sigma> = sched_at RunningAndNotified {#} {#R_Polling 0#} 1 {(0, 1)} in
    reach sched_init sched_step \<sigma> \<and> \<not> aborted \<sigma> \<and> held 0 \<sigma> = 0 \<and> pollers 0 \<sigma> = 1"
  using scheduled_exactly_once [OF sched_demo, of 0] sched_demo by (simp add: Let_def sched_at_def)

text \<open>
  C2. No wake is lost: once a call of \<^verbatim>\<open>wake\<close> has returned, a poll of the task has begun
  after that call started, or the task is queued (or about to be) or marked to be queued again when
  its current poll returns, or it has completed.
\<close>
theorem no_lost_wake:
  assumes "reach sched_init sched_step \<sigma>" "(t, n) \<in> returned \<sigma>"
  shows "n < polls \<sigma> t \<or> scheduling_state \<sigma> t = Done
    \<or> scheduling_state \<sigma> t = Notified \<and> held t \<sigma> = 1
    \<or> scheduling_state \<sigma> t = RunningAndNotified \<and> pollers t \<sigma> = 1"
proof -
  have inv: "sched_inv \<sigma>" by (rule sched.reach_inv [OF assms(1)])
  then have "will_poll t n \<sigma>" "scheduling_state \<sigma> t \<noteq> Idle \<Longrightarrow> t \<in> spawned \<sigma>"
    using assms(2) by (auto simp: sched_inv_def)
  then show ?thesis using tokensD [OF inv, of t] by (auto simp: will_poll_def)
qed

theorem no_lost_wake_witness:
  "let \<sigma> = sched_at RunningAndNotified {#} {#R_Polling 0#} 1 {(0, 1)} in
    reach sched_init sched_step \<sigma> \<and> (0, 1) \<in> returned \<sigma> \<and> polls \<sigma> 0 = 1 \<and> pollers 0 \<sigma> = 1"
  using no_lost_wake [OF sched_demo, of 0 1] sched_demo by (simp add: Let_def sched_at_def)

section \<open>A call of wake by itself\<close>

text \<open>
  The whole loop when no other thread touches the word, with the number of passes allowed; the
  result says whether \<^verbatim>\<open>enqueue\<close> was called. Two passes are enough.
\<close>

primrec wake_loop :: "nat \<Rightarrow> SchedulingState \<Rightarrow> SchedulingState \<Rightarrow> (bool \<times> SchedulingState) option" where
  "wake_loop 0 expected s = None"
| "wake_loop (Suc k) expected s = (case wake_iter expected s of
     (WakeEnqueue, s) \<Rightarrow> Some (True, s)
   | (WakeReturn, s) \<Rightarrow> Some (False, s)
   | (WakeRetry expected, s) \<Rightarrow> wake_loop k expected s)"

definition wake_task :: "SchedulingState \<Rightarrow> bool \<times> SchedulingState" where
  "wake_task s = (case wake_loop 2 Idle s of Some r \<Rightarrow> r | None \<Rightarrow> (False, s))"

lemma wake_loop_two:
  "wake_loop 2 Idle s = Some (s = Idle,
     case s of Idle \<Rightarrow> Notified | Running \<Rightarrow> RunningAndNotified | _ \<Rightarrow> s)"
  by (cases s) (simp_all add: numeral_2_eq_2 compare_exchange_def)

lemma wake_task_simps [simp]:
  "wake_task Idle = (True, Notified)" "wake_task Running = (False, RunningAndNotified)"
  "wake_task Notified = (False, Notified)" "wake_task RunningAndNotified = (False, RunningAndNotified)"
  "wake_task Done = (False, Done)"
  by (simp_all add: wake_task_def wake_loop_two)

end
