(* ===== verification/Wakers.thy ===== *)
theory Wakers
  imports Prelude
begin

text \<open>
  What the channels and events do with the wakers they store: waking a nullable one, moving the
  wakers of a drained list of nodes out and waking those that are set, and keeping track of which
  waiting futures have been woken.
\<close>

text \<open>\<^verbatim>\<open>if (waker) waker->wake();\<close>\<close>

definition wake_opt :: "rc_waker \<Rightarrow> waker list" where
  "wake_opt w = (case w of None \<Rightarrow> [] | Some w \<Rightarrow> [w])"

lemma wake_opt_simps [simp]: "wake_opt None = []" "wake_opt (Some w) = [w]"
  by (simp_all add: wake_opt_def)

text \<open>A waiting future's waker, forgotten once it has been woken.\<close>

definition unwoken :: "waker list \<Rightarrow> rc_waker \<Rightarrow> rc_waker" where
  "unwoken ws w = (case w of None \<Rightarrow> None | Some x \<Rightarrow> if x \<in> set ws then None else w)"

lemma unwoken_Some: "unwoken ws w = Some x \<longleftrightarrow> w = Some x \<and> x \<notin> set ws"
  by (auto simp: unwoken_def split: option.splits if_splits)

lemma unwoken_nil [simp]: "unwoken [] w = w"
  by (cases w) (simp_all add: unwoken_def)

lemma unwoken_None [simp]: "unwoken ws None = None"
  by (simp add: unwoken_def)

text \<open>
  The loop \<^verbatim>\<open>while (auto* raw = list.pop_front()) if (node->waker)
  wakers.push_back(std::move(node->waker));\<close> over the nodes of a list.
\<close>

fun drain_wakers :: "node list \<Rightarrow> (node \<Rightarrow> rc_waker) \<Rightarrow> waker list \<times> (node \<Rightarrow> rc_waker)" where
  "drain_wakers [] wk = ([], wk)"
| "drain_wakers (n # ns) wk =
     (let (ws, wk') = drain_wakers ns (wk(n := None)) in (wake_opt (wk n) @ ws, wk'))"

lemma drain_wakers_set:
  "distinct ns \<Longrightarrow> drain_wakers ns wk = (ws, wk') \<Longrightarrow>
     set ws = {w. \<exists>n\<in>set ns. wk n = Some w} \<and> wk' = (\<lambda>m. if m \<in> set ns then None else wk m)"
proof (induction ns arbitrary: wk ws wk')
  case (Cons n ns)
  obtain vs where d: "drain_wakers ns (wk(n := None)) = (vs, wk')" "ws = wake_opt (wk n) @ vs"
    using Cons.prems(2) by (auto split: prod.splits)
  have "set vs = {w. \<exists>m\<in>set ns. (wk(n := None)) m = Some w}"
    and wk': "wk' = (\<lambda>m. if m \<in> set ns then None else (wk(n := None)) m)"
    using Cons.IH [OF _ d(1)] Cons.prems(1) by simp_all
  moreover have "(\<exists>m\<in>set ns. (wk(n := None)) m = Some w) \<longleftrightarrow> (\<exists>m\<in>set ns. wk m = Some w)" for w
    using Cons.prems(1) by auto
  ultimately have "set vs = {w. \<exists>m\<in>set ns. wk m = Some w}" by simp
  then show ?case using d(2) wk' by (cases "wk n") (auto simp: fun_eq_iff)
qed simp

lemma drain_wakers_all:
  "distinct ns \<Longrightarrow> (\<And>n. n \<in> set ns \<Longrightarrow> wk n \<noteq> None) \<Longrightarrow>
     fst (drain_wakers ns wk) = map (\<lambda>n. the (wk n)) ns"
proof (induction ns arbitrary: wk)
  case (Cons n ns)
  obtain ws wk' where d: "drain_wakers ns (wk(n := None)) = (ws, wk')" by force
  have "ws = map (\<lambda>m. the ((wk(n := None)) m)) ns"
    using Cons.IH [of "wk(n := None)"] Cons.prems d by fastforce
  also have "\<dots> = map (\<lambda>m. the (wk m)) ns" using Cons.prems(1) by auto
  finally show ?case using d Cons.prems(2) [of n] by (cases "wk n") auto
qed simp

end
