(* ===== verification/Task.thy ===== *)
theory Task
  imports Scheduling Wakers
begin

text \<open>
  A spawned task and its handle: \<^verbatim>\<open>TaskState\<close> (\<^verbatim>\<open>include/coro/detail/task_state.h\<close>), \<^verbatim>\<open>TaskImpl::poll\<close> with
  its cancellation (\<^verbatim>\<open>include/coro/detail/task.h\<close>), \<^verbatim>\<open>JoinHandle\<close> (\<^verbatim>\<open>include/coro/task/join_handle.h\<close>),
  \<^verbatim>\<open>CancelHandle\<close> and \<^verbatim>\<open>CancelAndJoin\<close>. The future the task runs is a parameter: a poll of the task is told
  what the future would answer, and the calls the future receives are logged. A step is one critical
  section, or one access of the scheduling state or of the cancelled flag, so a worker in the middle of
  \<^verbatim>\<open>poll\<close>, a canceller between the flag and the wake, and a handle interleave as they do in the code.
\<close>

section \<open>The task\<close>

text \<open>A value that may have been moved out; for \<^verbatim>\<open>void\<close> the result is a flag, cleared when taken.\<close>

datatype 'a cell = Here 'a | Moved_From

datatype 'a fut_event = F_Cancel | F_Poll "'a poll_result"

record 'a task =
  t_state :: SchedulingState
  terminated :: bool
  t_waker :: rc_waker
  cancelled :: bool
  t_result :: "'a cell option"
  t_exception :: "exn option"
  m_future :: bool
  cancel_requested :: bool
  fut_log :: "'a fut_event list"

definition new_task :: "'a task" where
  "new_task = \<lparr>t_state = Idle, terminated = False, t_waker = None, cancelled = False, t_result = None, t_exception = None,
     m_future = True, cancel_requested = False, fut_log = []\<rparr>"

definition is_complete :: "'a task \<Rightarrow> bool" where
  "is_complete t = terminated t"

definition mark_done :: "'a task \<Rightarrow> waker list \<times> 'a task" where
  "mark_done t = (wake_opt (t_waker t), t\<lparr>terminated := True, t_waker := None\<rparr>)"

definition setResult :: "'a \<Rightarrow> 'a task \<Rightarrow> waker list \<times> 'a task" where
  "setResult v t = (wake_opt (t_waker t), t\<lparr>t_result := Some (Here v), terminated := True, t_waker := None\<rparr>)"

definition setException :: "exn \<Rightarrow> 'a task \<Rightarrow> waker list \<times> 'a task" where
  "setException e t = (wake_opt (t_waker t), t\<lparr>t_exception := Some e, terminated := True, t_waker := None\<rparr>)"

definition set_waker :: "waker \<Rightarrow> 'a task \<Rightarrow> 'a task" where
  "set_waker w t = t\<lparr>t_waker := Some w\<rparr>"

text \<open>\<^verbatim>\<open>TaskBase::wake\<close> of the task itself; the result says whether it was enqueued.\<close>

definition task_wake :: "'a task \<Rightarrow> bool \<times> 'a task" where
  "task_wake t = (let (q, s) = wake_task (t_state t) in (q, t\<lparr>t_state := s\<rparr>))"

definition set_cancelled :: "'a task \<Rightarrow> 'a task" where
  "set_cancelled t = t\<lparr>cancelled := True\<rparr>"

definition cancel_task :: "'a task \<Rightarrow> bool \<times> 'a task" where
  "cancel_task t = task_wake (set_cancelled t)"

definition is_task_cancelled :: "exn \<Rightarrow> bool" where
  "is_task_cancelled e \<longleftrightarrow> e = TaskCancelled"

text \<open>
  \<^verbatim>\<open>TaskImpl::poll\<close> up to the terminal call it makes, if the future has ended: \<open>c\<close> says whether the future is
  \<^verbatim>\<open>Cancellable\<close>, \<open>r\<close> is what its own \<^verbatim>\<open>poll\<close> answers.
\<close>

datatype 'a ending = E_Done | E_Exception exn | E_Result 'a

datatype 'a poll_step = Already_Done | Still_Pending | Ends "'a ending"

definition ending_of :: "bool \<Rightarrow> 'a poll_result \<Rightarrow> 'a ending" where
  "ending_of canc r =
     (if canc \<or> isDropped r then E_Done
      else (case r of
          HasResult (Inl e) \<Rightarrow> if is_task_cancelled e then E_Done else E_Exception e
        | HasResult (Inr v) \<Rightarrow> E_Result v
        | _ \<Rightarrow> E_Done))"

definition task_poll :: "bool \<Rightarrow> 'a poll_result \<Rightarrow> 'a task \<Rightarrow> 'a poll_step \<times> 'a task" where
  "task_poll c r t =
     (if \<not> m_future t then (Already_Done, t)
      else (let canc = cancelled t in
        if canc \<and> \<not> c then (Ends E_Done, t\<lparr>m_future := False\<rparr>)
        else (let t = (if canc \<and> \<not> cancel_requested t then t\<lparr>cancel_requested := True, fut_log := fut_log t @ [F_Cancel]\<rparr> else t);
                  t = t\<lparr>fut_log := fut_log t @ [F_Poll r]\<rparr>
              in if isPending r then (Still_Pending, t) else (Ends (ending_of canc r), t\<lparr>m_future := False\<rparr>))))"

definition task_end :: "'a ending \<Rightarrow> 'a task \<Rightarrow> waker list \<times> 'a task" where
  "task_end e t = (case e of E_Done \<Rightarrow> mark_done t | E_Exception x \<Rightarrow> setException x t | E_Result v \<Rightarrow> setResult v t)"

section \<open>The handles\<close>

record join_handle =
  h_state :: bool           \<comment> \<open>\<^verbatim>\<open>m_state != nullptr\<close>\<close>
  m_cancelOnDestroy :: bool
  m_finished :: bool

definition new_handle :: join_handle where
  "new_handle = \<lparr>h_state = True, m_cancelOnDestroy = True, m_finished = False\<rparr>"

definition join_poll :: "bool \<Rightarrow> waker \<Rightarrow> join_handle \<Rightarrow> 'a task \<Rightarrow> fault + 'a cell poll_result \<times> join_handle \<times> 'a task" where
  "join_poll is_void w h t =
     (if \<not> h_state h then Inl Null_Deref
      else if terminated t then
        (let h = h\<lparr>m_finished := True\<rparr> in
         case t_exception t of
           Some e \<Rightarrow> Inr (PollError e, h, t)
         | None \<Rightarrow>
             (case t_result t of
                None \<Rightarrow> Inr (PollDropped, h, t)
              | Some x \<Rightarrow> Inr (PollReady x, h, t\<lparr>t_result := (if is_void then None else Some Moved_From)\<rparr>)))
      else Inr (PollPending, h, t\<lparr>t_waker := Some w\<rparr>))"

text \<open>The loop of \<^verbatim>\<open>JoinHandle::cancel\<close> is that of \<^verbatim>\<open>TaskBase::wake\<close>.\<close>

definition join_cancel :: "join_handle \<Rightarrow> 'a task \<Rightarrow> bool \<times> 'a task" where
  "join_cancel h t = (if \<not> h_state h then (False, t) else task_wake (set_cancelled t))"

text \<open>Whether \<^verbatim>\<open>close\<close> registers the task with the enclosing scope is part of its result.\<close>

definition join_close :: "bool \<Rightarrow> join_handle \<Rightarrow> 'a task \<Rightarrow> bool \<times> join_handle \<times> 'a task" where
  "join_close in_coro h t =
     (if \<not> h_state h then (False, h, t)
      else if m_finished h then (False, h\<lparr>h_state := False\<rparr>, t)
      else (let t = (if m_cancelOnDestroy h then snd (join_cancel h t) else t)
            in (in_coro, h\<lparr>h_state := False\<rparr>, t)))"

definition join_detach :: "join_handle \<Rightarrow> join_handle" where
  "join_detach h = h\<lparr>h_state := False\<rparr>"

text \<open>\<^verbatim>\<open>JoinHandle::operator=\<close>, with the task the left-hand side had.\<close>

definition join_move_assign :: "bool \<Rightarrow> join_handle \<Rightarrow> 'a task \<Rightarrow> join_handle \<Rightarrow> bool \<times> join_handle \<times> join_handle \<times> 'a task" where
  "join_move_assign in_coro h t other =
     (let (reg, h, t) = join_close in_coro h t
      in (reg, h\<lparr>m_cancelOnDestroy := m_cancelOnDestroy other, m_finished := m_finished other, h_state := h_state other\<rparr>,
          other\<lparr>h_state := False\<rparr>, t))"

definition cancel_and_join_poll :: "bool \<Rightarrow> waker \<Rightarrow> join_handle \<Rightarrow> 'a task
    \<Rightarrow> fault + 'a cell option poll_result \<times> join_handle \<times> 'a task" where
  "cancel_and_join_poll is_void w h t =
     (case join_poll is_void w h t of
        Inl f \<Rightarrow> Inl f
      | Inr (r, h, t) \<Rightarrow>
          Inr (case r of
                 PollPending \<Rightarrow> PollPending
               | HasResult (Inl e) \<Rightarrow> PollError e
               | PollDropped \<Rightarrow> PollReady None
               | HasResult (Inr x) \<Rightarrow> PollReady (Some x), h, t))"

text \<open>\<open>expired\<close> says that the task's memory is gone.\<close>

datatype cancel_handle = Ch_Empty | Tracking | Finished

definition handle_cancel_handle :: "join_handle \<Rightarrow> cancel_handle" where
  "handle_cancel_handle h = (if \<not> h_state h then Ch_Empty else if m_finished h then Finished else Tracking)"

definition ch_is_finished :: "bool \<Rightarrow> cancel_handle \<Rightarrow> 'a task \<Rightarrow> (unit + bool) \<times> cancel_handle" where
  "ch_is_finished expired ch t =
     (case ch of
        Ch_Empty \<Rightarrow> (Inl (), ch)
      | Finished \<Rightarrow> (Inr True, ch)
      | Tracking \<Rightarrow> (if expired \<or> is_complete t then (Inr True, Finished) else (Inr False, ch)))"

definition ch_cancel :: "bool \<Rightarrow> cancel_handle \<Rightarrow> 'a task \<Rightarrow> cancel_handle \<times> 'a task" where
  "ch_cancel expired ch t =
     (if ch \<noteq> Tracking then (ch, t)
      else if expired \<or> is_complete t then (Finished, t)
      else (ch, snd (cancel_task t)))"

section \<open>A task under way\<close>

text \<open>
  The task with its worker, its handle, one cancel handle and the scope that takes over when the handle is
  dropped. \<open>unsent\<close> counts the cancellers that have set the flag and not yet woken the task. \<open>waiting\<close> is the waker of
  an await that has found the task running and has not been woken since, \<open>sc_waiting\<close> that of a scope whose second
  sweep has; \<open>sc_set\<close> is the waker of a scope between installing it and that sweep. \<open>ended\<close> and \<open>taken\<close> record
  the ending and whether its value has been taken.
\<close>

datatype 'a worker_pc = W_None | W_Taken | W_Ending "'a ending" | W_Return bool

record 'a tsys =
  tk :: "'a task"
  jh :: join_handle
  ch :: cancel_handle
  worker :: "'a worker_pc"
  unsent :: nat
  ended :: "'a ending option"
  taken :: bool
  waiting :: rc_waker
  sc_set :: rc_waker
  sc_waiting :: rc_waker
  t_fault :: bool

definition tsys_init :: "'a tsys" where
  "tsys_init = \<lparr>tk = new_task\<lparr>t_state := Notified\<rparr>, jh = new_handle, ch = handle_cancel_handle new_handle, worker = W_None, unsent = 0,
     ended = None, taken = False, waiting = None, sc_set = None, sc_waiting = None, t_fault = False\<rparr>"

datatype 'a task_op = T_Wake | T_Begin | T_Poll "'a poll_result" | T_End | T_Return
  | H_Poll waker | H_Flag | H_Wake | H_Close bool | H_Detach | H_On_Destroy bool
  | S_Set waker | S_Check | C_Cancel bool | C_Ask bool

datatype 'a task_out = O_None | O_Join "'a cell poll_result" | O_Asked "unit + bool"

text \<open>A task's memory goes only after its end: until then the executor holds it.\<close>

definition gone :: "bool \<Rightarrow> 'a tsys \<Rightarrow> bool" where
  "gone expired \<sigma> \<longleftrightarrow> expired \<and> worker \<sigma> = W_None \<and> t_state (tk \<sigma>) = Done"

fun task_exec :: "bool \<Rightarrow> bool \<Rightarrow> 'a task_op \<Rightarrow> 'a tsys \<Rightarrow> 'a task_out \<times> 'a tsys" where
  "task_exec c v T_Wake \<sigma> = (O_None, \<sigma>\<lparr>tk := snd (task_wake (tk \<sigma>))\<rparr>)"
| "task_exec c v T_Begin \<sigma> =
     (if worker \<sigma> \<noteq> W_None \<or> t_state (tk \<sigma>) \<noteq> Notified then (O_None, \<sigma>)
      else (case begin_poll (t_state (tk \<sigma>)) of
          Inl _ \<Rightarrow> (O_None, \<sigma>\<lparr>t_fault := True\<rparr>)
        | Inr s \<Rightarrow> (O_None, \<sigma>\<lparr>tk := (tk \<sigma>)\<lparr>t_state := s\<rparr>, worker := W_Taken\<rparr>)))"
| "task_exec c v (T_Poll r) \<sigma> =
     (if worker \<sigma> \<noteq> W_Taken then (O_None, \<sigma>)
      else (let (p, t) = task_poll c r (tk \<sigma>)
            in (O_None, \<sigma>\<lparr>tk := t, worker := (case p of Already_Done \<Rightarrow> W_Return True | Still_Pending \<Rightarrow> W_Return False | Ends e \<Rightarrow> W_Ending e)\<rparr>)))"
| "task_exec c v T_End \<sigma> =
     (case worker \<sigma> of
        W_Ending e \<Rightarrow>
          (let (ws, t) = task_end e (tk \<sigma>)
           in (O_None, \<sigma>\<lparr>tk := t, worker := W_Return True, ended := Some e, waiting := unwoken ws (waiting \<sigma>),
                 sc_set := unwoken ws (sc_set \<sigma>), sc_waiting := unwoken ws (sc_waiting \<sigma>)\<rparr>))
      | _ \<Rightarrow> (O_None, \<sigma>))"
| "task_exec c v T_Return \<sigma> =
     (case worker \<sigma> of
        W_Return True \<Rightarrow> (O_None, \<sigma>\<lparr>tk := (tk \<sigma>)\<lparr>t_state := Done\<rparr>, worker := W_None\<rparr>)
      | W_Return False \<Rightarrow>
          (case end_poll_pending (t_state (tk \<sigma>)) of
             Inl _ \<Rightarrow> (O_None, \<sigma>\<lparr>t_fault := True\<rparr>)
           | Inr (Parked, s) \<Rightarrow> (O_None, \<sigma>\<lparr>tk := (tk \<sigma>)\<lparr>t_state := s\<rparr>, worker := W_None\<rparr>)
           | Inr (Renotify e, s) \<Rightarrow>
               (case renotify e s of
                  Inl _ \<Rightarrow> (O_None, \<sigma>\<lparr>t_fault := True\<rparr>)
                | Inr s \<Rightarrow> (O_None, \<sigma>\<lparr>tk := (tk \<sigma>)\<lparr>t_state := s\<rparr>, worker := W_None\<rparr>)))
      | _ \<Rightarrow> (O_None, \<sigma>))"
| "task_exec c v (H_Poll w) \<sigma> =
     (case join_poll v w (jh \<sigma>) (tk \<sigma>) of
        Inl _ \<Rightarrow> (O_None, \<sigma>)
      | Inr (r, h, t) \<Rightarrow>
          (O_Join r, \<sigma>\<lparr>tk := t, jh := h, taken := (taken \<sigma> \<or> isReady r), waiting := (if isPending r then Some w else None)\<rparr>))"
| "task_exec c v H_Flag \<sigma> =
     (if \<not> h_state (jh \<sigma>) then (O_None, \<sigma>) else (O_None, \<sigma>\<lparr>tk := set_cancelled (tk \<sigma>), unsent := unsent \<sigma> + 1\<rparr>))"
| "task_exec c v H_Wake \<sigma> =
     (if unsent \<sigma> = 0 then (O_None, \<sigma>) else (O_None, \<sigma>\<lparr>tk := snd (task_wake (tk \<sigma>)), unsent := unsent \<sigma> - 1\<rparr>))"
| "task_exec c v (H_Close in_coro) \<sigma> =
     (let (reg, h, t) = join_close in_coro (jh \<sigma>) (tk \<sigma>) in (O_None, \<sigma>\<lparr>tk := t, jh := h, waiting := None\<rparr>))"
| "task_exec c v H_Detach \<sigma> = (O_None, \<sigma>\<lparr>jh := join_detach (jh \<sigma>), waiting := None\<rparr>)"
| "task_exec c v (H_On_Destroy b) \<sigma> = (O_None, \<sigma>\<lparr>jh := (jh \<sigma>)\<lparr>m_cancelOnDestroy := b\<rparr>\<rparr>)"
| "task_exec c v (S_Set w) \<sigma> =
     (if h_state (jh \<sigma>) then (O_None, \<sigma>)
      else (O_None, \<sigma>\<lparr>tk := set_waker w (tk \<sigma>), sc_set := Some w, sc_waiting := None\<rparr>))"
| "task_exec c v S_Check \<sigma> =
     (if sc_set \<sigma> = None then (O_None, \<sigma>)
      else (O_None, \<sigma>\<lparr>sc_set := None, sc_waiting := (if is_complete (tk \<sigma>) then None else sc_set \<sigma>)\<rparr>))"
| "task_exec c v (C_Cancel expired) \<sigma> =
     (let (h, t) = ch_cancel (gone expired \<sigma>) (ch \<sigma>) (tk \<sigma>) in (O_None, \<sigma>\<lparr>tk := t, ch := h\<rparr>))"
| "task_exec c v (C_Ask expired) \<sigma> =
     (let (r, h) = ch_is_finished (gone expired \<sigma>) (ch \<sigma>) (tk \<sigma>) in (O_Asked r, \<sigma>\<lparr>ch := h\<rparr>))"

section \<open>The invariant\<close>

text \<open>What the future must have answered, and whether the task was cancelled, for the task to end as it did.\<close>

definition explains :: "bool \<Rightarrow> 'a fut_event list \<Rightarrow> 'a ending \<Rightarrow> bool" where
  "explains canc log e \<longleftrightarrow>
     (case e of
        E_Result v \<Rightarrow> log \<noteq> [] \<and> last log = F_Poll (PollReady v)
      | E_Exception x \<Rightarrow> log \<noteq> [] \<and> last log = F_Poll (PollError x) \<and> x \<noteq> TaskCancelled
      | E_Done \<Rightarrow> canc \<or> (log \<noteq> [] \<and> (last log = F_Poll PollDropped \<or> last log = F_Poll (PollError TaskCancelled))))"

definition idle_event :: "'a fut_event \<Rightarrow> bool" where
  "idle_event e \<longleftrightarrow> e = F_Cancel \<or> e = F_Poll PollPending"

definition log_ok :: "'a task \<Rightarrow> bool" where
  "log_ok t \<longleftrightarrow> list_all idle_event (if m_future t then fut_log t else butlast (fut_log t))
   \<and> count_list (fut_log t) F_Cancel = (if cancel_requested t then 1 else 0) \<and> (cancel_requested t \<longrightarrow> cancelled t)"

definition result_ok :: "bool \<Rightarrow> 'a ending option \<Rightarrow> bool \<Rightarrow> 'a task \<Rightarrow> bool" where
  "result_ok v en tkn t \<longleftrightarrow>
     (case en of
        None \<Rightarrow> \<not> terminated t \<and> t_result t = None \<and> t_exception t = None \<and> \<not> tkn
      | Some E_Done \<Rightarrow> terminated t \<and> t_result t = None \<and> t_exception t = None
      | Some (E_Exception e) \<Rightarrow> terminated t \<and> t_result t = None \<and> t_exception t = Some e
      | Some (E_Result x) \<Rightarrow> terminated t \<and> t_exception t = None
          \<and> t_result t = (if \<not> tkn then Some (Here x) else if v then None else Some Moved_From))"

definition worker_ok :: "'a tsys \<Rightarrow> bool" where
  "worker_ok \<sigma> \<longleftrightarrow>
     (case worker \<sigma> of
        W_None \<Rightarrow> t_state (tk \<sigma>) \<in> {Idle, Notified, Done} \<and> (t_state (tk \<sigma>) = Done \<longleftrightarrow> \<not> m_future (tk \<sigma>)) \<and> (m_future (tk \<sigma>) \<longleftrightarrow> ended \<sigma> = None)
      | W_Taken \<Rightarrow> t_state (tk \<sigma>) \<in> {Running, RunningAndNotified} \<and> m_future (tk \<sigma>) \<and> ended \<sigma> = None
      | W_Ending e \<Rightarrow> t_state (tk \<sigma>) \<in> {Running, RunningAndNotified} \<and> \<not> m_future (tk \<sigma>) \<and> ended \<sigma> = None
          \<and> explains (cancelled (tk \<sigma>)) (fut_log (tk \<sigma>)) e
      | W_Return d \<Rightarrow> t_state (tk \<sigma>) \<in> {Running, RunningAndNotified} \<and> (d \<longleftrightarrow> \<not> m_future (tk \<sigma>)) \<and> (d \<longleftrightarrow> ended \<sigma> \<noteq> None))"

definition wakers_ok :: "'a tsys \<Rightarrow> bool" where
  "wakers_ok \<sigma> \<longleftrightarrow>
     (\<forall>w. waiting \<sigma> = Some w \<longrightarrow> h_state (jh \<sigma>) \<and> \<not> terminated (tk \<sigma>) \<and> t_waker (tk \<sigma>) = Some w)
   \<and> (\<forall>w. sc_set \<sigma> = Some w \<longrightarrow> \<not> h_state (jh \<sigma>) \<and> t_waker (tk \<sigma>) = Some w)
   \<and> (\<forall>w. sc_waiting \<sigma> = Some w \<longrightarrow> \<not> h_state (jh \<sigma>) \<and> \<not> terminated (tk \<sigma>) \<and> t_waker (tk \<sigma>) = Some w)"

definition cancel_ok :: "'a tsys \<Rightarrow> bool" where
  "cancel_ok \<sigma> \<longleftrightarrow>
     (cancelled (tk \<sigma>) \<and> \<not> cancel_requested (tk \<sigma>) \<and> m_future (tk \<sigma>) \<longrightarrow>
        0 < unsent \<sigma> \<or> t_state (tk \<sigma>) \<in> {Notified, RunningAndNotified} \<or> worker \<sigma> = W_Taken)"

definition task_inv :: "bool \<Rightarrow> 'a tsys \<Rightarrow> bool" where
  "task_inv v \<sigma> \<longleftrightarrow> log_ok (tk \<sigma>) \<and> result_ok v (ended \<sigma>) (taken \<sigma>) (tk \<sigma>) \<and> worker_ok \<sigma> \<and> wakers_ok \<sigma> \<and> cancel_ok \<sigma>
   \<and> (\<forall>e. ended \<sigma> = Some e \<longrightarrow> explains (cancelled (tk \<sigma>)) (fut_log (tk \<sigma>)) e)
   \<and> (m_finished (jh \<sigma>) \<longrightarrow> ended \<sigma> \<noteq> None) \<and> (ch \<sigma> = Finished \<longrightarrow> ended \<sigma> \<noteq> None) \<and> ch \<sigma> \<noteq> Ch_Empty \<and> \<not> t_fault \<sigma>"

lemmas task_inv_simps = task_inv_def log_ok_def worker_ok_def wakers_ok_def cancel_ok_def

lemma task_wake_state: "task_wake t = (t_state t = Idle, t\<lparr>t_state := (case t_state t of Idle \<Rightarrow> Notified | Running \<Rightarrow> RunningAndNotified | s \<Rightarrow> s)\<rparr>)"
  by (cases "t_state t") (simp_all add: task_wake_def)

text \<open>The parts of the invariant that a change of the other fields leaves alone.\<close>

lemma parts_frame [simp]:
  "log_ok (t\<lparr>t_state := s\<rparr>) = log_ok t" "log_ok (t\<lparr>t_waker := w\<rparr>) = log_ok t" "log_ok (t\<lparr>t_result := r\<rparr>) = log_ok t"
  "result_ok v en tkn (t\<lparr>t_state := s\<rparr>) = result_ok v en tkn t" "result_ok v en tkn (t\<lparr>t_waker := w\<rparr>) = result_ok v en tkn t"
  "result_ok v en tkn (t\<lparr>cancelled := c\<rparr>) = result_ok v en tkn t"
  by (simp_all add: log_ok_def result_ok_def cong: option.case_cong ending.case_cong)

lemma explains_cancel: "explains c log e \<Longrightarrow> explains True log e"
  by (simp add: explains_def split: ending.splits)

lemma task_invD:
  assumes "task_inv v \<sigma>"
  shows "log_ok (tk \<sigma>)" "result_ok v (ended \<sigma>) (taken \<sigma>) (tk \<sigma>)" "worker_ok \<sigma>" "wakers_ok \<sigma>" "cancel_ok \<sigma>"
    "\<And>e. ended \<sigma> = Some e \<Longrightarrow> explains (cancelled (tk \<sigma>)) (fut_log (tk \<sigma>)) e"
    "m_finished (jh \<sigma>) \<Longrightarrow> ended \<sigma> \<noteq> None" "ch \<sigma> = Finished \<Longrightarrow> ended \<sigma> \<noteq> None" "ch \<sigma> \<noteq> Ch_Empty" "\<not> t_fault \<sigma>"
  using assms by (auto simp: task_inv_def)

lemma task_invI:
  assumes "log_ok (tk \<sigma>)" "result_ok v (ended \<sigma>) (taken \<sigma>) (tk \<sigma>)" "worker_ok \<sigma>" "wakers_ok \<sigma>" "cancel_ok \<sigma>"
    "\<And>e. ended \<sigma> = Some e \<Longrightarrow> explains (cancelled (tk \<sigma>)) (fut_log (tk \<sigma>)) e"
    "m_finished (jh \<sigma>) \<Longrightarrow> ended \<sigma> \<noteq> None" "ch \<sigma> = Finished \<Longrightarrow> ended \<sigma> \<noteq> None" "ch \<sigma> \<noteq> Ch_Empty" "\<not> t_fault \<sigma>"
  shows "task_inv v \<sigma>"
  using assms by (auto simp: task_inv_def)

text \<open>A change of the scheduling state and of where the worker is.\<close>

lemma state_inv:
  assumes I: "task_inv v \<sigma>"
    and W: "worker_ok (\<sigma>\<lparr>tk := (tk \<sigma>)\<lparr>t_state := s\<rparr>, worker := p, unsent := n\<rparr>)"
    and C: "cancel_ok (\<sigma>\<lparr>tk := (tk \<sigma>)\<lparr>t_state := s\<rparr>, worker := p, unsent := n\<rparr>)"
  shows "task_inv v (\<sigma>\<lparr>tk := (tk \<sigma>)\<lparr>t_state := s\<rparr>, worker := p, unsent := n\<rparr>)"
proof -
  have "wakers_ok (\<sigma>\<lparr>tk := (tk \<sigma>)\<lparr>t_state := s\<rparr>, worker := p, unsent := n\<rparr>)"
    using task_invD(4) [OF I] unfolding wakers_ok_def by simp
  then show ?thesis using task_invD [OF I] W C by (intro task_invI) simp_all
qed

lemma wake_inv:
  assumes I: "task_inv v \<sigma>"
  shows "task_inv v (\<sigma>\<lparr>tk := snd (task_wake (tk \<sigma>)), unsent := n\<rparr>)"
proof -
  let ?s = "case t_state (tk \<sigma>) of Idle \<Rightarrow> Notified | Running \<Rightarrow> RunningAndNotified | s \<Rightarrow> s"
  have "worker_ok (\<sigma>\<lparr>tk := (tk \<sigma>)\<lparr>t_state := ?s\<rparr>, worker := worker \<sigma>, unsent := n\<rparr>)"
    using task_invD(3) [OF I] unfolding worker_ok_def by (cases "worker \<sigma>"; cases "t_state (tk \<sigma>)") simp_all
  moreover have "cancel_ok (\<sigma>\<lparr>tk := (tk \<sigma>)\<lparr>t_state := ?s\<rparr>, worker := worker \<sigma>, unsent := n\<rparr>)"
    using task_invD(3) [OF I] unfolding worker_ok_def cancel_ok_def by (cases "worker \<sigma>"; cases "t_state (tk \<sigma>)") simp_all
  ultimately have "task_inv v (\<sigma>\<lparr>tk := (tk \<sigma>)\<lparr>t_state := ?s\<rparr>, worker := worker \<sigma>, unsent := n\<rparr>)" by (rule state_inv [OF I])
  then show ?thesis by (simp add: task_wake_state)
qed

lemma flag_inv:
  assumes I: "task_inv v \<sigma>"
  shows "task_inv v (\<sigma>\<lparr>tk := set_cancelled (tk \<sigma>), unsent := Suc n\<rparr>)"
proof -
  let ?t = "\<sigma>\<lparr>tk := set_cancelled (tk \<sigma>), unsent := Suc n\<rparr>"
  have "worker_ok ?t" using task_invD(3) [OF I] unfolding worker_ok_def set_cancelled_def
    by (cases "worker \<sigma>") (auto intro: explains_cancel)
  moreover have "wakers_ok ?t" using task_invD(4) [OF I] unfolding wakers_ok_def set_cancelled_def by simp
  moreover have "log_ok (tk ?t)" using task_invD(1) [OF I] by (auto simp: log_ok_def set_cancelled_def)
  ultimately show ?thesis using task_invD [OF I]
    by (intro task_invI) (auto simp: set_cancelled_def cancel_ok_def intro: explains_cancel)
qed

lemma list_all_butlast: "list_all P xs \<Longrightarrow> list_all P (butlast xs)"
  by (auto simp: list_all_iff dest: in_set_butlastD)

lemma explains_ending:
  "\<not> isPending r \<Longrightarrow> explains canc (log @ [F_Poll r]) (ending_of canc r)"
  by (cases r) (auto simp: ending_of_def explains_def isDropped_def isPending_def is_task_cancelled_def split: sum.splits)

lemma task_poll_ok:
  assumes L: "log_ok t" and f: "m_future t" and p: "task_poll c r t = (p, t')"
  shows "log_ok t' \<and> p \<noteq> Already_Done \<and> (p = Still_Pending \<longleftrightarrow> m_future t') \<and> cancelled t' = cancelled t \<and> t_state t' = t_state t
    \<and> terminated t' = terminated t \<and> t_waker t' = t_waker t \<and> t_result t' = t_result t \<and> t_exception t' = t_exception t
    \<and> (m_future t' \<and> cancelled t \<longrightarrow> cancel_requested t') \<and> (\<forall>e. p = Ends e \<longrightarrow> explains (cancelled t) (fut_log t') e)"
proof (cases "cancelled t \<and> \<not> c")
  case True
  then have "p = Ends E_Done" "t' = t\<lparr>m_future := False\<rparr>" using p f by (auto simp: task_poll_def)
  then show ?thesis using L True by (auto simp: log_ok_def explains_def f list_all_butlast)
next
  case False
  define u where "u = (if cancelled t \<and> \<not> cancel_requested t then t\<lparr>cancel_requested := True, fut_log := fut_log t @ [F_Cancel]\<rparr> else t)"
  have u: "log_ok u" "m_future u" "cancelled u = cancelled t" "cancelled t \<longrightarrow> cancel_requested u" "t_state u = t_state t"
    "terminated u = terminated t" "t_waker u = t_waker t" "t_result u = t_result t" "t_exception u = t_exception t"
    using L f by (auto simp: u_def log_ok_def idle_event_def)
  have p': "(p, t') = (if isPending r then (Still_Pending, u\<lparr>fut_log := fut_log u @ [F_Poll r]\<rparr>)
      else (Ends (ending_of (cancelled t) r), u\<lparr>fut_log := fut_log u @ [F_Poll r], m_future := False\<rparr>))"
    using p f False unfolding task_poll_def Let_def u_def by (auto split: if_splits)
  show ?thesis
  proof (cases "isPending r")
    case True
    then have "r = PollPending" by (cases r) (simp_all add: isPending_def)
    then show ?thesis using p' u True by (auto simp: log_ok_def idle_event_def)
  next
    case False
    then show ?thesis using p' u explains_ending [OF False] by (auto simp: log_ok_def)
  qed
qed

lemma poll_inv:
  assumes I: "task_inv v \<sigma>" and w: "worker \<sigma> = W_Taken"
  shows "task_inv v (snd (task_exec c v (T_Poll r) \<sigma>))"
proof -
  obtain p t where p: "task_poll c r (tk \<sigma>) = (p, t)" by fastforce
  have W: "t_state (tk \<sigma>) \<in> {Running, RunningAndNotified}" "m_future (tk \<sigma>)" "ended \<sigma> = None"
    using task_invD(3) [OF I] w by (auto simp: worker_ok_def)
  note P = task_poll_ok [OF task_invD(1) [OF I] W(2) p]
  let ?t = "\<sigma>\<lparr>tk := t, worker := (case p of Already_Done \<Rightarrow> W_Return True | Still_Pending \<Rightarrow> W_Return False | Ends e \<Rightarrow> W_Ending e)\<rparr>"
  have "worker_ok ?t" using P W by (cases p) (auto simp: worker_ok_def)
  moreover have "wakers_ok ?t" using task_invD(4) [OF I] P unfolding wakers_ok_def by simp
  moreover have "cancel_ok ?t" using P by (auto simp: cancel_ok_def)
  moreover have "result_ok v (ended \<sigma>) (taken \<sigma>) t" using task_invD(2) [OF I] P W(3) by (simp add: result_ok_def)
  ultimately have "task_inv v ?t" using task_invD [OF I] P W(3) by (intro task_invI) simp_all
  then show ?thesis using w p by simp
qed

lemma unwoken_waker: "unwoken (wake_opt w) v = Some x \<longleftrightarrow> v = Some x \<and> w \<noteq> Some x"
  by (cases w) (auto simp: unwoken_Some)

lemma end_inv:
  assumes I: "task_inv v \<sigma>" and w: "worker \<sigma> = W_Ending e"
  shows "task_inv v (snd (task_exec c v T_End \<sigma>))"
proof -
  obtain ws t where t: "task_end e (tk \<sigma>) = (ws, t)" by fastforce
  have W: "t_state (tk \<sigma>) \<in> {Running, RunningAndNotified}" "\<not> m_future (tk \<sigma>)" "ended \<sigma> = None"
    "explains (cancelled (tk \<sigma>)) (fut_log (tk \<sigma>)) e" using task_invD(3) [OF I] w by (auto simp: worker_ok_def)
  have E: "ws = wake_opt (t_waker (tk \<sigma>))" "log_ok t" "t_state t = t_state (tk \<sigma>)" "m_future t = m_future (tk \<sigma>)" "terminated t"
    "cancelled t = cancelled (tk \<sigma>)" "fut_log t = fut_log (tk \<sigma>)" "t_waker t = None" "cancel_requested t = cancel_requested (tk \<sigma>)"
    using t task_invD(1) [OF I] by (cases e; auto simp: task_end_def mark_done_def setResult_def setException_def log_ok_def)+
  have R: "result_ok v (Some e) (taken \<sigma>) t" using t task_invD(2) [OF I] W(3)
    by (cases e) (auto simp: task_end_def mark_done_def setResult_def setException_def result_ok_def)
  let ?t = "\<sigma>\<lparr>tk := t, worker := W_Return True, ended := Some e, waiting := unwoken ws (waiting \<sigma>),
     sc_set := unwoken ws (sc_set \<sigma>), sc_waiting := unwoken ws (sc_waiting \<sigma>)\<rparr>"
  have "wakers_ok ?t" using task_invD(4) [OF I] unfolding wakers_ok_def E(1) by (auto simp: unwoken_waker)
  moreover have "worker_ok ?t" using W E by (simp add: worker_ok_def)
  moreover have "cancel_ok ?t" using W E by (simp add: cancel_ok_def)
  ultimately have "task_inv v ?t" using task_invD [OF I] E R W(4) by (intro task_invI) simp_all
  then show ?thesis using w t by simp
qed

lemma return_inv:
  assumes I: "task_inv v \<sigma>" and w: "worker \<sigma> = W_Return d"
  shows "task_inv v (snd (task_exec c v T_Return \<sigma>))"
proof -
  have W: "t_state (tk \<sigma>) = Running \<or> t_state (tk \<sigma>) = RunningAndNotified" "d \<longleftrightarrow> \<not> m_future (tk \<sigma>)" "d \<longleftrightarrow> ended \<sigma> \<noteq> None"
    using task_invD(3) [OF I] w by (auto simp: worker_ok_def)
  have go: "task_inv v (\<sigma>\<lparr>tk := (tk \<sigma>)\<lparr>t_state := s\<rparr>, worker := W_None\<rparr>)"
    if "worker_ok (\<sigma>\<lparr>tk := (tk \<sigma>)\<lparr>t_state := s\<rparr>, worker := W_None\<rparr>)" "cancel_ok (\<sigma>\<lparr>tk := (tk \<sigma>)\<lparr>t_state := s\<rparr>, worker := W_None\<rparr>)" for s
    using state_inv [OF I, where s = s and p = W_None and n = "unsent \<sigma>"] that by simp
  show ?thesis
  proof (cases d)
    case True
    then have "task_inv v (\<sigma>\<lparr>tk := (tk \<sigma>)\<lparr>t_state := Done\<rparr>, worker := W_None\<rparr>)"
      using W(2,3) by (intro go) (simp_all add: worker_ok_def cancel_ok_def)
    then show ?thesis using True w by simp
  next
    case False
    from W(1) show ?thesis
    proof
      assume r: "t_state (tk \<sigma>) = Running"
      have "task_inv v (\<sigma>\<lparr>tk := (tk \<sigma>)\<lparr>t_state := Idle\<rparr>, worker := W_None\<rparr>)"
        using W(2,3) False task_invD(5) [OF I] r w by (intro go) (auto simp: worker_ok_def cancel_ok_def)
      then show ?thesis using False w r by (simp add: end_poll_pending_def compare_exchange_def)
    next
      assume r: "t_state (tk \<sigma>) = RunningAndNotified"
      have "task_inv v (\<sigma>\<lparr>tk := (tk \<sigma>)\<lparr>t_state := Notified\<rparr>, worker := W_None\<rparr>)"
        using W(2,3) False by (intro go) (simp_all add: worker_ok_def cancel_ok_def)
      then show ?thesis using False w r by (simp add: end_poll_pending_def renotify_def compare_exchange_def)
    qed
  qed
qed

lemma begin_inv:
  assumes I: "task_inv v \<sigma>"
  shows "task_inv v (snd (task_exec c v T_Begin \<sigma>))"
proof (cases "worker \<sigma> = W_None \<and> t_state (tk \<sigma>) = Notified")
  case True
  then have "m_future (tk \<sigma>) \<and> ended \<sigma> = None" using task_invD(3) [OF I] by (auto simp: worker_ok_def)
  then have "task_inv v (\<sigma>\<lparr>tk := (tk \<sigma>)\<lparr>t_state := Running\<rparr>, worker := W_Taken\<rparr>)"
    using state_inv [OF I, where s = Running and p = W_Taken and n = "unsent \<sigma>"] by (simp add: worker_ok_def cancel_ok_def)
  then show ?thesis using True by (simp add: begin_poll_def compare_exchange_def)
qed (use I in auto)

lemma ended_iff: "task_inv v \<sigma> \<Longrightarrow> terminated (tk \<sigma>) \<longleftrightarrow> ended \<sigma> \<noteq> None"
  using task_invD(2) [of v \<sigma>] by (auto simp: result_ok_def split: option.splits ending.splits)

text \<open>What a poll of the handle answers, in terms of how the task ended.\<close>

definition join_answer :: "bool \<Rightarrow> 'a ending option \<Rightarrow> bool \<Rightarrow> 'a cell poll_result" where
  "join_answer v en tkn =
     (case en of
        None \<Rightarrow> PollPending
      | Some E_Done \<Rightarrow> PollDropped
      | Some (E_Exception e) \<Rightarrow> PollError e
      | Some (E_Result x) \<Rightarrow> if \<not> tkn then PollReady (Here x) else if v then PollDropped else PollReady Moved_From)"

lemma join_poll_answer:
  assumes I: "task_inv v \<sigma>" and h: "h_state (jh \<sigma>)"
  shows "\<exists>h' t'. join_poll v w (jh \<sigma>) (tk \<sigma>) = Inr (join_answer v (ended \<sigma>) (taken \<sigma>), h', t')
    \<and> h_state h' \<and> (m_finished h' \<longrightarrow> m_finished (jh \<sigma>) \<or> ended \<sigma> \<noteq> None)
    \<and> result_ok v (ended \<sigma>) (taken \<sigma> \<or> isReady (join_answer v (ended \<sigma>) (taken \<sigma>))) t'
    \<and> t' = (tk \<sigma>)\<lparr>t_waker := (if ended \<sigma> = None then Some w else t_waker (tk \<sigma>)), t_result := t_result t'\<rparr>"
proof (cases "ended \<sigma>")
  case None
  then show ?thesis using task_invD(2) [OF I] h
    by (simp add: join_poll_def join_answer_def result_ok_def isReady_def)
next
  case (Some e)
  then show ?thesis using task_invD(2) [OF I] h
    by (cases e) (auto simp: join_poll_def join_answer_def result_ok_def isReady_def)
qed

lemma join_inv:
  assumes I: "task_inv v \<sigma>"
  shows "task_inv v (snd (task_exec c v (H_Poll w) \<sigma>))"
proof (cases "h_state (jh \<sigma>)")
  case True
  let ?r = "join_answer v (ended \<sigma>) (taken \<sigma>)"
  from join_poll_answer [OF I True] obtain h t where
    p: "join_poll v w (jh \<sigma>) (tk \<sigma>) = Inr (?r, h, t)" "h_state h" "m_finished h \<longrightarrow> m_finished (jh \<sigma>) \<or> ended \<sigma> \<noteq> None"
      "result_ok v (ended \<sigma>) (taken \<sigma> \<or> isReady ?r) t"
      "t = (tk \<sigma>)\<lparr>t_waker := (if ended \<sigma> = None then Some w else t_waker (tk \<sigma>)), t_result := t_result t\<rparr>" by blast
  have keep: "m_future t = m_future (tk \<sigma>)" "t_state t = t_state (tk \<sigma>)" "cancelled t = cancelled (tk \<sigma>)" "fut_log t = fut_log (tk \<sigma>)"
    "cancel_requested t = cancel_requested (tk \<sigma>)" "terminated t = terminated (tk \<sigma>)"
    "ended \<sigma> = None \<Longrightarrow> t_waker t = Some w" by (subst p(5), simp)+
  have pend: "isPending ?r \<longleftrightarrow> ended \<sigma> = None" by (auto simp: join_answer_def isPending_def split: option.splits ending.splits)
  let ?t = "\<sigma>\<lparr>tk := t, jh := h, taken := (taken \<sigma> \<or> isReady ?r), waiting := (if isPending ?r then Some w else None)\<rparr>"
  have none: "sc_set \<sigma> = None" "sc_waiting \<sigma> = None" using task_invD(4) [OF I] True unfolding wakers_ok_def by (cases "sc_set \<sigma>"; cases "sc_waiting \<sigma>"; simp)+
  have "wakers_ok ?t" unfolding wakers_ok_def using none p(2) keep pend ended_iff [OF I] by simp
  moreover have "worker_ok ?t" using task_invD(3) [OF I] keep by (simp add: worker_ok_def cong: worker_pc.case_cong)
  moreover have "cancel_ok ?t" using task_invD(5) [OF I] keep by (simp add: cancel_ok_def)
  moreover have "log_ok t" using task_invD(1) [OF I] keep by (auto simp: log_ok_def)
  ultimately have "task_inv v ?t" using task_invD [OF I] p(3,4) keep by (intro task_invI) auto
  then show ?thesis using p(1) by simp
qed (use I in \<open>simp add: join_poll_def\<close>)

text \<open>Changes of the handle, and the flag followed by the wake.\<close>

lemma handle_inv:
  assumes I: "task_inv v \<sigma>" and h: "m_finished h = m_finished (jh \<sigma>)"
    and w: "w = waiting \<sigma> \<and> h_state h = h_state (jh \<sigma>) \<or> w = None \<and> \<not> h_state h"
  shows "task_inv v (\<sigma>\<lparr>jh := h, waiting := w\<rparr>)"
proof -
  have "wakers_ok (\<sigma>\<lparr>jh := h, waiting := w\<rparr>)" using task_invD(4) [OF I] w unfolding wakers_ok_def by auto
  moreover have "worker_ok (\<sigma>\<lparr>jh := h, waiting := w\<rparr>)" using task_invD(3) [OF I] by (simp add: worker_ok_def cong: worker_pc.case_cong)
  moreover have "cancel_ok (\<sigma>\<lparr>jh := h, waiting := w\<rparr>)" using task_invD(5) [OF I] by (simp add: cancel_ok_def)
  ultimately show ?thesis using task_invD [OF I] h by (intro task_invI) simp_all
qed

lemma cancel_inv:
  assumes I: "task_inv v \<sigma>"
  shows "task_inv v (\<sigma>\<lparr>tk := snd (task_wake (set_cancelled (tk \<sigma>)))\<rparr>)"
  using wake_inv [OF flag_inv [OF I, of "unsent \<sigma>"], of "unsent \<sigma>"] by simp

lemma close_inv:
  assumes I: "task_inv v \<sigma>"
  shows "task_inv v (snd (task_exec c v (H_Close in_coro) \<sigma>))"
proof -
  let ?h = "(jh \<sigma>)\<lparr>h_state := False\<rparr>" let ?t = "snd (task_wake (set_cancelled (tk \<sigma>)))"
  consider "\<not> h_state (jh \<sigma>)" | "h_state (jh \<sigma>)" "\<not> m_finished (jh \<sigma>) \<and> m_cancelOnDestroy (jh \<sigma>)"
    | "h_state (jh \<sigma>)" "m_finished (jh \<sigma>) \<or> \<not> m_cancelOnDestroy (jh \<sigma>)" by blast
  then show ?thesis
  proof cases
    case 1
    then show ?thesis using handle_inv [OF I, of "jh \<sigma>" None] by (simp add: join_close_def)
  next
    case 2
    then show ?thesis using handle_inv [OF cancel_inv [OF I], of ?h None] by (simp add: join_close_def join_cancel_def)
  next
    case 3
    then show ?thesis using handle_inv [OF I, of ?h None] by (auto simp: join_close_def)
  qed
qed

lemma scope_inv:
  assumes I: "task_inv v \<sigma>"
  shows "task_inv v (snd (task_exec c v (S_Set w) \<sigma>))" "task_inv v (snd (task_exec c v S_Check \<sigma>))"
proof -
  have frame: "task_inv v (\<sigma>\<lparr>tk := (tk \<sigma>)\<lparr>t_waker := x\<rparr>, sc_set := y, sc_waiting := z\<rparr>)"
    if "wakers_ok (\<sigma>\<lparr>tk := (tk \<sigma>)\<lparr>t_waker := x\<rparr>, sc_set := y, sc_waiting := z\<rparr>)" for x y z
    using that task_invD [OF I] by (intro task_invI) (simp_all add: worker_ok_def cancel_ok_def cong: worker_pc.case_cong)
  show "task_inv v (snd (task_exec c v (S_Set w) \<sigma>))"
  proof (cases "h_state (jh \<sigma>)")
    case False
    then have "waiting \<sigma> = None" using task_invD(4) [OF I] unfolding wakers_ok_def by (cases "waiting \<sigma>") auto
    then have "task_inv v (\<sigma>\<lparr>tk := (tk \<sigma>)\<lparr>t_waker := Some w\<rparr>, sc_set := Some w, sc_waiting := None\<rparr>)"
      using False by (intro frame) (simp add: wakers_ok_def)
    then show ?thesis using False by (simp add: set_waker_def)
  qed (use I in simp)
  show "task_inv v (snd (task_exec c v S_Check \<sigma>))"
  proof (cases "sc_set \<sigma>")
    case (Some w)
    then have "wakers_ok (\<sigma>\<lparr>tk := (tk \<sigma>)\<lparr>t_waker := t_waker (tk \<sigma>)\<rparr>, sc_set := None, sc_waiting := (if is_complete (tk \<sigma>) then None else sc_set \<sigma>)\<rparr>)"
      using task_invD(4) [OF I] unfolding wakers_ok_def is_complete_def by auto
    from frame [OF this] show ?thesis using Some by (simp split: if_splits)
  qed (use I in simp)
qed

lemma ch_inv:
  assumes I: "task_inv v \<sigma>" and h: "h = ch \<sigma> \<or> h = Finished \<and> ended \<sigma> \<noteq> None"
  shows "task_inv v (\<sigma>\<lparr>ch := h\<rparr>)"
  using h
proof
  assume "h = Finished \<and> ended \<sigma> \<noteq> None"
  moreover have "wakers_ok (\<sigma>\<lparr>ch := h\<rparr>)" using task_invD(4) [OF I] unfolding wakers_ok_def by simp
  ultimately show ?thesis using task_invD [OF I] by (intro task_invI) (simp_all add: worker_ok_def cancel_ok_def cong: worker_pc.case_cong)
qed (use I in simp)

lemma gone_ended: "task_inv v \<sigma> \<Longrightarrow> gone expired \<sigma> \<or> is_complete (tk \<sigma>) \<Longrightarrow> ended \<sigma> \<noteq> None"
  using task_invD(3) [of v \<sigma>] ended_iff [of v \<sigma>] by (auto simp: gone_def is_complete_def worker_ok_def)

lemma handles_inv:
  assumes I: "task_inv v \<sigma>"
  shows "task_inv v (snd (task_exec c v (C_Cancel expired) \<sigma>))" "task_inv v (snd (task_exec c v (C_Ask expired) \<sigma>))"
proof -
  have fin: "task_inv v (\<sigma>\<lparr>ch := Finished\<rparr>)" if "gone expired \<sigma> \<or> is_complete (tk \<sigma>)"
    using ch_inv [OF I] gone_ended [OF I that] by blast
  have canc: "task_inv v (\<sigma>\<lparr>tk := snd (task_wake (set_cancelled (tk \<sigma>))), ch := Tracking\<rparr>)" if "ch \<sigma> = Tracking"
    by (rule ch_inv [OF cancel_inv [OF I]]) (simp add: that)
  show "task_inv v (snd (task_exec c v (C_Cancel expired) \<sigma>))"
    using I fin canc by (auto simp: ch_cancel_def cancel_task_def)
  show "task_inv v (snd (task_exec c v (C_Ask expired) \<sigma>))"
  proof -
    have "task_inv v (\<sigma>\<lparr>ch := snd (ch_is_finished (gone expired \<sigma>) (ch \<sigma>) (tk \<sigma>))\<rparr>)"
      by (rule ch_inv [OF I]) (use gone_ended [OF I, of expired] in \<open>cases "ch \<sigma>"; auto simp: ch_is_finished_def\<close>)
    then show ?thesis by (simp add: case_prod_beta Let_def)
  qed
qed

lemma worker_inv:
  assumes I: "task_inv v \<sigma>"
  shows "task_inv v (snd (task_exec c v (T_Poll r) \<sigma>))" "task_inv v (snd (task_exec c v T_End \<sigma>))" "task_inv v (snd (task_exec c v T_Return \<sigma>))"
proof -
  show "task_inv v (snd (task_exec c v (T_Poll r) \<sigma>))"
  proof (cases "worker \<sigma> = W_Taken")
    case True
    then show ?thesis by (rule poll_inv [OF I])
  qed (use I in simp)
  show "task_inv v (snd (task_exec c v T_End \<sigma>))"
  proof (cases "worker \<sigma>")
    case (W_Ending e)
    then show ?thesis by (rule end_inv [OF I])
  qed (use I in simp_all)
  show "task_inv v (snd (task_exec c v T_Return \<sigma>))"
  proof (cases "worker \<sigma>")
    case (W_Return d)
    then show ?thesis by (rule return_inv [OF I])
  qed (use I in simp_all)
qed

lemma task_exec_inv: "task_inv v \<sigma> \<Longrightarrow> task_inv v (snd (task_exec c v op \<sigma>))"
proof (cases op)
  case T_Wake
  then show "task_inv v \<sigma> \<Longrightarrow> ?thesis" using wake_inv [of v \<sigma> "unsent \<sigma>"] by simp
next
  case H_Flag
  then show "task_inv v \<sigma> \<Longrightarrow> ?thesis" using flag_inv by auto
next
  case H_Wake
  then show "task_inv v \<sigma> \<Longrightarrow> ?thesis" using wake_inv by auto
next
  case H_Detach
  then show "task_inv v \<sigma> \<Longrightarrow> ?thesis" using handle_inv [of v \<sigma> "join_detach (jh \<sigma>)" None] by (simp add: join_detach_def)
next
  case (H_On_Destroy b)
  then show "task_inv v \<sigma> \<Longrightarrow> ?thesis" using handle_inv [of v \<sigma> "(jh \<sigma>)\<lparr>m_cancelOnDestroy := b\<rparr>" "waiting \<sigma>"] by simp
qed (simp_all only: begin_inv worker_inv join_inv close_inv scope_inv handles_inv)

lemma tsys_init_inv: "task_inv v tsys_init"
  by (intro task_invI) (simp_all add: tsys_init_def new_task_def new_handle_def handle_cancel_handle_def log_ok_def result_ok_def
    worker_ok_def wakers_ok_def cancel_ok_def)

interpretation task: op_system tsys_init "task_exec c v" "task_inv v" for c v
  by unfold_locales (simp_all only: tsys_init_inv task_exec_inv)

section \<open>Properties\<close>

text \<open>
  C10. A handle reports how its task ended, and the future is treated as its contract asks. However polls of
  the task, of the handle and of its cancel handle, cancellations, wakes, drops and the drain of the scope
  interleave, a poll of the handle answers the value the future returned, once, the exception it ended with,
  that the task was dropped exactly when it was cancelled or the future itself was, and pending before the
  end; the future is cancelled at most once and never polled after it has answered; the cancel handle says
  finished only after the end; and no worker finds an impossible state.
\<close>

theorem task_ending_reported:
  assumes "(outs, \<sigma>) = run_ops (task_exec c v) ops tsys_init"
  shows "\<not> t_fault \<sigma>
    \<and> (h_state (jh \<sigma>) \<longrightarrow> map_sum id fst (join_poll v w (jh \<sigma>) (tk \<sigma>)) = Inr (join_answer v (ended \<sigma>) (taken \<sigma>)))
    \<and> (\<forall>e. ended \<sigma> = Some e \<longrightarrow> explains (cancelled (tk \<sigma>)) (fut_log (tk \<sigma>)) e)
    \<and> list_all idle_event (butlast (fut_log (tk \<sigma>))) \<and> count_list (fut_log (tk \<sigma>)) F_Cancel \<le> 1
    \<and> (ended \<sigma> = None \<longrightarrow> fst (ch_is_finished (gone x \<sigma>) (ch \<sigma>) (tk \<sigma>)) = Inr False)"
proof -
  have I: "task_inv v \<sigma>" using task.run_inv [of v c ops] assms by (metis snd_conv)
  have "ch \<sigma> = Tracking \<and> \<not> gone x \<sigma> \<and> \<not> is_complete (tk \<sigma>)" if "ended \<sigma> = None"
    using that gone_ended [OF I] task_invD(8,9) [OF I] by (cases "ch \<sigma>") auto
  then show ?thesis using task_invD [OF I] join_poll_answer [OF I, of w]
    by (auto simp: log_ok_def list_all_butlast ch_is_finished_def split: if_splits)
qed

text \<open>
  C11. Nobody waits for a task in vain. In every reachable state an await that found the task running and has
  not been woken is woken by whichever way the task ends, and so is the scope of a dropped handle whose
  second sweep found the task running; and a cancellation is never overlooked: until the future has been told
  or has ended, a canceller has still to wake the task, or the task is queued, or it is flagged to be polled
  again, or its worker has yet to look at the flag.
\<close>

theorem task_wakes_waiter:
  assumes "(outs, \<sigma>) = run_ops (task_exec c v) ops tsys_init"
  shows "(waiting \<sigma> = Some w \<or> sc_waiting \<sigma> = Some w \<longrightarrow> ended \<sigma> = None \<and> w \<in> set (fst (task_end e (tk \<sigma>))))
    \<and> (cancelled (tk \<sigma>) \<and> \<not> cancel_requested (tk \<sigma>) \<and> m_future (tk \<sigma>) \<longrightarrow>
         0 < unsent \<sigma> \<or> t_state (tk \<sigma>) = Notified \<or> t_state (tk \<sigma>) = RunningAndNotified \<or> worker \<sigma> = W_Taken)"
proof -
  have I: "task_inv v \<sigma>" using task.run_inv [of v c ops] assms by (metis snd_conv)
  have "w \<in> set (fst (task_end e (tk \<sigma>)))" if "t_waker (tk \<sigma>) = Some w"
    using that by (cases e) (simp_all add: task_end_def mark_done_def setResult_def setException_def)
  then show ?thesis using task_invD(4,5) [OF I] ended_iff [OF I] unfolding wakers_ok_def cancel_ok_def by auto
qed

definition demo_task_ops :: "nat task_op list" where
  "demo_task_ops = [T_Begin, H_Poll 7, T_Poll PollPending, H_Flag, H_Wake, T_Return, T_Begin, T_Poll PollPending, T_Return,
     T_Wake, T_Begin, T_Poll (PollReady 5), H_Poll 8]"

text \<open>Cancelled while it is polled, the task ends as dropped, although its future answers a value.\<close>

theorem task_ending_reported_witness:
  "let \<sigma> = snd (run_ops (task_exec True False) (demo_task_ops @ [T_End, T_Return]) tsys_init) in
     ended \<sigma> = Some E_Done \<and> map_sum id fst (join_poll False 9 (jh \<sigma>) (tk \<sigma>)) = Inr PollDropped
     \<and> fut_log (tk \<sigma>) = [F_Poll PollPending, F_Cancel, F_Poll PollPending, F_Poll (PollReady 5)]"
proof -
  define s where s: "s = run_ops (task_exec True False) (demo_task_ops @ [T_End, T_Return]) tsys_init"
  have "ended (snd s) = Some E_Done" "h_state (jh (snd s))"
    "fut_log (tk (snd s)) = [F_Poll PollPending, F_Cancel, F_Poll PollPending, F_Poll (PollReady 5)]"
    unfolding s by code_simp+
  moreover have "(fst s, snd s) = run_ops (task_exec True False) (demo_task_ops @ [T_End, T_Return]) tsys_init" by (simp add: s)
  note task_ending_reported [OF this, of 9]
  ultimately show ?thesis unfolding s [symmetric] Let_def by (simp add: join_answer_def)
qed

theorem task_wakes_waiter_witness:
  "let \<sigma> = snd (run_ops (task_exec True False) demo_task_ops tsys_init) in
     worker \<sigma> = W_Ending E_Done \<and> waiting \<sigma> = Some 8 \<and> 8 \<in> set (fst (task_end E_Done (tk \<sigma>)))"
proof -
  define s where s: "s = run_ops (task_exec True False) demo_task_ops tsys_init"
  have "worker (snd s) = W_Ending E_Done" "waiting (snd s) = Some 8" unfolding s by code_simp+
  moreover have "(fst s, snd s) = run_ops (task_exec True False) demo_task_ops tsys_init" by (simp add: s)
  note task_wakes_waiter [OF this, of 8 E_Done]
  ultimately show ?thesis unfolding s [symmetric] Let_def by simp
qed

end
