(* ===== verification/Join_Set.thy ===== *)
theory Join_Set
  imports Task
begin

text \<open>
  \<^verbatim>\<open>JoinSet\<close> (\<^verbatim>\<open>include/coro/task/join_set.h\<close>): its shared state, the completion hook of its tasks, spawning,
  \<^verbatim>\<open>poll_next\<close>, cancelling and dropping, and the future behind \<^verbatim>\<open>join_all\<close>, \<^verbatim>\<open>drain\<close> and \<^verbatim>\<open>shutdown\<close>. A task is one of
  theory Task; the intrusive lists of nodes are lists of task numbers. A step is one critical section of the
  set's mutex, or one poll of a task, or the part of a poll of the bulk future that runs outside the mutex.
\<close>

section \<open>Outcomes\<close>

datatype 'a outcome = Value "'a cell" | Threw exn | Was_Cancelled

type_synonym ('a, 't) join_result = "'a outcome \<times> 't"

definition has_value :: "('a, 't) join_result \<Rightarrow> bool" where
  "has_value r \<longleftrightarrow> (case fst r of Value _ \<Rightarrow> True | _ \<Rightarrow> False)"

definition is_cancelled :: "('a, 't) join_result \<Rightarrow> bool" where
  "is_cancelled r \<longleftrightarrow> (case fst r of Was_Cancelled \<Rightarrow> True | _ \<Rightarrow> False)"

text \<open>A failure thrown by the set: a task's exception, or \<^verbatim>\<open>JoinCancelled\<close>.\<close>

datatype join_error = Join_Exn exn | JoinCancelled

definition join_value :: "('a, 't) join_result \<Rightarrow> join_error + 'a cell" where
  "join_value r = (case fst r of Value x \<Rightarrow> Inr x | Threw e \<Rightarrow> Inl (Join_Exn e) | Was_Cancelled \<Rightarrow> Inl JoinCancelled)"

definition join_exception :: "('a, 't) join_result \<Rightarrow> exn option" where
  "join_exception r = (case fst r of Threw e \<Rightarrow> Some e | _ \<Rightarrow> None)"

section \<open>The shared state\<close>

record 't js_state =
  pending_handles :: "nat list"
  idle_handles :: "nat list"
  consumer_waker :: rc_waker
  node_task :: "nat \<Rightarrow> bool"      \<comment> \<open>\<^verbatim>\<open>Node::task != nullptr\<close>\<close>
  node_tag :: "nat \<Rightarrow> 't"

definition js_new :: "(nat \<Rightarrow> 't) \<Rightarrow> 't js_state" where
  "js_new tags = \<lparr>pending_handles = [], idle_handles = [], consumer_waker = None, node_task = (\<lambda>_. False), node_tag = tags\<rparr>"

definition outcome_of :: "'a task \<Rightarrow> 'a outcome" where
  "outcome_of t =
     (case t_exception t of
        Some e \<Rightarrow> Threw e
      | None \<Rightarrow> (case t_result t of Some x \<Rightarrow> Value x | None \<Rightarrow> Was_Cancelled))"

definition take_result :: "nat \<Rightarrow> (nat \<Rightarrow> 'a task) \<Rightarrow> 't js_state \<Rightarrow> ('a, 't) join_result" where
  "take_result n ts s = (outcome_of (ts n), node_tag s n)"

definition js_spawn :: "nat \<Rightarrow> 't \<Rightarrow> 't js_state \<Rightarrow> 't js_state" where
  "js_spawn n tag s = s\<lparr>pending_handles := pending_handles s @ [n], node_task := (node_task s)(n := True), node_tag := (node_tag s)(n := tag)\<rparr>"

text \<open>\<open>state\<close> says whether the set's shared state still exists.\<close>

definition on_task_complete :: "bool \<Rightarrow> nat \<Rightarrow> 't js_state \<Rightarrow> bool \<times> waker list \<times> 't js_state" where
  "on_task_complete state n s =
     (if \<not> state \<or> \<not> node_task s n then (False, [], s)
      else (True, wake_opt (consumer_waker s),
            s\<lparr>pending_handles := remove1 n (pending_handles s), node_task := (node_task s)(n := False),
              idle_handles := idle_handles s @ [n], consumer_waker := None\<rparr>))"

definition js_poll_next :: "waker \<Rightarrow> (nat \<Rightarrow> 'a task) \<Rightarrow> 't js_state \<Rightarrow> ('a, 't) join_result option poll_result \<times> 't js_state" where
  "js_poll_next w ts s =
     (case idle_handles s of
        n # ns \<Rightarrow> (PollReady (Some (take_result n ts s)), s\<lparr>idle_handles := ns\<rparr>)
      | [] \<Rightarrow>
          (if pending_handles s \<noteq> [] then (PollPending, s\<lparr>consumer_waker := Some w\<rparr>)
           else (PollReady None, s)))"

definition js_empty :: "'t js_state \<Rightarrow> bool" where
  "js_empty s \<longleftrightarrow> pending_handles s = [] \<and> idle_handles s = []"

definition cancel_each :: "nat list \<Rightarrow> (nat \<Rightarrow> 'a task) \<Rightarrow> nat \<Rightarrow> 'a task" where
  "cancel_each ns ts = fold (\<lambda>n ts. ts(n := snd (cancel_task (ts n)))) ns ts"

definition join_set_cancel_all :: "'t js_state \<Rightarrow> (nat \<Rightarrow> 'a task) \<Rightarrow> nat \<Rightarrow> 'a task" where
  "join_set_cancel_all s ts = cancel_each (filter (node_task s) (pending_handles s)) ts"

text \<open>\<^verbatim>\<open>cancel_pending\<close>, with the tasks it registers with the enclosing scope.\<close>

definition cancel_pending :: "bool \<Rightarrow> 't js_state \<Rightarrow> (nat \<Rightarrow> 'a task) \<Rightarrow> nat list \<times> 't js_state \<times> (nat \<Rightarrow> 'a task)" where
  "cancel_pending in_coro s ts =
     (let ns = filter (node_task s) (pending_handles s)
      in (if in_coro then ns else [],
          s\<lparr>pending_handles := [], node_task := (\<lambda>n. node_task s n \<and> n \<notin> set (pending_handles s))\<rparr>,
          cancel_each ns ts))"

section \<open>The bulk futures\<close>

datatype OnError = Cancel | Wait

datatype ('a, 't) collector =
    JoinAll "('a, 't) join_result list"
  | Drain "join_error option" "(join_error \<Rightarrow> bool) option"     \<comment> \<open>\<^verbatim>\<open>first_failure\<close> and \<^verbatim>\<open>ranks_last\<close>\<close>
  | Shutdown

definition kCancelsAtStart :: "('a, 't) collector \<Rightarrow> bool" where
  "kCancelsAtStart c \<longleftrightarrow> (case c of Shutdown \<Rightarrow> True | _ \<Rightarrow> False)"

definition failure_of :: "('a, 't) join_result \<Rightarrow> join_error" where
  "failure_of r = (if is_cancelled r then JoinCancelled else (case fst r of Threw e \<Rightarrow> Join_Exn e | _ \<Rightarrow> JoinCancelled))"

definition drain_add :: "(join_error \<Rightarrow> bool) option \<Rightarrow> ('a, 't) join_result \<Rightarrow> join_error option \<Rightarrow> join_error option" where
  "drain_add ranks_last r first =
     (if has_value r then first
      else if first \<noteq> None \<and> \<not> (case ranks_last of Some f \<Rightarrow> f (the first) | None \<Rightarrow> False) then first
      else (let failure = failure_of r in
            if first = None \<or> \<not> (case ranks_last of Some f \<Rightarrow> f failure | None \<Rightarrow> True) then Some failure else first))"

fun collector_add :: "('a, 't) join_result \<Rightarrow> ('a, 't) collector \<Rightarrow> ('a, 't) collector" where
  "collector_add r (JoinAll rs) = JoinAll (rs @ [r])"
| "collector_add r (Drain first rl) = Drain (drain_add rl r first) rl"
| "collector_add r Shutdown = Shutdown"

text \<open>The failure \<^verbatim>\<open>drain\<close> throws is a value of its own.\<close>

datatype ('a, 't) bulk_out = Got "('a, 't) join_result list" | Failed join_error | Fine

fun collector_finish :: "('a, 't) collector \<Rightarrow> ('a, 't) bulk_out" where
  "collector_finish (JoinAll rs) = Got rs"
| "collector_finish (Drain (Some e) rl) = Failed e"
| "collector_finish (Drain None rl) = Fine"
| "collector_finish Shutdown = Fine"

record ('a, 't) bulk =
  m_collector :: "('a, 't) collector"
  m_on_error :: OnError
  m_cancelled :: bool
  m_dropped :: bool

definition new_bulk :: "('a, 't) collector \<Rightarrow> OnError \<Rightarrow> ('a, 't) bulk" where
  "new_bulk c e = \<lparr>m_collector = c, m_on_error = e, m_cancelled = False, m_dropped = False\<rparr>"

definition cancel_all_once :: "'t js_state \<Rightarrow> ('a, 't) bulk \<Rightarrow> (nat \<Rightarrow> 'a task) \<Rightarrow> ('a, 't) bulk \<times> (nat \<Rightarrow> 'a task)" where
  "cancel_all_once s b ts = (if m_cancelled b then (b, ts) else (b\<lparr>m_cancelled := True\<rparr>, join_set_cancel_all s ts))"

definition bulk_cancel :: "'t js_state \<Rightarrow> ('a, 't) bulk \<Rightarrow> (nat \<Rightarrow> 'a task) \<Rightarrow> ('a, 't) bulk \<times> (nat \<Rightarrow> 'a task)" where
  "bulk_cancel s b ts = cancel_all_once s (b\<lparr>m_dropped := True\<rparr>) ts"

text \<open>
  The parts of \<^verbatim>\<open>poll\<close>: its first critical section, which takes the finished tasks, the sweep over them outside
  the mutex, and the second critical section, reached only when nothing was pending in the first.
\<close>

definition bulk_snap :: "waker \<Rightarrow> 't js_state \<Rightarrow> nat list \<times> bool \<times> 't js_state" where
  "bulk_snap w s =
     (let any_pending = (pending_handles s \<noteq> []); to_process = idle_handles s; s = s\<lparr>idle_handles := []\<rparr>
      in (to_process, any_pending, if any_pending then s\<lparr>consumer_waker := Some w\<rparr> else s))"

fun bulk_sweep :: "nat list \<Rightarrow> (nat \<Rightarrow> 'a task) \<Rightarrow> 't js_state \<Rightarrow> bool \<Rightarrow> ('a, 't) bulk \<Rightarrow> bool \<times> ('a, 't) bulk" where
  "bulk_sweep [] ts s failed b = (failed, b)"
| "bulk_sweep (n # ns) ts s failed b =
     (let r = take_result n ts s in
      bulk_sweep ns ts s (failed \<or> \<not> has_value r) (if m_dropped b then b else b\<lparr>m_collector := collector_add r (m_collector b)\<rparr>))"

definition bulk_process :: "nat list \<Rightarrow> 't js_state \<Rightarrow> ('a, 't) bulk \<Rightarrow> (nat \<Rightarrow> 'a task) \<Rightarrow> ('a, 't) bulk \<times> (nat \<Rightarrow> 'a task)" where
  "bulk_process to_process s b ts =
     (let (failed, b) = bulk_sweep to_process ts s False b
      in if failed \<and> m_on_error b = Cancel then cancel_all_once s b ts else (b, ts))"

definition bulk_recheck :: "waker \<Rightarrow> ('a, 't) bulk \<Rightarrow> 't js_state \<Rightarrow> ('a, 't) bulk_out poll_result \<times> 't js_state" where
  "bulk_recheck w b s =
     (if pending_handles s \<noteq> [] \<or> idle_handles s \<noteq> [] then (PollPending, s\<lparr>consumer_waker := Some w\<rparr>)
      else if m_dropped b then (PollDropped, s)
      else (PollReady (collector_finish (m_collector b)), s))"

section \<open>A set in use\<close>

text \<open>
  The set, its tasks, one bulk future at a time and the consumer. A task in \<open>finishing\<close> has ended and has still to
  run its completion hook. \<open>js_waiting\<close> is the waker of a consumer that has registered it and has not been woken
  since. \<open>endings\<close>, \<open>completions\<close> (the order of the hooks), \<open>delivered\<close> (the results handed out) and \<open>b_ids\<close> (the tasks
  the bulk future has swept) record what has happened, and \<open>idle_only\<close> that the second critical section of a
  bulk poll found a finished task and none pending.
\<close>

datatype bulk_pc = B_Rest | B_Entered waker | B_Snapped waker "nat list" bool | B_Swept waker

record ('a, 't) js_sys =
  js :: "'t js_state"
  tasks :: "nat \<Rightarrow> 'a task"
  next_id :: nat
  finishing :: "nat set"
  alive :: bool
  bulk :: "('a, 't) bulk option"
  b_pc :: bulk_pc
  b_init :: "('a, 't) collector"
  b_ids :: "nat list"
  js_waiting :: rc_waker
  idle_only :: bool
  endings :: "nat \<Rightarrow> 'a ending option"
  completions :: "nat list"
  delivered :: "('a, 't) join_result list"

definition js_init :: "(nat \<Rightarrow> 't) \<Rightarrow> ('a, 't) js_sys" where
  "js_init tags = \<lparr>js = js_new tags, tasks = (\<lambda>_. new_task), next_id = 0, finishing = {}, alive = True, bulk = None, b_pc = B_Rest,
     b_init = Shutdown, b_ids = [], js_waiting = None, idle_only = False, endings = (\<lambda>_. None), completions = [], delivered = []\<rparr>"

datatype ('a, 't) js_op = J_Spawn 't | J_Poll nat "'a poll_result" | J_Done nat | J_Next waker | J_Cancel_All | J_Drop bool
  | B_All OnError | B_Drain OnError "(join_error \<Rightarrow> bool) option" | B_Shutdown | B_Cancel
  | B_Poll waker | B_Snap | B_Sweep | B_Recheck

datatype ('a, 't) js_out = O_Nothing | O_Next "('a, 't) join_result option poll_result" | O_Bulk "('a, 't) bulk_out poll_result"

definition begin_bulk :: "('a, 't) collector \<Rightarrow> OnError \<Rightarrow> ('a, 't) js_sys \<Rightarrow> ('a, 't) js_sys" where
  "begin_bulk c e \<sigma> = (if bulk \<sigma> \<noteq> None \<or> \<not> alive \<sigma> then \<sigma> else \<sigma>\<lparr>bulk := Some (new_bulk c e), b_init := c, b_ids := []\<rparr>)"

fun js_exec :: "('a, 't) js_op \<Rightarrow> ('a, 't) js_sys \<Rightarrow> ('a, 't) js_out \<times> ('a, 't) js_sys" where
  "js_exec (J_Spawn tag) \<sigma> =
     (if \<not> alive \<sigma> then (O_Nothing, \<sigma>)
      else (O_Nothing, \<sigma>\<lparr>js := js_spawn (next_id \<sigma>) tag (js \<sigma>), tasks := (tasks \<sigma>)(next_id \<sigma> := new_task\<lparr>t_state := Notified\<rparr>),
              next_id := Suc (next_id \<sigma>)\<rparr>))"
| "js_exec (J_Poll n r) \<sigma> =
     (if n \<ge> next_id \<sigma> then (O_Nothing, \<sigma>)
      else (case task_poll True r (tasks \<sigma> n) of
          (Ends e, t) \<Rightarrow> (O_Nothing, \<sigma>\<lparr>tasks := (tasks \<sigma>)(n := snd (task_end e t)), finishing := insert n (finishing \<sigma>), endings := (endings \<sigma>)(n := Some e)\<rparr>)
        | (_, t) \<Rightarrow> (O_Nothing, \<sigma>\<lparr>tasks := (tasks \<sigma>)(n := t)\<rparr>)))"
| "js_exec (J_Done n) \<sigma> =
     (if n \<notin> finishing \<sigma> then (O_Nothing, \<sigma>)
      else (let (pushed, ws, s) = on_task_complete (alive \<sigma>) n (js \<sigma>)
            in (O_Nothing, \<sigma>\<lparr>js := s, finishing := finishing \<sigma> - {n}, js_waiting := unwoken ws (js_waiting \<sigma>), idle_only := (idle_only \<sigma> \<and> \<not> pushed),
                  completions := (if pushed then completions \<sigma> @ [n] else completions \<sigma>)\<rparr>)))"
| "js_exec (J_Next w) \<sigma> =
     (if \<not> alive \<sigma> \<or> b_pc \<sigma> \<noteq> B_Rest then (O_Nothing, \<sigma>)
      else (let (r, s) = js_poll_next w (tasks \<sigma>) (js \<sigma>)
            in (O_Next r, \<sigma>\<lparr>js := s, js_waiting := (if isPending r then Some w else js_waiting \<sigma>), idle_only := (idle_only \<sigma> \<and> \<not> isPending r),
                  delivered := (case r of HasResult (Inr (Some x)) \<Rightarrow> delivered \<sigma> @ [x] | _ \<Rightarrow> delivered \<sigma>)\<rparr>)))"
| "js_exec J_Cancel_All \<sigma> = (O_Nothing, \<sigma>\<lparr>tasks := join_set_cancel_all (js \<sigma>) (tasks \<sigma>)\<rparr>)"
| "js_exec (J_Drop in_coro) \<sigma> =
     (if bulk \<sigma> \<noteq> None then (O_Nothing, \<sigma>)
      else (let (reg, s, ts) = cancel_pending in_coro (js \<sigma>) (tasks \<sigma>)
            in (O_Nothing, \<sigma>\<lparr>js := s, tasks := ts, alive := False, js_waiting := None\<rparr>)))"
| "js_exec (B_All e) \<sigma> = (O_Nothing, begin_bulk (JoinAll []) e \<sigma>)"
| "js_exec (B_Drain e rl) \<sigma> = (O_Nothing, begin_bulk (Drain None rl) e \<sigma>)"
| "js_exec B_Shutdown \<sigma> = (O_Nothing, begin_bulk Shutdown Cancel \<sigma>)"
| "js_exec B_Cancel \<sigma> =
     (case bulk \<sigma> of
        None \<Rightarrow> (O_Nothing, \<sigma>)
      | Some b \<Rightarrow> (let (b, ts) = bulk_cancel (js \<sigma>) b (tasks \<sigma>) in (O_Nothing, \<sigma>\<lparr>bulk := Some b, tasks := ts\<rparr>)))"
| "js_exec (B_Poll w) \<sigma> =
     (case bulk \<sigma> of
        None \<Rightarrow> (O_Nothing, \<sigma>)
      | Some b \<Rightarrow>
          (if b_pc \<sigma> \<noteq> B_Rest then (O_Nothing, \<sigma>)
           else if kCancelsAtStart (m_collector b)
           then (let (b, ts) = cancel_all_once (js \<sigma>) b (tasks \<sigma>) in (O_Nothing, \<sigma>\<lparr>bulk := Some b, tasks := ts, b_pc := B_Entered w\<rparr>))
           else (O_Nothing, \<sigma>\<lparr>b_pc := B_Entered w\<rparr>)))"
| "js_exec B_Snap \<sigma> =
     (case b_pc \<sigma> of
        B_Entered w \<Rightarrow>
          (let (ns, any_pending, s) = bulk_snap w (js \<sigma>)
           in (O_Nothing, \<sigma>\<lparr>js := s, b_pc := B_Snapped w ns any_pending, js_waiting := (if any_pending then Some w else js_waiting \<sigma>),
                 idle_only := (idle_only \<sigma> \<and> \<not> any_pending)\<rparr>))
      | _ \<Rightarrow> (O_Nothing, \<sigma>))"
| "js_exec B_Sweep \<sigma> =
     (case (b_pc \<sigma>, bulk \<sigma>) of
        (B_Snapped w ns any_pending, Some b) \<Rightarrow>
          (let (b, ts) = bulk_process ns (js \<sigma>) b (tasks \<sigma>); rs = map (\<lambda>n. take_result n (tasks \<sigma>) (js \<sigma>)) ns
           in (if any_pending then O_Bulk PollPending else O_Nothing,
               \<sigma>\<lparr>bulk := Some b, tasks := ts, b_pc := (if any_pending then B_Rest else B_Swept w),
                 b_ids := b_ids \<sigma> @ ns, delivered := delivered \<sigma> @ rs\<rparr>))
      | _ \<Rightarrow> (O_Nothing, \<sigma>))"
| "js_exec B_Recheck \<sigma> =
     (case (b_pc \<sigma>, bulk \<sigma>) of
        (B_Swept w, Some b) \<Rightarrow>
          (let (r, s) = bulk_recheck w b (js \<sigma>)
           in (O_Bulk r, \<sigma>\<lparr>js := s, b_pc := B_Rest, bulk := (if isPending r then Some b else None),
                 js_waiting := (if isPending r then Some w else js_waiting \<sigma>), idle_only := (isPending r \<and> pending_handles (js \<sigma>) = [] \<or> idle_only \<sigma> \<and> \<not> isPending r)\<rparr>))
      | _ \<Rightarrow> (O_Nothing, \<sigma>))"

section \<open>The invariant\<close>

definition end_outcome :: "'a ending \<Rightarrow> 'a outcome" where
  "end_outcome e = (case e of E_Done \<Rightarrow> Was_Cancelled | E_Exception x \<Rightarrow> Threw x | E_Result v \<Rightarrow> Value (Here v))"

definition res :: "('a, 't) js_sys \<Rightarrow> nat \<Rightarrow> ('a, 't) join_result" where
  "res \<sigma> n = (end_outcome (the (endings \<sigma> n)), node_tag (js \<sigma>) n)"

definition in_sweep :: "('a, 't) js_sys \<Rightarrow> nat list" where
  "in_sweep \<sigma> = (case b_pc \<sigma> of B_Snapped w ns ap \<Rightarrow> ns | _ \<Rightarrow> [])"

definition task_good :: "'a ending option \<Rightarrow> 'a task \<Rightarrow> bool" where
  "task_good en t \<longleftrightarrow>
     (case en of
        None \<Rightarrow> m_future t \<and> t_result t = None \<and> t_exception t = None
      | Some e \<Rightarrow> \<not> m_future t \<and> outcome_of t = end_outcome e)"

definition lists_ok :: "('a, 't) js_sys \<Rightarrow> bool" where
  "lists_ok \<sigma> \<longleftrightarrow>
     drop (length (delivered \<sigma>)) (completions \<sigma>) = in_sweep \<sigma> @ idle_handles (js \<sigma>)
   \<and> delivered \<sigma> = map (res \<sigma>) (take (length (delivered \<sigma>)) (completions \<sigma>))
   \<and> distinct (completions \<sigma> @ pending_handles (js \<sigma>))
   \<and> (\<forall>n \<in> set (completions \<sigma>) \<union> set (pending_handles (js \<sigma>)). n < next_id \<sigma>)
   \<and> (\<forall>n. node_task (js \<sigma>) n \<longleftrightarrow> n \<in> set (pending_handles (js \<sigma>)))
   \<and> (alive \<sigma> \<longrightarrow> (\<forall>n < next_id \<sigma>. n \<in> set (completions \<sigma>) \<union> set (pending_handles (js \<sigma>))))
   \<and> (\<not> alive \<sigma> \<longrightarrow> pending_handles (js \<sigma>) = [])"

definition tasks_ok :: "('a, 't) js_sys \<Rightarrow> bool" where
  "tasks_ok \<sigma> \<longleftrightarrow>
     (\<forall>n < next_id \<sigma>. task_good (endings \<sigma> n) (tasks \<sigma> n)) \<and> (\<forall>n \<ge> next_id \<sigma>. endings \<sigma> n = None)
   \<and> (\<forall>n \<in> set (completions \<sigma>). endings \<sigma> n \<noteq> None) \<and> (\<forall>n \<in> finishing \<sigma>. endings \<sigma> n \<noteq> None)
   \<and> (\<forall>n \<in> set (pending_handles (js \<sigma>)). endings \<sigma> n \<noteq> None \<longrightarrow> n \<in> finishing \<sigma>)"

definition fresh :: "('a, 't) collector \<Rightarrow> bool" where
  "fresh c \<longleftrightarrow> (case c of JoinAll rs \<Rightarrow> rs = [] | Drain f rl \<Rightarrow> f = None | Shutdown \<Rightarrow> True)"

definition bulk_ok :: "('a, 't) js_sys \<Rightarrow> bool" where
  "bulk_ok \<sigma> \<longleftrightarrow>
     (\<forall>b. bulk \<sigma> = Some b \<longrightarrow> alive \<sigma> \<and> (\<not> m_dropped b \<longrightarrow> m_collector b = fold collector_add (map (res \<sigma>) (b_ids \<sigma>)) (b_init \<sigma>)))
   \<and> fresh (b_init \<sigma>) \<and> (b_pc \<sigma> \<noteq> B_Rest \<longrightarrow> bulk \<sigma> \<noteq> None) \<and> (bulk \<sigma> \<noteq> None \<longrightarrow> set (b_ids \<sigma>) \<subseteq> set (completions \<sigma>))"

definition js_waker_ok :: "('a, 't) js_sys \<Rightarrow> bool" where
  "js_waker_ok \<sigma> \<longleftrightarrow> (\<forall>w. js_waiting \<sigma> = Some w \<longrightarrow> consumer_waker (js \<sigma>) = Some w \<and> alive \<sigma> \<and> (pending_handles (js \<sigma>) \<noteq> [] \<or> idle_only \<sigma>))"

definition js_inv :: "('a, 't) js_sys \<Rightarrow> bool" where
  "js_inv \<sigma> \<longleftrightarrow> lists_ok \<sigma> \<and> tasks_ok \<sigma> \<and> bulk_ok \<sigma> \<and> js_waker_ok \<sigma>"

lemma js_invD: "js_inv \<sigma> \<Longrightarrow> lists_ok \<sigma>" "js_inv \<sigma> \<Longrightarrow> tasks_ok \<sigma>" "js_inv \<sigma> \<Longrightarrow> bulk_ok \<sigma>" "js_inv \<sigma> \<Longrightarrow> js_waker_ok \<sigma>"
  by (simp_all add: js_inv_def)

text \<open>Cancelling changes neither a task's result nor whether it has ended.\<close>

lemma cancel_each_fields:
  "m_future (cancel_each ns ts n) = m_future (ts n) \<and> t_result (cancel_each ns ts n) = t_result (ts n) \<and> t_exception (cancel_each ns ts n) = t_exception (ts n)"
  unfolding cancel_each_def
  by (induction ns arbitrary: ts) (auto simp: cancel_task_def task_wake_state set_cancelled_def)

definition same_results :: "(nat \<Rightarrow> 'a task) \<Rightarrow> (nat \<Rightarrow> 'a task) \<Rightarrow> bool" where
  "same_results ts ts' \<longleftrightarrow> (\<forall>n. m_future (ts' n) = m_future (ts n) \<and> t_result (ts' n) = t_result (ts n) \<and> t_exception (ts' n) = t_exception (ts n))"

lemma same_cancel [simp]: "same_results ts (cancel_each ns ts)" "same_results ts (join_set_cancel_all s ts)" "same_results ts ts"
  by (simp_all add: same_results_def join_set_cancel_all_def cancel_each_fields)

lemma same_good: "same_results ts ts' \<Longrightarrow> task_good en (ts' n) = task_good en (ts n)"
  by (simp add: task_good_def same_results_def outcome_of_def cong: option.case_cong)

lemma res_frame [simp]:
  "res (\<sigma>\<lparr>tasks := ts\<rparr>) = res \<sigma>" "res (\<sigma>\<lparr>bulk := b\<rparr>) = res \<sigma>" "res (\<sigma>\<lparr>b_pc := p\<rparr>) = res \<sigma>" "res (\<sigma>\<lparr>js_waiting := w\<rparr>) = res \<sigma>"
  "res (\<sigma>\<lparr>idle_only := i\<rparr>) = res \<sigma>" "res (\<sigma>\<lparr>delivered := d\<rparr>) = res \<sigma>" "res (\<sigma>\<lparr>b_ids := ns\<rparr>) = res \<sigma>" "res (\<sigma>\<lparr>finishing := f\<rparr>) = res \<sigma>"
  "res (\<sigma>\<lparr>completions := c\<rparr>) = res \<sigma>" "res (\<sigma>\<lparr>alive := a\<rparr>) = res \<sigma>" "res (\<sigma>\<lparr>b_init := i0\<rparr>) = res \<sigma>" "res (\<sigma>\<lparr>next_id := k\<rparr>) = res \<sigma>"
  "node_tag s = node_tag (js \<sigma>) \<Longrightarrow> res (\<sigma>\<lparr>js := s\<rparr>) = res \<sigma>"
  by (auto simp: res_def fun_eq_iff)

lemma tasks_inv:
  assumes I: "js_inv \<sigma>" and ts: "same_results (tasks \<sigma>) ts" and b: "bulk_ok (\<sigma>\<lparr>bulk := b, tasks := ts, b_pc := p\<rparr>)"
    and p: "in_sweep (\<sigma>\<lparr>b_pc := p\<rparr>) = in_sweep \<sigma>"
  shows "js_inv (\<sigma>\<lparr>bulk := b, tasks := ts, b_pc := p\<rparr>)"
proof -
  let ?t = "\<sigma>\<lparr>bulk := b, tasks := ts, b_pc := p\<rparr>"
  have "in_sweep ?t = in_sweep \<sigma>" using p by (simp add: in_sweep_def)
  then have "lists_ok ?t" using js_invD(1) [OF I] by (simp add: lists_ok_def)
  moreover have "tasks_ok ?t" using js_invD(2) [OF I] same_good [OF ts] by (simp add: tasks_ok_def)
  moreover have "js_waker_ok ?t" using js_invD(4) [OF I] by (simp add: js_waker_ok_def)
  ultimately show ?thesis using b by (simp add: js_inv_def)
qed

lemma res_cong: "(\<And>n. n \<in> set ns \<Longrightarrow> endings \<sigma>' n = endings \<sigma> n \<and> node_tag (js \<sigma>') n = node_tag (js \<sigma>) n) \<Longrightarrow> map (res \<sigma>') ns = map (res \<sigma>) ns"
  by (simp add: res_def)

lemma lists_okD:
  assumes "lists_ok \<sigma>"
  shows "drop (length (delivered \<sigma>)) (completions \<sigma>) = in_sweep \<sigma> @ idle_handles (js \<sigma>)"
    "delivered \<sigma> = map (res \<sigma>) (take (length (delivered \<sigma>)) (completions \<sigma>))"
    "distinct (completions \<sigma> @ pending_handles (js \<sigma>))"
    "\<And>n. n \<in> set (completions \<sigma>) \<Longrightarrow> n < next_id \<sigma>" "\<And>n. n \<in> set (pending_handles (js \<sigma>)) \<Longrightarrow> n < next_id \<sigma>"
    "\<And>n. node_task (js \<sigma>) n \<longleftrightarrow> n \<in> set (pending_handles (js \<sigma>))"
    "alive \<sigma> \<Longrightarrow> n < next_id \<sigma> \<Longrightarrow> n \<in> set (completions \<sigma>) \<union> set (pending_handles (js \<sigma>))"
    "\<not> alive \<sigma> \<Longrightarrow> pending_handles (js \<sigma>) = []"
    "length (delivered \<sigma>) \<le> length (completions \<sigma>)"
proof -
  show d: "delivered \<sigma> = map (res \<sigma>) (take (length (delivered \<sigma>)) (completions \<sigma>))" using assms by (simp add: lists_ok_def)
  have "length (delivered \<sigma>) = min (length (completions \<sigma>)) (length (delivered \<sigma>))" using arg_cong [OF d, of length] by simp
  then show "length (delivered \<sigma>) \<le> length (completions \<sigma>)" by linarith
qed (use assms in \<open>auto simp: lists_ok_def\<close>)

lemma lists_okI:
  assumes "drop (length (delivered \<sigma>)) (completions \<sigma>) = in_sweep \<sigma> @ idle_handles (js \<sigma>)"
    "delivered \<sigma> = map (res \<sigma>) (take (length (delivered \<sigma>)) (completions \<sigma>))"
    "distinct (completions \<sigma> @ pending_handles (js \<sigma>))"
    "\<And>n. n \<in> set (completions \<sigma>) \<union> set (pending_handles (js \<sigma>)) \<Longrightarrow> n < next_id \<sigma>"
    "\<And>n. node_task (js \<sigma>) n \<longleftrightarrow> n \<in> set (pending_handles (js \<sigma>))"
    "\<And>n. alive \<sigma> \<Longrightarrow> n < next_id \<sigma> \<Longrightarrow> n \<in> set (completions \<sigma>) \<union> set (pending_handles (js \<sigma>))"
    "\<not> alive \<sigma> \<Longrightarrow> pending_handles (js \<sigma>) = []"
  shows "lists_ok \<sigma>"
  unfolding lists_ok_def by (intro conjI allI ballI impI) (rule assms; assumption)+

lemma bulk_frame:
  assumes "bulk_ok \<sigma>" "bulk \<sigma>' = bulk \<sigma>" "alive \<sigma>' = alive \<sigma>" "b_pc \<sigma>' = b_pc \<sigma>" "b_ids \<sigma>' = b_ids \<sigma>" "b_init \<sigma>' = b_init \<sigma>"
    "set (completions \<sigma>) \<subseteq> set (completions \<sigma>')"
    and R: "set (b_ids \<sigma>) \<subseteq> set (completions \<sigma>) \<Longrightarrow> map (res \<sigma>') (b_ids \<sigma>) = map (res \<sigma>) (b_ids \<sigma>)"
  shows "bulk_ok \<sigma>'"
proof (cases "bulk \<sigma> = None")
  case True
  then show ?thesis using assms by (simp add: bulk_ok_def)
next
  case False
  then have sub: "set (b_ids \<sigma>) \<subseteq> set (completions \<sigma>)" using assms(1) by (simp add: bulk_ok_def)
  show ?thesis unfolding bulk_ok_def assms(2-6) R [OF sub] using assms(1,7) sub False by (auto simp: bulk_ok_def)
qed

lemma spawn_inv:
  assumes I: "js_inv \<sigma>"
  shows "js_inv (snd (js_exec (J_Spawn tag) \<sigma>))"
proof (cases "alive \<sigma>")
  case True
  note L = lists_okD [OF js_invD(1) [OF I]]
  let ?n = "next_id \<sigma>"
  let ?t = "\<sigma>\<lparr>js := js_spawn ?n tag (js \<sigma>), tasks := (tasks \<sigma>)(?n := new_task\<lparr>t_state := Notified\<rparr>), next_id := Suc ?n\<rparr>"
  have old: "map (res ?t) ns = map (res \<sigma>) ns" if "set ns \<subseteq> set (completions \<sigma>)" for ns
    using that L(4) by (intro res_cong) (auto simp: js_spawn_def)
  have new: "?n \<notin> set (completions \<sigma>)" "?n \<notin> set (pending_handles (js \<sigma>))" using L(4,5) by blast+
  have "map (res ?t) (take (length (delivered \<sigma>)) (completions \<sigma>)) = delivered \<sigma>"
    using old [of "take (length (delivered \<sigma>)) (completions \<sigma>)"] L(2) by (simp add: set_take_subset)
  moreover have "in_sweep ?t = in_sweep \<sigma>" by (simp add: in_sweep_def)
  ultimately have "lists_ok ?t" using L(1,3-6) L(7) [OF True] new True
    by (auto simp: lists_ok_def js_spawn_def less_Suc_eq)
  moreover have "tasks_ok ?t" using js_invD(2) [OF I] L(4,5) by (auto simp: tasks_ok_def task_good_def js_spawn_def new_task_def less_Suc_eq)
  moreover have "bulk_ok ?t" by (rule bulk_frame [OF js_invD(3) [OF I]]) (simp_all only: old, simp_all)
  moreover have "js_waker_ok ?t" using js_invD(4) [OF I] by (auto simp: js_waker_ok_def js_spawn_def)
  ultimately show ?thesis using True by (simp add: js_inv_def)
qed (use I in simp)

lemma task_poll_fields:
  assumes "task_poll c r t = (p, t')" "m_future t"
  shows "p \<noteq> Already_Done \<and> (p = Still_Pending \<longleftrightarrow> m_future t') \<and> t_result t' = t_result t \<and> t_exception t' = t_exception t"
  using assms by (auto simp: task_poll_def Let_def split: if_splits)

lemma task_end_good:
  assumes "t_result t = None" "t_exception t = None" "\<not> m_future t"
  shows "task_good (Some e) (snd (task_end e t))"
  using assms by (cases e) (simp_all add: task_good_def task_end_def mark_done_def setResult_def setException_def outcome_of_def end_outcome_def)

lemma poll_task_inv:
  assumes I: "js_inv \<sigma>"
  shows "js_inv (snd (js_exec (J_Poll n r) \<sigma>))"
proof (cases "n < next_id \<sigma>")
  case n: True
  obtain p t where p: "task_poll True r (tasks \<sigma> n) = (p, t)" by fastforce
  have T: "task_good (endings \<sigma> n) (tasks \<sigma> n)" using js_invD(2) [OF I] n by (simp add: tasks_ok_def)
  show ?thesis
  proof (cases "endings \<sigma> n")
    case (Some e)
    then have "p = Already_Done" "t = tasks \<sigma> n" using T p by (auto simp: task_good_def task_poll_def)
    then show ?thesis using n p I by simp
  next
    case None
    then have f: "m_future (tasks \<sigma> n)" "t_result (tasks \<sigma> n) = None" "t_exception (tasks \<sigma> n) = None" using T by (auto simp: task_good_def)
    note F = task_poll_fields [OF p f(1)]
    show ?thesis
    proof (cases "\<exists>e. p = Ends e")
      case True
      then obtain e where e: "p = Ends e" by blast
      have nc: "n \<notin> set (completions \<sigma>)" using js_invD(2) [OF I] None by (auto simp: tasks_ok_def)
      let ?t = "\<sigma>\<lparr>tasks := (tasks \<sigma>)(n := snd (task_end e t)), finishing := insert n (finishing \<sigma>), endings := (endings \<sigma>)(n := Some e)\<rparr>"
      have old: "map (res ?t) ns = map (res \<sigma>) ns" if "set ns \<subseteq> set (completions \<sigma>)" for ns
        using that nc by (intro res_cong) auto
      have "map (res ?t) (take (length (delivered \<sigma>)) (completions \<sigma>)) = delivered \<sigma>"
        using old [of "take (length (delivered \<sigma>)) (completions \<sigma>)"] lists_okD(2) [OF js_invD(1) [OF I]] by (simp add: set_take_subset)
      then have "lists_ok ?t" using js_invD(1) [OF I] by (simp add: lists_ok_def in_sweep_def)
      moreover have "task_good (Some e) (snd (task_end e t))" using F e f by (intro task_end_good) auto
      then have "tasks_ok ?t" using js_invD(2) [OF I] n by (auto simp: tasks_ok_def)
      moreover have "bulk_ok ?t" by (rule bulk_frame [OF js_invD(3) [OF I]]) (simp_all only: old, simp_all)
      moreover have "js_waker_ok ?t" using js_invD(4) [OF I] by (simp add: js_waker_ok_def)
      ultimately have "js_inv ?t" by (simp add: js_inv_def)
      then show ?thesis using n p e by simp
    next
      case False
      then have sp: "p = Still_Pending" using F by (cases p) auto
      then have "same_results (tasks \<sigma>) ((tasks \<sigma>)(n := t))" using F f by (auto simp: same_results_def)
      moreover have "bulk_ok (\<sigma>\<lparr>bulk := bulk \<sigma>, tasks := (tasks \<sigma>)(n := t), b_pc := b_pc \<sigma>\<rparr>)" using js_invD(3) [OF I] by (simp add: bulk_ok_def)
      ultimately have "js_inv (\<sigma>\<lparr>bulk := bulk \<sigma>, tasks := (tasks \<sigma>)(n := t), b_pc := b_pc \<sigma>\<rparr>)" by (rule tasks_inv [OF I]) simp
      then show ?thesis using n p sp by simp
    qed
  qed
qed (use I in simp)

lemma done_inv:
  assumes I: "js_inv \<sigma>"
  shows "js_inv (snd (js_exec (J_Done n) \<sigma>))"
proof (cases "n \<in> finishing \<sigma>")
  case fin: True
  note L = lists_okD [OF js_invD(1) [OF I]]
  have en: "endings \<sigma> n \<noteq> None" using js_invD(2) [OF I] fin by (simp add: tasks_ok_def)
  show ?thesis
  proof (cases "alive \<sigma> \<and> node_task (js \<sigma>) n")
    case True
    let ?s = "(js \<sigma>)\<lparr>pending_handles := remove1 n (pending_handles (js \<sigma>)), node_task := (node_task (js \<sigma>))(n := False),
              idle_handles := idle_handles (js \<sigma>) @ [n], consumer_waker := None\<rparr>"
    let ?t = "\<sigma>\<lparr>js := ?s, finishing := finishing \<sigma> - {n}, js_waiting := unwoken (wake_opt (consumer_waker (js \<sigma>))) (js_waiting \<sigma>),
      idle_only := False, completions := completions \<sigma> @ [n]\<rparr>"
    have np: "n \<in> set (pending_handles (js \<sigma>))" using True L(6) by blast
    then have nc: "n \<notin> set (completions \<sigma>)" using L(3) by auto
    have R: "res ?t = res \<sigma>" by (simp add: res_def fun_eq_iff)
    have "lists_ok ?t" unfolding lists_ok_def R using L np nc True by (auto simp: in_sweep_def notin_set_remove1)
    moreover have "tasks_ok ?t" using js_invD(2) [OF I] en L(3) by (auto simp: tasks_ok_def)
    moreover have "bulk_ok ?t" by (rule bulk_frame [OF js_invD(3) [OF I]]) (simp_all only: R, auto)
    moreover have "js_waker_ok ?t" using js_invD(4) [OF I] by (auto simp: js_waker_ok_def unwoken_waker)
    ultimately have "js_inv ?t" by (simp add: js_inv_def)
    then show ?thesis using fin True by (simp add: on_task_complete_def)
  next
    case False
    then have np: "n \<notin> set (pending_handles (js \<sigma>))" using L(6,8) by auto
    let ?t = "\<sigma>\<lparr>finishing := finishing \<sigma> - {n}\<rparr>"
    have "lists_ok ?t" using js_invD(1) [OF I] by (simp add: lists_ok_def in_sweep_def)
    moreover have "tasks_ok ?t" using js_invD(2) [OF I] np by (auto simp: tasks_ok_def)
    moreover have "bulk_ok ?t" using js_invD(3) [OF I] by (simp add: bulk_ok_def)
    moreover have "js_waker_ok ?t" using js_invD(4) [OF I] by (simp add: js_waker_ok_def)
    ultimately have "js_inv ?t" by (simp add: js_inv_def)
    then show ?thesis using fin False by (auto simp: on_task_complete_def)
  qed
qed (use I in simp)

lemma take_res:
  assumes I: "js_inv \<sigma>" and n: "n \<in> set (completions \<sigma>)"
  shows "take_result n (tasks \<sigma>) (js \<sigma>) = res \<sigma> n"
proof -
  have "n < next_id \<sigma>" using lists_okD(4) [OF js_invD(1) [OF I]] n by blast
  moreover have "endings \<sigma> n \<noteq> None" using js_invD(2) [OF I] n by (simp add: tasks_ok_def)
  ultimately show ?thesis using js_invD(2) [OF I] by (auto simp: tasks_ok_def task_good_def take_result_def res_def)
qed

lemma take_res_list:
  assumes I: "js_inv \<sigma>" and ns: "in_sweep \<sigma> @ idle_handles (js \<sigma>) = ns @ ms"
  shows "map (\<lambda>n. take_result n (tasks \<sigma>) (js \<sigma>)) ns = map (res \<sigma>) ns"
proof (rule map_cong [OF refl])
  fix n assume "n \<in> set ns"
  then have "n \<in> set (drop (length (delivered \<sigma>)) (completions \<sigma>))" using lists_okD(1) [OF js_invD(1) [OF I]] ns by simp
  then show "take_result n (tasks \<sigma>) (js \<sigma>) = res \<sigma> n" by (intro take_res [OF I]) (rule in_set_dropD)
qed

lemma deliver:
  assumes L: "lists_ok \<sigma>" and d: "in_sweep \<sigma> @ idle_handles (js \<sigma>) = xs @ ys"
  shows "drop (length (delivered \<sigma> @ map (res \<sigma>) xs)) (completions \<sigma>) = ys"
    "delivered \<sigma> @ map (res \<sigma>) xs = map (res \<sigma>) (take (length (delivered \<sigma> @ map (res \<sigma>) xs)) (completions \<sigma>))"
proof -
  define T where "T = take (length (delivered \<sigma>)) (completions \<sigma>)"
  have c: "completions \<sigma> = T @ xs @ ys"
    using append_take_drop_id [of "length (delivered \<sigma>)" "completions \<sigma>"] lists_okD(1) [OF L] d by (simp add: T_def)
  have len: "length (delivered \<sigma>) = length T" using lists_okD(9) [OF L] by (simp add: T_def)
  have T: "delivered \<sigma> = map (res \<sigma>) T" using lists_okD(2) [OF L] by (simp add: T_def)
  show "drop (length (delivered \<sigma> @ map (res \<sigma>) xs)) (completions \<sigma>) = ys" by (simp add: len c)
  have "take (length (delivered \<sigma> @ map (res \<sigma>) xs)) (completions \<sigma>) = T @ xs" by (simp add: len c)
  then show "delivered \<sigma> @ map (res \<sigma>) xs = map (res \<sigma>) (take (length (delivered \<sigma> @ map (res \<sigma>) xs)) (completions \<sigma>))"
    using T by simp
qed

text \<open>A change of the set's waker, of where the bulk future is and of what has been handed out.\<close>

lemma consumer_inv:
  assumes I: "js_inv \<sigma>" and keep: "pending_handles s = pending_handles (js \<sigma>)" "node_task s = node_task (js \<sigma>)" "node_tag s = node_tag (js \<sigma>)"
    and order: "in_sweep \<sigma> @ idle_handles (js \<sigma>) = xs @ in_sweep (\<sigma>\<lparr>b_pc := p\<rparr>) @ idle_handles s"
    and ts: "same_results (tasks \<sigma>) ts"
    and bulk: "bulk_ok (\<sigma>\<lparr>js := s, tasks := ts, bulk := b, b_pc := p, b_ids := ids, js_waiting := w, idle_only := i, delivered := delivered \<sigma> @ map (res \<sigma>) xs\<rparr>)"
    and wk: "js_waker_ok (\<sigma>\<lparr>js := s, tasks := ts, bulk := b, b_pc := p, b_ids := ids, js_waiting := w, idle_only := i, delivered := delivered \<sigma> @ map (res \<sigma>) xs\<rparr>)"
  shows "js_inv (\<sigma>\<lparr>js := s, tasks := ts, bulk := b, b_pc := p, b_ids := ids, js_waiting := w, idle_only := i, delivered := delivered \<sigma> @ map (res \<sigma>) xs\<rparr>)"
    (is "js_inv ?t")
proof -
  note L = js_invD(1) [OF I]
  have sweep: "in_sweep ?t = in_sweep (\<sigma>\<lparr>b_pc := p\<rparr>)" by (simp add: in_sweep_def)
  have R: "res ?t = res \<sigma>" using keep(3) by (simp add: res_def fun_eq_iff)
  have "drop (length (delivered ?t)) (completions ?t) = in_sweep ?t @ idle_handles (js ?t)" unfolding sweep using deliver(1) [OF L order] by simp
  moreover have "delivered ?t = map (res ?t) (take (length (delivered ?t)) (completions ?t))" unfolding R by simp (rule deliver(2) [OF L order, simplified])
  moreover have "distinct (completions ?t @ pending_handles (js ?t))" using lists_okD(3) [OF L] keep(1) by simp
  ultimately have "lists_ok ?t" by (rule lists_okI) (use lists_okD(4-8) [OF L] keep(1,2) in auto)
  moreover have "tasks_ok ?t" using js_invD(2) [OF I] same_good [OF ts] keep(1) by (simp add: tasks_ok_def)
  ultimately show ?thesis using bulk wk by (simp add: js_inv_def)
qed

lemma next_inv:
  assumes I: "js_inv \<sigma>"
  shows "js_inv (snd (js_exec (J_Next w) \<sigma>))"
proof (cases "alive \<sigma> \<and> b_pc \<sigma> = B_Rest")
  case True
  then have sw: "in_sweep \<sigma> = []" by (simp add: in_sweep_def)
  show ?thesis
  proof (cases "idle_handles (js \<sigma>)")
    case (Cons n ns)
    let ?t = "\<sigma>\<lparr>js := (js \<sigma>)\<lparr>idle_handles := ns\<rparr>, tasks := tasks \<sigma>, bulk := bulk \<sigma>, b_pc := b_pc \<sigma>, b_ids := b_ids \<sigma>, js_waiting := js_waiting \<sigma>,
      idle_only := idle_only \<sigma>, delivered := delivered \<sigma> @ map (res \<sigma>) [n]\<rparr>"
    have B: "bulk_ok ?t" by (rule bulk_frame [OF js_invD(3) [OF I]]) (simp_all add: res_def)
    have "js_waker_ok ?t" using js_invD(4) [OF I] by (simp add: js_waker_ok_def)
    then have "js_inv ?t" using Cons sw by (intro consumer_inv [OF I] B) simp_all
    then have "js_inv (\<sigma>\<lparr>js := (js \<sigma>)\<lparr>idle_handles := ns\<rparr>, delivered := delivered \<sigma> @ [res \<sigma> n]\<rparr>)" by simp
    moreover have "take_result n (tasks \<sigma>) (js \<sigma>) = res \<sigma> n" using take_res_list [OF I, of "[n]" ns] Cons sw by simp
    ultimately show ?thesis using True Cons by (simp add: js_poll_next_def isPending_def)
  next
    case Nil
    show ?thesis
    proof (cases "pending_handles (js \<sigma>) = []")
      case False
      let ?t = "\<sigma>\<lparr>js := (js \<sigma>)\<lparr>consumer_waker := Some w\<rparr>, tasks := tasks \<sigma>, bulk := bulk \<sigma>, b_pc := b_pc \<sigma>, b_ids := b_ids \<sigma>, js_waiting := Some w,
        idle_only := False, delivered := delivered \<sigma> @ map (res \<sigma>) []\<rparr>"
      have B: "bulk_ok ?t" by (rule bulk_frame [OF js_invD(3) [OF I]]) (simp_all add: res_def)
      have "js_waker_ok ?t" using True False by (simp add: js_waker_ok_def)
      then have "js_inv ?t" using Nil sw by (intro consumer_inv [OF I] B) simp_all
      then have "js_inv (\<sigma>\<lparr>js := (js \<sigma>)\<lparr>consumer_waker := Some w\<rparr>, js_waiting := Some w, idle_only := False\<rparr>)" by simp
      then show ?thesis using True Nil False by (simp add: js_poll_next_def isPending_def)
    qed (use I True Nil in \<open>simp add: js_poll_next_def isPending_def\<close>)
  qed
qed (use I in auto)

lemma drop_set_inv:
  assumes I: "js_inv \<sigma>"
  shows "js_inv (snd (js_exec (J_Drop in_coro) \<sigma>))"
proof (cases "bulk \<sigma>")
  case None
  note L = lists_okD [OF js_invD(1) [OF I]]
  let ?s = "(js \<sigma>)\<lparr>pending_handles := [], node_task := (\<lambda>n. node_task (js \<sigma>) n \<and> n \<notin> set (pending_handles (js \<sigma>)))\<rparr>"
  let ?t = "\<sigma>\<lparr>js := ?s, tasks := cancel_each (filter (node_task (js \<sigma>)) (pending_handles (js \<sigma>))) (tasks \<sigma>), alive := False, js_waiting := None\<rparr>"
  have R: "res ?t = res \<sigma>" by (simp add: res_def fun_eq_iff)
  have "lists_ok ?t"
  proof (rule lists_okI)
    show "drop (length (delivered ?t)) (completions ?t) = in_sweep ?t @ idle_handles (js ?t)" using L(1) by (simp add: in_sweep_def)
    show "delivered ?t = map (res ?t) (take (length (delivered ?t)) (completions ?t))" unfolding R by simp (rule L(2))
  qed (use L(3-6) in auto)
  moreover have "tasks_ok ?t" using js_invD(2) [OF I] same_good [OF same_cancel(1), of _ _ "tasks \<sigma>"] by (simp add: tasks_ok_def)
  moreover have "bulk_ok ?t" using js_invD(3) [OF I] None by (simp add: bulk_ok_def)
  moreover have "js_waker_ok ?t" by (simp add: js_waker_ok_def)
  ultimately show ?thesis using None by (simp add: js_inv_def cancel_pending_def Let_def)
qed (use I in simp)

lemma begin_bulk_inv:
  assumes I: "js_inv \<sigma>" and c: "fresh c"
  shows "js_inv (begin_bulk c e \<sigma>)"
proof (cases "bulk \<sigma> \<noteq> None \<or> \<not> alive \<sigma>")
  case False
  let ?t = "\<sigma>\<lparr>bulk := Some (new_bulk c e), b_init := c, b_ids := []\<rparr>"
  have "b_pc \<sigma> = B_Rest" using js_invD(3) [OF I] False by (auto simp: bulk_ok_def)
  then have "bulk_ok ?t" using False c by (simp add: bulk_ok_def new_bulk_def)
  moreover have "lists_ok ?t" using js_invD(1) [OF I] by (simp add: lists_ok_def in_sweep_def)
  moreover have "tasks_ok ?t" using js_invD(2) [OF I] by (simp add: tasks_ok_def)
  moreover have "js_waker_ok ?t" using js_invD(4) [OF I] by (simp add: js_waker_ok_def)
  ultimately show ?thesis using False by (simp add: js_inv_def begin_bulk_def)
qed (use I in \<open>simp add: begin_bulk_def\<close>)

lemma cancel_once:
  "m_collector (fst (cancel_all_once s b ts)) = m_collector b \<and> m_dropped (fst (cancel_all_once s b ts)) = m_dropped b
   \<and> same_results ts (snd (cancel_all_once s b ts))"
  by (simp add: cancel_all_once_def)

lemma bulk_cancel_inv:
  assumes I: "js_inv \<sigma>"
  shows "js_inv (snd (js_exec B_Cancel \<sigma>))"
proof (cases "bulk \<sigma>")
  case (Some b)
  obtain b' ts where c: "bulk_cancel (js \<sigma>) b (tasks \<sigma>) = (b', ts)" by fastforce
  then have "m_dropped b'" "same_results (tasks \<sigma>) ts"
    using cancel_once [of "js \<sigma>" "b\<lparr>m_dropped := True\<rparr>" "tasks \<sigma>"] by (simp_all add: bulk_cancel_def)
  moreover from this(1) have "bulk_ok (\<sigma>\<lparr>bulk := Some b', tasks := ts, b_pc := b_pc \<sigma>\<rparr>)"
    using js_invD(3) [OF I] Some by (simp add: bulk_ok_def)
  ultimately have "js_inv (\<sigma>\<lparr>bulk := Some b', tasks := ts, b_pc := b_pc \<sigma>\<rparr>)" by (intro tasks_inv [OF I]) simp_all
  then show ?thesis using Some c by simp
qed (use I in simp)

lemma bulk_poll_inv:
  assumes I: "js_inv \<sigma>"
  shows "js_inv (snd (js_exec (B_Poll w) \<sigma>))"
proof (cases "\<exists>b. bulk \<sigma> = Some b \<and> b_pc \<sigma> = B_Rest")
  case True
  then obtain b where b: "bulk \<sigma> = Some b" "b_pc \<sigma> = B_Rest" by blast
  obtain b' ts where c: "(if kCancelsAtStart (m_collector b) then cancel_all_once (js \<sigma>) b (tasks \<sigma>) else (b, tasks \<sigma>)) = (b', ts)" by fastforce
  have same: "m_collector b' = m_collector b" "m_dropped b' = m_dropped b" "same_results (tasks \<sigma>) ts"
    using c cancel_once [of "js \<sigma>" b "tasks \<sigma>"] by (auto split: if_splits)
  have "bulk_ok (\<sigma>\<lparr>bulk := Some b', tasks := ts, b_pc := B_Entered w\<rparr>)" using js_invD(3) [OF I] b same by (simp add: bulk_ok_def)
  then have "js_inv (\<sigma>\<lparr>bulk := Some b', tasks := ts, b_pc := B_Entered w\<rparr>)"
    using same(3) b by (intro tasks_inv [OF I]) (simp_all add: in_sweep_def)
  moreover have "snd (js_exec (B_Poll w) \<sigma>) = \<sigma>\<lparr>bulk := Some b', tasks := ts, b_pc := B_Entered w\<rparr>"
    using b c by (cases \<sigma>) (auto split: prod.splits if_splits)
  ultimately show ?thesis by simp
qed (use I in \<open>auto split: option.splits\<close>)

lemma snap_inv:
  assumes I: "js_inv \<sigma>"
  shows "js_inv (snd (js_exec B_Snap \<sigma>))"
proof (cases "b_pc \<sigma>")
  case (B_Entered w)
  let ?s = "(js \<sigma>)\<lparr>idle_handles := []\<rparr>" let ?ap = "pending_handles (js \<sigma>) \<noteq> []"
  let ?s' = "if ?ap then ?s\<lparr>consumer_waker := Some w\<rparr> else ?s"
  let ?w = "if ?ap then Some w else js_waiting \<sigma>" let ?i = "idle_only \<sigma> \<and> \<not> ?ap" let ?p = "B_Snapped w (idle_handles (js \<sigma>)) ?ap"
  let ?t = "\<sigma>\<lparr>js := ?s', tasks := tasks \<sigma>, bulk := bulk \<sigma>, b_pc := ?p, b_ids := b_ids \<sigma>, js_waiting := ?w, idle_only := ?i, delivered := delivered \<sigma> @ map (res \<sigma>) []\<rparr>"
  have al: "alive \<sigma>" and bk: "bulk \<sigma> \<noteq> None" using js_invD(3) [OF I] B_Entered by (auto simp: bulk_ok_def)
  have R: "res ?t = res \<sigma>" by (simp add: res_def fun_eq_iff)
  have "bulk_ok ?t" unfolding bulk_ok_def R using js_invD(3) [OF I] bk by (simp add: bulk_ok_def)
  moreover have "js_waker_ok ?t" using js_invD(4) [OF I] al by (auto simp: js_waker_ok_def)
  ultimately have "js_inv ?t" using B_Entered by (intro consumer_inv [OF I]) (simp_all add: in_sweep_def)
  moreover have "snd (js_exec B_Snap \<sigma>) = ?t" using B_Entered by (simp add: bulk_snap_def Let_def)
  ultimately show ?thesis by simp
qed (use I in simp_all)

lemma bulk_sweep_spec:
  "snd (bulk_sweep ns ts s f b) = b\<lparr>m_collector := (if m_dropped b then m_collector b else fold collector_add (map (\<lambda>n. take_result n ts s) ns) (m_collector b))\<rparr>"
  by (induction ns arbitrary: f b) (simp_all add: Let_def)

lemma bulk_process_spec:
  assumes "bulk_process ns s b ts = (b', ts')"
  shows "m_dropped b' = m_dropped b \<and> same_results ts ts'
    \<and> (\<not> m_dropped b \<longrightarrow> m_collector b' = fold collector_add (map (\<lambda>n. take_result n ts s) ns) (m_collector b))"
proof -
  obtain f c where fc: "bulk_sweep ns ts s False b = (f, c)" by fastforce
  then have "c = b\<lparr>m_collector := (if m_dropped b then m_collector b else fold collector_add (map (\<lambda>n. take_result n ts s) ns) (m_collector b))\<rparr>"
    using bulk_sweep_spec [of ns ts s False b] by simp
  then show ?thesis using assms fc cancel_once [of s c ts] by (auto simp: bulk_process_def split: if_splits)
qed

lemma sweep_inv:
  assumes I: "js_inv \<sigma>"
  shows "js_inv (snd (js_exec B_Sweep \<sigma>))"
proof (cases "\<exists>w ns ap b. b_pc \<sigma> = B_Snapped w ns ap \<and> bulk \<sigma> = Some b")
  case True
  then obtain w ns ap b where b: "b_pc \<sigma> = B_Snapped w ns ap" "bulk \<sigma> = Some b" by blast
  obtain b' ts where p: "bulk_process ns (js \<sigma>) b (tasks \<sigma>) = (b', ts)" by fastforce
  have rs: "map (\<lambda>n. take_result n (tasks \<sigma>) (js \<sigma>)) ns = map (res \<sigma>) ns" using b by (intro take_res_list [OF I]) (simp add: in_sweep_def)
  note P = bulk_process_spec [OF p, unfolded rs]
  have al: "alive \<sigma>" "set (b_ids \<sigma>) \<subseteq> set (completions \<sigma>)" and B: "\<not> m_dropped b \<Longrightarrow> m_collector b = fold collector_add (map (res \<sigma>) (b_ids \<sigma>)) (b_init \<sigma>)"
    using js_invD(3) [OF I] b by (auto simp: bulk_ok_def)
  have sub: "set ns \<subseteq> set (completions \<sigma>)"
    using lists_okD(1) [OF js_invD(1) [OF I]] b set_drop_subset [of "length (delivered \<sigma>)" "completions \<sigma>"] by (simp add: in_sweep_def)
  let ?p = "if ap then B_Rest else B_Swept w"
  let ?t = "\<sigma>\<lparr>js := js \<sigma>, tasks := ts, bulk := Some b', b_pc := ?p, b_ids := b_ids \<sigma> @ ns, js_waiting := js_waiting \<sigma>, idle_only := idle_only \<sigma>,
    delivered := delivered \<sigma> @ map (res \<sigma>) ns\<rparr>"
  have R: "res ?t = res \<sigma>" by (simp add: res_def fun_eq_iff)
  have "bulk_ok ?t" unfolding bulk_ok_def R using P B al sub js_invD(3) [OF I] by (simp add: bulk_ok_def)
  moreover have "js_waker_ok ?t" using js_invD(4) [OF I] by (simp add: js_waker_ok_def)
  ultimately have "js_inv ?t" using b P by (intro consumer_inv [OF I]) (auto simp: in_sweep_def)
  moreover have "snd (js_exec B_Sweep \<sigma>) = ?t" using b p rs by (simp add: Let_def)
  ultimately show ?thesis by simp
qed (use I in \<open>auto split: bulk_pc.splits option.splits\<close>)

lemma recheck_inv:
  assumes I: "js_inv \<sigma>"
  shows "js_inv (snd (js_exec B_Recheck \<sigma>))"
proof (cases "\<exists>w b. b_pc \<sigma> = B_Swept w \<and> bulk \<sigma> = Some b")
  case True
  then obtain w b where b: "b_pc \<sigma> = B_Swept w" "bulk \<sigma> = Some b" by blast
  obtain r s where r: "bulk_recheck w b (js \<sigma>) = (r, s)" by fastforce
  have s: "pending_handles s = pending_handles (js \<sigma>)" "node_task s = node_task (js \<sigma>)" "node_tag s = node_tag (js \<sigma>)"
    "idle_handles s = idle_handles (js \<sigma>)" "isPending r \<Longrightarrow> consumer_waker s = Some w" "\<not> isPending r \<Longrightarrow> s = js \<sigma>"
    using r by (auto simp: bulk_recheck_def isPending_def split: if_splits)
  let ?w = "if isPending r then Some w else js_waiting \<sigma>" let ?i = "isPending r \<and> pending_handles (js \<sigma>) = [] \<or> idle_only \<sigma> \<and> \<not> isPending r"
  let ?t = "\<sigma>\<lparr>js := s, tasks := tasks \<sigma>, bulk := (if isPending r then Some b else None), b_pc := B_Rest, b_ids := b_ids \<sigma>, js_waiting := ?w, idle_only := ?i,
    delivered := delivered \<sigma> @ map (res \<sigma>) []\<rparr>"
  have R: "res ?t = res \<sigma>" using s(3) by (simp add: res_def fun_eq_iff)
  have al: "alive \<sigma>" using js_invD(3) [OF I] b by (auto simp: bulk_ok_def)
  have "bulk_ok ?t" unfolding bulk_ok_def R using js_invD(3) [OF I] b by (simp add: bulk_ok_def)
  moreover have "js_waker_ok ?t" using js_invD(4) [OF I] al s by (auto simp: js_waker_ok_def)
  ultimately have "js_inv ?t" using b s by (intro consumer_inv [OF I]) (simp_all add: in_sweep_def)
  moreover have "snd (js_exec B_Recheck \<sigma>) = ?t" using b r by (simp add: Let_def)
  ultimately show ?thesis by simp
qed (use I in \<open>auto split: bulk_pc.splits option.splits\<close>)

lemma cancel_all_inv:
  assumes I: "js_inv \<sigma>"
  shows "js_inv (snd (js_exec J_Cancel_All \<sigma>))"
proof -
  have "bulk_ok (\<sigma>\<lparr>bulk := bulk \<sigma>, tasks := join_set_cancel_all (js \<sigma>) (tasks \<sigma>), b_pc := b_pc \<sigma>\<rparr>)"
    using js_invD(3) [OF I] by (simp add: bulk_ok_def)
  then have "js_inv (\<sigma>\<lparr>bulk := bulk \<sigma>, tasks := join_set_cancel_all (js \<sigma>) (tasks \<sigma>), b_pc := b_pc \<sigma>\<rparr>)"
    by (intro tasks_inv [OF I]) simp_all
  then show ?thesis by simp
qed

lemma js_exec_inv: "js_inv \<sigma> \<Longrightarrow> js_inv (snd (js_exec op \<sigma>))"
proof (cases op)
  case (B_All e)
  then show "js_inv \<sigma> \<Longrightarrow> ?thesis" using begin_bulk_inv [of \<sigma> "JoinAll []"] by (simp add: fresh_def)
next
  case (B_Drain e rl)
  then show "js_inv \<sigma> \<Longrightarrow> ?thesis" using begin_bulk_inv [of \<sigma> "Drain None rl"] by (simp add: fresh_def)
next
  case B_Shutdown
  then show "js_inv \<sigma> \<Longrightarrow> ?thesis" using begin_bulk_inv [of \<sigma> Shutdown] by (simp add: fresh_def)
qed (simp_all only: spawn_inv poll_task_inv done_inv next_inv cancel_all_inv drop_set_inv bulk_cancel_inv bulk_poll_inv snap_inv sweep_inv recheck_inv)

lemma js_init_inv: "js_inv (js_init tags)"
  by (simp add: js_inv_def js_init_def js_new_def lists_ok_def tasks_ok_def bulk_ok_def js_waker_ok_def in_sweep_def fresh_def)

interpretation join_set: op_system "js_init tags" js_exec js_inv for tags
  by unfold_locales (simp_all only: js_init_inv js_exec_inv)

section \<open>What the bulk futures answer\<close>

definition pick_failure :: "(join_error \<Rightarrow> bool) option \<Rightarrow> join_error list \<Rightarrow> join_error option" where
  "pick_failure rl fs =
     (case rl of
        None \<Rightarrow> front_of fs
      | Some f \<Rightarrow> (case front_of (filter (\<lambda>x. \<not> f x) fs) of Some x \<Rightarrow> Some x | None \<Rightarrow> front_of fs))"

definition drain_spec :: "(join_error \<Rightarrow> bool) option \<Rightarrow> ('a, 't) join_result list \<Rightarrow> join_error option" where
  "drain_spec rl rs = pick_failure rl (map failure_of (filter (\<lambda>r. \<not> has_value r) rs))"

lemma pick_failure_ranks:
  "pick_failure (Some f) fs = Some x \<Longrightarrow> f x \<longleftrightarrow> (\<forall>y\<in>set fs. f y)"
proof (cases "filter (\<lambda>x. \<not> f x) fs")
  case Nil
  then show "pick_failure (Some f) fs = Some x \<Longrightarrow> ?thesis"
    using front_of_in_set [of fs x] by (auto simp: pick_failure_def filter_empty_conv)
next
  case (Cons y ys)
  then have "y \<in> set (filter (\<lambda>x. \<not> f x) fs)" by simp
  then have "\<not> f y" "y \<in> set fs" by simp_all
  then show "pick_failure (Some f) fs = Some x \<Longrightarrow> ?thesis" using Cons by (auto simp: pick_failure_def)
qed

lemma pick_failure_snoc_ranked:
  "pick_failure (Some f) (fs @ [y]) =
     (if pick_failure (Some f) fs = None \<or> (\<forall>x\<in>set fs. f x) \<and> \<not> f y then Some y else pick_failure (Some f) fs)"
proof (cases "filter (\<lambda>x. \<not> f x) fs")
  case Nil
  then have all: "\<forall>x\<in>set fs. f x" by (simp add: filter_empty_conv)
  then show ?thesis using Nil by (cases fs) (simp_all add: pick_failure_def)
next
  case (Cons x xs)
  then have "x \<in> set (filter (\<lambda>x. \<not> f x) fs)" by simp
  then have "\<not> f x" "x \<in> set fs" by simp_all
  then show ?thesis using Cons by (auto simp: pick_failure_def)
qed

lemma drain_add_spec: "drain_add rl r (drain_spec rl rs) = drain_spec rl (rs @ [r])"
proof (cases "has_value r")
  case True
  then show ?thesis by (simp add: drain_add_def drain_spec_def)
next
  case nv: False
  define fs where "fs = map failure_of (filter (\<lambda>r. \<not> has_value r) rs)"
  have spec: "drain_spec rl rs = pick_failure rl fs" "drain_spec rl (rs @ [r]) = pick_failure rl (fs @ [failure_of r])"
    using nv by (simp_all add: drain_spec_def fs_def)
  show ?thesis
  proof (cases rl)
    case None
    then show ?thesis unfolding spec using nv by (cases fs) (simp_all add: drain_add_def pick_failure_def)
  next
    case (Some f)
    show ?thesis
    proof (cases "pick_failure (Some f) fs")
      case None
      then show ?thesis unfolding spec unfolding Some pick_failure_snoc_ranked using nv by (simp add: drain_add_def)
    next
      case (Some x)
      then show ?thesis unfolding spec unfolding \<open>rl = Some f\<close> pick_failure_snoc_ranked
        using nv pick_failure_ranks [OF Some] by (simp add: drain_add_def)
    qed
  qed
qed

lemma fold_drain: "fold collector_add rs (Drain None rl) = Drain (drain_spec rl rs) rl"
proof (induction rs rule: rev_induct)
  case Nil
  show ?case by (cases rl) (simp_all add: drain_spec_def pick_failure_def)
next
  case (snoc r rs)
  then show ?case by (simp add: drain_add_spec)
qed

lemma fold_join_all: "fold collector_add rs (JoinAll xs) = JoinAll (xs @ rs)"
  by (induction rs arbitrary: xs) simp_all

lemma fold_shutdown: "fold collector_add rs Shutdown = Shutdown"
  by (induction rs) simp_all

definition bulk_spec :: "('a, 't) collector \<Rightarrow> ('a, 't) join_result list \<Rightarrow> ('a, 't) bulk_out" where
  "bulk_spec c rs =
     (case c of
        JoinAll _ \<Rightarrow> Got rs
      | Drain _ rl \<Rightarrow> (case drain_spec rl rs of Some e \<Rightarrow> Failed e | None \<Rightarrow> Fine)
      | Shutdown \<Rightarrow> Fine)"

lemma bulk_spec_fold: "fresh c \<Longrightarrow> collector_finish (fold collector_add rs c) = bulk_spec c rs"
  by (cases c) (auto simp: fresh_def bulk_spec_def fold_join_all fold_drain fold_shutdown split: option.splits)

section \<open>Properties\<close>

text \<open>
  C12. However spawning, polls of the tasks, their completion hooks, \<^verbatim>\<open>next\<close>, the bulk futures, cancelling and dropping the
  set interleave: the results handed out are those of the first tasks to complete, in completion order, each with the
  task's own ending and tag; no task completes twice; the completed tasks not yet handed out are exactly those being
  swept and those on the idle list, in that order; and while the set exists every spawned task is either pending
  or completed, and never both.
\<close>

theorem join_set_delivers:
  "let \<sigma> = snd (run_ops js_exec ops (js_init tags)) in
     delivered \<sigma> = map (res \<sigma>) (take (length (delivered \<sigma>)) (completions \<sigma>))
   \<and> drop (length (delivered \<sigma>)) (completions \<sigma>) = in_sweep \<sigma> @ idle_handles (js \<sigma>)
   \<and> distinct (completions \<sigma> @ pending_handles (js \<sigma>))
   \<and> (if alive \<sigma> then {n. n < next_id \<sigma>} = set (completions \<sigma>) \<union> set (pending_handles (js \<sigma>)) else pending_handles (js \<sigma>) = [])"
proof -
  define \<sigma> where "\<sigma> = snd (run_ops js_exec ops (js_init tags))"
  note L = lists_okD [OF js_invD(1) [OF join_set.run_inv [of ops tags, folded \<sigma>_def]]]
  have "{n. n < next_id \<sigma>} = set (completions \<sigma>) \<union> set (pending_handles (js \<sigma>))" if "alive \<sigma>"
    using L(4,5) L(7) [OF that] by blast
  then show ?thesis unfolding Let_def \<sigma>_def [symmetric] by (intro conjI L(1-3)) (simp add: L(8))
qed

text \<open>
  C13. A bulk future that ends on the value of its collector ends on an empty set: every task ever spawned has
  completed, and every result has been handed out. What \<^verbatim>\<open>join_all\<close> returns is the list of the results it swept, in
  completion order; \<^verbatim>\<open>drain\<close> throws the first failure among them (with \<^verbatim>\<open>ranks_last\<close>, the first that does not rank last, if
  there is one) and returns normally if there is none; \<^verbatim>\<open>shutdown\<close> returns normally.
\<close>

theorem join_set_bulk_result:
  fixes ops :: "('a, 't) js_op list"
  assumes "run_ops js_exec ops (js_init tags) = (outs, \<sigma>)"
    and "b_pc \<sigma> = B_Swept w" "bulk \<sigma> = Some b" "bulk_recheck w b (js \<sigma>) = (PollReady out, s)"
  shows "out = bulk_spec (b_init \<sigma>) (map (res \<sigma>) (b_ids \<sigma>)) \<and> js_empty s
    \<and> {n. n < next_id \<sigma>} = set (completions \<sigma>) \<and> delivered \<sigma> = map (res \<sigma>) (completions \<sigma>)"
proof -
  have I: "js_inv \<sigma>" using join_set.run_inv [of ops tags] assms(1) by simp
  note L = lists_okD [OF js_invD(1) [OF I]]
  have "alive \<sigma>" "fresh (b_init \<sigma>)" and c: "\<not> m_dropped b \<Longrightarrow> m_collector b = fold collector_add (map (res \<sigma>) (b_ids \<sigma>)) (b_init \<sigma>)"
    using js_invD(3) [OF I] assms(3) by (simp_all add: bulk_ok_def)
  have s: "s = js \<sigma>" "pending_handles (js \<sigma>) = []" "idle_handles (js \<sigma>) = []" "\<not> m_dropped b" "out = collector_finish (m_collector b)"
    using assms(4) by (auto simp: bulk_recheck_def split: if_splits)
  have "out = bulk_spec (b_init \<sigma>) (map (res \<sigma>) (b_ids \<sigma>))" using s(5) c [OF s(4)] bulk_spec_fold [OF \<open>fresh (b_init \<sigma>)\<close>] by simp
  moreover have "{n. n < next_id \<sigma>} = set (completions \<sigma>)" using L(4) L(7) [OF \<open>alive \<sigma>\<close>] s(2) by auto
  moreover have "drop (length (delivered \<sigma>)) (completions \<sigma>) = []" using L(1) s(3) assms(2) by (simp add: in_sweep_def)
  then have "take (length (delivered \<sigma>)) (completions \<sigma>) = completions \<sigma>" by simp
  with L(2) have "delivered \<sigma> = map (res \<sigma>) (completions \<sigma>)" by simp
  ultimately show ?thesis using s by (simp add: js_empty_def)
qed

text \<open>
  A set of two tasks, joined by \<^verbatim>\<open>join_all\<close> after the second has finished before the first.
\<close>

definition two_joined :: "(nat, nat) js_op list" where
  "two_joined = [J_Spawn 10, J_Spawn 11, B_All Wait, J_Poll 1 (PollReady 6), J_Done 1, J_Poll 0 (PollReady 5), J_Done 0, B_Poll 3, B_Snap, B_Sweep]"

theorem join_set_bulk_result_witness:
  "(let \<sigma> = snd (run_ops js_exec two_joined (js_init (\<lambda>_. 0)))
    in bulk_recheck 3 (the (bulk \<sigma>)) (js \<sigma>) = (PollReady (Got [(Value (Here 6), 11), (Value (Here 5), 10)]), js \<sigma>)
     \<and> Got [(Value (Here 6), 11), (Value (Here 5), 10)] = bulk_spec (b_init \<sigma>) (map (res \<sigma>) (b_ids \<sigma>)))"
proof -
  let ?\<sigma> = "snd (run_ops js_exec two_joined (js_init (\<lambda>_. 0)))"
  let ?b = "the (bulk ?\<sigma>)"
  have pc: "b_pc ?\<sigma> = B_Swept 3" by code_simp
  have "\<not> Option.is_none (bulk ?\<sigma>)" by code_simp
  then have b: "bulk ?\<sigma> = Some ?b" by (auto simp: Option.is_none_def)
  have "fst (bulk_recheck 3 ?b (js ?\<sigma>)) = PollReady (Got [(Value (Here 6), 11), (Value (Here 5), 10)])" by code_simp
  then have r: "bulk_recheck 3 ?b (js ?\<sigma>) = (PollReady (Got [(Value (Here 6), 11), (Value (Here 5), 10)]), js ?\<sigma>)"
    by (simp add: bulk_recheck_def split: if_splits)
  show ?thesis using join_set_bulk_result [OF prod.collapse [symmetric] pc b r] r by (simp add: Let_def)
qed

text \<open>
  C14. A consumer of the set (\<^verbatim>\<open>next\<close> or a bulk future) that has been answered pending and not woken since has its
  waker registered in the set. Unless it is waiting on a set that the second critical section of a bulk poll
  found with finished tasks and none pending, some task is pending, and the completion hook of whichever pending
  task runs next wakes that waker.
\<close>

theorem join_set_no_lost_wake:
  fixes ops :: "('a, 't) js_op list"
  assumes "run_ops js_exec ops (js_init tags) = (outs, \<sigma>)" "js_waiting \<sigma> = Some w" "\<not> idle_only \<sigma>"
  shows "pending_handles (js \<sigma>) \<noteq> [] \<and> (\<forall>n\<in>set (pending_handles (js \<sigma>)). fst (snd (on_task_complete (alive \<sigma>) n (js \<sigma>))) = [w])"
proof -
  have I: "js_inv \<sigma>" using join_set.run_inv [of ops tags] assms(1) by simp
  have w: "consumer_waker (js \<sigma>) = Some w" "alive \<sigma>" "pending_handles (js \<sigma>) \<noteq> []"
    using js_invD(4) [OF I] assms(2,3) by (simp_all add: js_waker_ok_def)
  then show ?thesis using lists_okD(6) [OF js_invD(1) [OF I]] by (simp add: on_task_complete_def)
qed

text \<open>A set whose one task runs while the consumer waits in \<^verbatim>\<open>next\<close>.\<close>

theorem join_set_no_lost_wake_witness:
  "(let \<sigma> = snd (run_ops js_exec [J_Spawn (), J_Next 7, J_Poll 0 (PollReady (5::nat))] (js_init (\<lambda>_. ())))
    in js_waiting \<sigma> = Some 7 \<and> pending_handles (js \<sigma>) = [0] \<and> fst (snd (on_task_complete (alive \<sigma>) 0 (js \<sigma>))) = [7])"
proof -
  let ?\<sigma> = "snd (run_ops js_exec [J_Spawn (), J_Next 7, J_Poll 0 (PollReady (5::nat))] (js_init (\<lambda>_. ())))"
  have *: "js_waiting ?\<sigma> = Some 7" "\<not> idle_only ?\<sigma>" "pending_handles (js ?\<sigma>) = [0]" by code_simp+
  show ?thesis using join_set_no_lost_wake [OF prod.collapse [symmetric] *(1,2)] *(1,3) by (simp add: Let_def)
qed

text \<open>
  The case \<open>join_set_no_lost_wake\<close> leaves out is real. The set is empty in the first critical section of a poll of \<^verbatim>\<open>join_all\<close>; a task is then
  spawned, ends and runs its hook before the second one. The second one sees the finished task, registers the
  waker and answers pending; but no task is pending, so no hook will run, and the hook that did run found no waker.
\<close>

theorem join_set_recheck_hang:
  "(let (outs, \<sigma>) = run_ops js_exec [B_All Wait, B_Poll 1, B_Snap, B_Sweep, J_Spawn (), J_Poll 0 (PollReady (5::nat)), J_Done 0, B_Recheck] (js_init (\<lambda>_. ()))
    in (case last outs of O_Bulk r \<Rightarrow> isPending r | _ \<Rightarrow> False) \<and> js_waiting \<sigma> = Some 1 \<and> pending_handles (js \<sigma>) = [] \<and> idle_handles (js \<sigma>) = [0])"
  by code_simp

end
