(* ===== verification/Oneshot.thy ===== *)
theory Oneshot
  imports Wakers
begin

text \<open>
  \<^verbatim>\<open>include/coro/sync/oneshot.h\<close>: a channel for one value. Every operation is one critical
  section of the shared state's mutex; the waker it takes out is woken after the unlock, which the
  model returns as a list. The handles \<^verbatim>\<open>OneshotSender\<close> and \<^verbatim>\<open>OneshotReceiver\<close> are
  a flag each: whether their \<^verbatim>\<open>m_shared\<close> is still set.
\<close>

section \<open>The shared state and its operations\<close>

record 'a oneshot =
  slot :: "'a option"
  sender_alive :: bool
  receiver_alive :: bool
  receiver_waker :: rc_waker
  tx_shared :: bool
  rx_shared :: bool

definition oneshot_channel :: "'a oneshot" where
  "oneshot_channel = \<lparr>slot = None, sender_alive = True, receiver_alive = True,
     receiver_waker = None, tx_shared = True, rx_shared = True\<rparr>"

text \<open>\<open>OneshotRecvFuture::poll\<close>; the value type may be \<^typ>\<open>unit\<close> for \<^verbatim>\<open>void\<close>.\<close>

definition recv_poll :: "waker \<Rightarrow> 'a oneshot \<Rightarrow> (ChannelError + 'a) poll_result \<times> 'a oneshot" where
  "recv_poll w s = (case slot s of
     Some v \<Rightarrow> (PollReady (Inr v), s\<lparr>slot := None\<rparr>)
   | None \<Rightarrow>
       if \<not> sender_alive s then (PollReady (Inl Closed), s)
       else (PollPending, s\<lparr>receiver_waker := Some w\<rparr>))"

definition recv_future_drop :: "'a oneshot \<Rightarrow> 'a oneshot" where
  "recv_future_drop s = s\<lparr>receiver_waker := None\<rparr>"

definition is_closed :: "'a oneshot \<Rightarrow> fault + bool" where
  "is_closed s = (if tx_shared s then Inr (\<not> receiver_alive s) else Inl Null_Deref)"

text \<open>\<open>send\<close>: the unsent value on failure, the wakers woken on success.\<close>

definition send :: "'a \<Rightarrow> 'a oneshot \<Rightarrow> fault + ('a + waker list) \<times> 'a oneshot" where
  "send v s =
     (if \<not> tx_shared s then Inl Null_Deref
      else if \<not> receiver_alive s then Inr (Inl v, s)
      else Inr (Inr (wake_opt (receiver_waker s)),
        s\<lparr>slot := Some v, receiver_waker := None, sender_alive := False, tx_shared := False\<rparr>))"

definition sender_close :: "'a oneshot \<Rightarrow> waker list \<times> 'a oneshot" where
  "sender_close s =
     (if \<not> tx_shared s then ([], s)
      else (wake_opt (receiver_waker s),
        s\<lparr>sender_alive := False, receiver_waker := None, tx_shared := False\<rparr>))"

definition sender_dropped :: "'a oneshot \<Rightarrow> fault + bool" where
  "sender_dropped s = (if rx_shared s then Inr (\<not> sender_alive s \<and> slot s = None) else Inl Null_Deref)"

definition receiver_close :: "'a oneshot \<Rightarrow> 'a oneshot" where
  "receiver_close s =
     (if \<not> rx_shared s then s
      else s\<lparr>receiver_alive := False, receiver_waker := None, rx_shared := False\<rparr>)"

section \<open>Sequences of calls\<close>

text \<open>
  The calls the two handles and one receive future can make, in any order the threads happen to
  enter the mutex. A call on a handle that is gone is not made. \<open>os_waiting\<close> records the waker of
  a receive future whose last poll was pending and that has not been woken since.
\<close>

datatype 'a os_op = OSend 'a | ODropSender | OPoll waker | ODropFuture | ODropReceiver

datatype 'a os_out =
    OSkipped
  | OFault fault
  | OSent
  | ORefused 'a
  | ODropped
  | OPolled "(ChannelError + 'a) poll_result"

record 'a os_sys =
  chan :: "'a oneshot"
  os_waiting :: rc_waker

fun os_exec :: "'a os_op \<Rightarrow> 'a os_sys \<Rightarrow> ('a os_out \<times> waker list) \<times> 'a os_sys" where
  "os_exec (OSend v) \<sigma> =
     (if \<not> tx_shared (chan \<sigma>) then ((OSkipped, []), \<sigma>) else
      case send v (chan \<sigma>) of
        Inl f \<Rightarrow> ((OFault f, []), \<sigma>)
      | Inr (Inl v, s) \<Rightarrow> ((ORefused v, []), \<sigma>\<lparr>chan := s\<rparr>)
      | Inr (Inr ws, s) \<Rightarrow> ((OSent, ws), \<sigma>\<lparr>chan := s, os_waiting := unwoken ws (os_waiting \<sigma>)\<rparr>))"
| "os_exec ODropSender \<sigma> = (case sender_close (chan \<sigma>) of
     (ws, s) \<Rightarrow> ((ODropped, ws), \<sigma>\<lparr>chan := s, os_waiting := unwoken ws (os_waiting \<sigma>)\<rparr>))"
| "os_exec (OPoll w) \<sigma> =
     (if \<not> rx_shared (chan \<sigma>) then ((OSkipped, []), \<sigma>) else
      case recv_poll w (chan \<sigma>) of
        (r, s) \<Rightarrow> ((OPolled r, []), \<sigma>\<lparr>chan := s, os_waiting := (if isPending r then Some w else None)\<rparr>))"
| "os_exec ODropFuture \<sigma> =
     ((ODropped, []), \<sigma>\<lparr>chan := recv_future_drop (chan \<sigma>), os_waiting := None\<rparr>)"
| "os_exec ODropReceiver \<sigma> =
     ((ODropped, []), \<sigma>\<lparr>chan := receiver_close (chan \<sigma>), os_waiting := None\<rparr>)"

definition os_init :: "'a os_sys" where
  "os_init = \<lparr>chan = oneshot_channel, os_waiting = None\<rparr>"

section \<open>The abstract channel\<close>

datatype 'a cell = Open | Sent 'a | Spent

text \<open>What the two ends promise, with nothing said about wakers.\<close>

record 'a os_spec =
  cell :: "'a cell"
  tx_open :: bool
  rx_open :: bool

fun spec_exec :: "'a os_op \<Rightarrow> 'a os_spec \<Rightarrow> 'a os_out \<times> 'a os_spec" where
  "spec_exec (OSend v) a =
     (if \<not> tx_open a then (OSkipped, a)
      else if \<not> rx_open a then (ORefused v, a)
      else (OSent, a\<lparr>cell := Sent v, tx_open := False\<rparr>))"
| "spec_exec ODropSender a =
     (ODropped, if tx_open a then a\<lparr>cell := Spent, tx_open := False\<rparr> else a)"
| "spec_exec (OPoll w) a =
     (if \<not> rx_open a then (OSkipped, a) else
      case cell a of
        Open \<Rightarrow> (OPolled PollPending, a)
      | Sent v \<Rightarrow> (OPolled (PollReady (Inr v)), a\<lparr>cell := Spent\<rparr>)
      | Spent \<Rightarrow> (OPolled (PollReady (Inl Closed)), a))"
| "spec_exec ODropFuture a = (ODropped, a)"
| "spec_exec ODropReceiver a = (ODropped, a\<lparr>rx_open := False\<rparr>)"

definition spec_init :: "'a os_spec" where
  "spec_init = \<lparr>cell = Open, tx_open = True, rx_open = True\<rparr>"

definition os_cell :: "'a oneshot \<Rightarrow> 'a cell" where
  "os_cell s = (case slot s of Some v \<Rightarrow> Sent v | None \<Rightarrow> if sender_alive s then Open else Spent)"

definition os_abs :: "'a os_sys \<Rightarrow> 'a os_spec" where
  "os_abs \<sigma> = \<lparr>cell = os_cell (chan \<sigma>), tx_open = tx_shared (chan \<sigma>), rx_open = receiver_alive (chan \<sigma>)\<rparr>"

text \<open>
  The invariant: an empty slot and a live sender exactly while the sender handle is unused; a
  registered waker only then; and a waiting receiver is the registered one.
\<close>

definition os_inv :: "'a os_sys \<Rightarrow> bool" where
  "os_inv \<sigma> \<longleftrightarrow> (let s = chan \<sigma> in
     (sender_alive s \<longleftrightarrow> tx_shared s) \<and> (receiver_alive s \<longleftrightarrow> rx_shared s)
   \<and> (sender_alive s \<longrightarrow> slot s = None)
   \<and> (receiver_waker s \<noteq> None \<longrightarrow> sender_alive s \<and> receiver_alive s)
   \<and> os_waiting \<sigma> = receiver_waker s)"

lemmas oneshot_simps = os_inv_def send_def sender_close_def recv_poll_def recv_future_drop_def
  receiver_close_def unwoken_def wake_opt_def os_abs_def os_cell_def isPending_def

lemma os_exec_inv: "os_inv \<sigma> \<Longrightarrow> os_inv (snd (os_exec op \<sigma>))"
  by (cases op) (auto simp: oneshot_simps Let_def split: option.splits if_splits)

lemma os_exec_abs:
  "os_inv \<sigma> \<Longrightarrow> spec_exec op (os_abs \<sigma>) = (fst (fst (os_exec op \<sigma>)), os_abs (snd (os_exec op \<sigma>)))"
  by (cases op) (auto simp: oneshot_simps Let_def split: option.splits if_splits)

lemma os_init_inv: "os_inv os_init" "os_abs os_init = spec_init"
  by (simp_all add: os_init_def oneshot_channel_def oneshot_simps spec_init_def)

interpretation os: op_refinement os_init os_exec os_inv spec_init spec_exec os_abs fst
  by unfold_locales (simp_all add: os_exec_inv os_exec_abs os_init_inv)

section \<open>Properties\<close>

text \<open>
  C29. For every sequence of calls the channel answers as a one-place cell does: a send succeeds
  exactly while the receiver lives and hands its value back otherwise; the first poll after it
  returns that value, once; polls before it are pending; and polls after the value is taken, or
  after the sender is dropped without sending, report \<^verbatim>\<open>Closed\<close>.
\<close>
theorem oneshot_refines_cell:
  "map fst (fst (run_ops os_exec ops os_init)) = fst (run_ops spec_exec ops spec_init)"
  by (simp add: os.run_abst)



end
