(* ===== verification/Mpsc.thy ===== *)
theory Mpsc
  imports Intrusive_List Wakers
begin

text \<open>
  \<^verbatim>\<open>include/coro/sync/mpsc.h\<close>: the bounded multi-producer channel with suspended senders, weak
  senders and a receiver that can be deactivated. Every operation is one critical section of the
  shared state's mutex; the wakers it takes out are woken after the unlock and are part of its
  result. The list of suspended senders is the list of node identities that the intrusive list of
  \<open>Intrusive_List\<close> implements; the nodes themselves, which live inside the send futures, are a
  store.
\<close>

section \<open>The shared state\<close>

datatype MpscReceiverState = RActive | RInactive | RDropped

record 'a snode =
  nd_value :: "'a option"
  nd_waker :: rc_waker

text \<open>\<open>receiver_waiter\<close> is an optional node whose waker may itself be null.\<close>

record 'a mpsc =
  buffer :: "'a list"
  capacity :: nat
  sender_count :: nat
  receiver :: MpscReceiverState
  sender_waiters :: "node list"
  receiver_waiter :: "rc_waker option"
  nodes :: "node \<Rightarrow> 'a snode"

definition mpsc_channel :: "nat \<Rightarrow> 'a mpsc" where
  "mpsc_channel cap = \<lparr>buffer = [], capacity = cap, sender_count = 1, receiver = RActive,
     sender_waiters = [], receiver_waiter = None, nodes = (\<lambda>_. \<lparr>nd_value = None, nd_waker = None\<rparr>)\<rparr>"

section \<open>The send future\<close>

definition send_new :: "node \<Rightarrow> 'a \<Rightarrow> 'a mpsc \<Rightarrow> 'a mpsc" where
  "send_new n v s = s\<lparr>nodes := (nodes s)(n := \<lparr>nd_value = Some v, nd_waker = None\<rparr>)\<rparr>"

definition send_poll ::
    "node \<Rightarrow> waker \<Rightarrow> 'a mpsc \<Rightarrow> fault + ('a + unit) poll_result \<times> waker list \<times> 'a mpsc" where
  "send_poll n w s = (case nd_value (nodes s n) of
     None \<Rightarrow> Inr (PollReady (Inr ()), [], s)
   | Some v \<Rightarrow>
       if receiver s \<noteq> RActive
       then Inr (PollReady (Inl v), [], s\<lparr>sender_waiters := remove1 n (sender_waiters s)\<rparr>)
       else case receiver_waiter s of
         Some waker \<Rightarrow>
           (let s = s\<lparr>buffer := buffer s @ [v], receiver_waiter := None,
                      sender_waiters := remove1 n (sender_waiters s)\<rparr>
            in case waker of None \<Rightarrow> Inl Null_Deref | Some x \<Rightarrow> Inr (PollReady (Inr ()), [x], s))
       | None \<Rightarrow>
           if length (buffer s) < capacity s
           then Inr (PollReady (Inr ()), [], s\<lparr>buffer := buffer s @ [v]\<rparr>)
           else Inr (PollPending, [],
             s\<lparr>nodes := (nodes s)(n := (nodes s n)\<lparr>nd_waker := Some w\<rparr>),
               sender_waiters := wl_push_back n (remove1 n (sender_waiters s))\<rparr>))"

definition send_drop :: "node \<Rightarrow> 'a mpsc \<Rightarrow> 'a mpsc" where
  "send_drop n s = s\<lparr>sender_waiters := remove1 n (sender_waiters s)\<rparr>"

section \<open>The receiving side\<close>

text \<open>Take the value out of a node: an empty optional is not dereferenced.\<close>

definition take_value :: "node \<Rightarrow> 'a mpsc \<Rightarrow> fault + 'a \<times> rc_waker \<times> 'a mpsc" where
  "take_value n s = (case nd_value (nodes s n) of
     None \<Rightarrow> Inl Inactive_Read
   | Some v \<Rightarrow> Inr (v, nd_waker (nodes s n),
       s\<lparr>nodes := (nodes s)(n := \<lparr>nd_value = None, nd_waker = None\<rparr>)\<rparr>))"

definition tryPromoteSender :: "'a mpsc \<Rightarrow> fault + rc_waker \<times> 'a mpsc" where
  "tryPromoteSender s = (case wl_pop_front (sender_waiters s) of
     (None, _) \<Rightarrow> Inr (None, s)
   | (Some n, ws) \<Rightarrow> (case take_value n (s\<lparr>sender_waiters := ws\<rparr>) of
       Inl f \<Rightarrow> Inl f
     | Inr (v, w, s) \<Rightarrow> Inr (w, s\<lparr>buffer := buffer s @ [v]\<rparr>)))"

text \<open>Pop the front of a non-empty buffer and let the first suspended sender in.\<close>

definition pop_and_promote :: "'a mpsc \<Rightarrow> fault + 'a \<times> waker list \<times> 'a mpsc" where
  "pop_and_promote s = (case tryPromoteSender (s\<lparr>buffer := tl (buffer s)\<rparr>) of
     Inl f \<Rightarrow> Inl f
   | Inr (w, s') \<Rightarrow> Inr (hd (buffer s), wake_opt w, s'))"

definition recv_poll ::
    "waker \<Rightarrow> 'a mpsc \<Rightarrow> fault + 'a option poll_result \<times> waker list \<times> 'a mpsc" where
  "recv_poll w s =
     (if buffer s \<noteq> [] then
        (case pop_and_promote s of Inl f \<Rightarrow> Inl f | Inr (v, ws, s) \<Rightarrow> Inr (PollReady (Some v), ws, s))
      else case wl_pop_front (sender_waiters s) of
        (Some n, ws) \<Rightarrow> (case take_value n (s\<lparr>sender_waiters := ws\<rparr>) of
            Inl f \<Rightarrow> Inl f
          | Inr (v, w, s) \<Rightarrow> Inr (PollReady (Some v), wake_opt w, s))
      | (None, _) \<Rightarrow>
          if sender_count s = 0 then Inr (PollReady None, [], s)
          else Inr (PollPending, [], s\<lparr>receiver_waiter := Some (Some w)\<rparr>))"

definition recv_drop :: "'a mpsc \<Rightarrow> 'a mpsc" where
  "recv_drop s = s\<lparr>receiver_waiter := None\<rparr>"

text \<open>
  \<^verbatim>\<open>poll_next\<close> differs from \<^verbatim>\<open>MpscRecvFuture::poll\<close> only in keeping a copy of the waker in
  the receiver, which nothing reads.
\<close>

definition poll_next ::
    "waker \<Rightarrow> 'a mpsc \<Rightarrow> fault + 'a option poll_result \<times> waker list \<times> 'a mpsc" where
  "poll_next w s = recv_poll w s"

definition try_recv :: "'a mpsc \<Rightarrow> fault + (ChannelError + 'a) \<times> waker list \<times> 'a mpsc" where
  "try_recv s =
     (if buffer s \<noteq> [] then
        (case pop_and_promote s of Inl f \<Rightarrow> Inl f | Inr (v, ws, s) \<Rightarrow> Inr (Inr v, ws, s))
      else if sender_count s = 0 then Inr (Inl SenderDropped, [], s)
      else Inr (Inl Empty, [], s))"

definition all_senders_dropped :: "'a mpsc \<Rightarrow> bool" where
  "all_senders_dropped s \<longleftrightarrow> sender_count s = 0 \<and> buffer s = []"

text \<open>\<open>_unlinkSenders\<close>: pop every node, moving its waker out and leaving its value.\<close>

fun unlink_wakers :: "node list \<Rightarrow> (node \<Rightarrow> 'a snode) \<Rightarrow> waker list \<times> (node \<Rightarrow> 'a snode)" where
  "unlink_wakers [] nd = ([], nd)"
| "unlink_wakers (n # ns) nd =
     (let (ws, nd') = unlink_wakers ns (nd(n := (nd n)\<lparr>nd_waker := None\<rparr>))
      in (wake_opt (nd_waker (nd n)) @ ws, nd'))"

definition unlinkSenders :: "'a mpsc \<Rightarrow> waker list \<times> 'a mpsc" where
  "unlinkSenders s = (let (ws, nd) = unlink_wakers (sender_waiters s) (nodes s)
     in (ws, s\<lparr>sender_waiters := [], nodes := nd\<rparr>))"

definition deactivate :: "'a mpsc \<Rightarrow> waker list \<times> 'a mpsc" where
  "deactivate s = unlinkSenders (s\<lparr>receiver := RInactive, receiver_waiter := None, buffer := []\<rparr>)"

definition receiver_close :: "'a mpsc \<Rightarrow> waker list \<times> 'a mpsc" where
  "receiver_close s = unlinkSenders (s\<lparr>receiver := RDropped\<rparr>)"

definition activate :: "'a mpsc \<Rightarrow> 'a mpsc" where
  "activate s = s\<lparr>receiver := RActive\<rparr>"

definition inactive_close :: "'a mpsc \<Rightarrow> 'a mpsc" where
  "inactive_close s = s\<lparr>receiver := RDropped\<rparr>"

section \<open>The sender handles\<close>

definition try_send ::
    "'a \<Rightarrow> 'a mpsc \<Rightarrow> fault + ((TrySendKind \<times> 'a) + unit) \<times> waker list \<times> 'a mpsc" where
  "try_send v s =
     (if receiver s = RDropped then Inr (Inl (Disconnected, v), [], s)
      else if receiver s = RInactive then Inr (Inl (Inactive, v), [], s)
      else if length (buffer s) \<ge> capacity s then Inr (Inl (Full, v), [], s)
      else (let s = s\<lparr>buffer := buffer s @ [v]\<rparr> in
        case receiver_waiter s of
          None \<Rightarrow> Inr (Inr (), [], s)
        | Some waker \<Rightarrow>
            (let s = s\<lparr>receiver_waiter := None\<rparr> in
             case waker of None \<Rightarrow> Inl Null_Deref | Some x \<Rightarrow> Inr (Inr (), [x], s))))"

definition is_closed :: "'a mpsc \<Rightarrow> bool" where
  "is_closed s \<longleftrightarrow> receiver s = RDropped"

definition is_inactive :: "'a mpsc \<Rightarrow> bool" where
  "is_inactive s \<longleftrightarrow> receiver s = RInactive"

definition sender_clone :: "'a mpsc \<Rightarrow> 'a mpsc" where
  "sender_clone s = s\<lparr>sender_count := sender_count s + 1\<rparr>"

definition upgrade :: "'a mpsc \<Rightarrow> bool \<times> 'a mpsc" where
  "upgrade s = (if sender_count s = 0 then (False, s) else (True, s\<lparr>sender_count := sender_count s + 1\<rparr>))"

text \<open>The last sender moves the waker out of \<open>receiver_waiter\<close> but leaves the optional engaged.\<close>

definition sender_close :: "'a mpsc \<Rightarrow> waker list \<times> 'a mpsc" where
  "sender_close s =
     (let s = s\<lparr>sender_count := sender_count s - 1\<rparr> in
      if sender_count s = 0 then
        (case receiver_waiter s of
           None \<Rightarrow> ([], s)
         | Some waker \<Rightarrow> (wake_opt waker, s\<lparr>receiver_waiter := Some None\<rparr>))
      else ([], s))"

end
