(* ===== verification/Mpsc_Spec.thy ===== *)
theory Mpsc_Spec
  imports Mpsc
begin

text \<open>
  The mpsc channel under every sequence of calls its handles allow, and the queue it implements.
  A call on a handle that does not exist is skipped, as is dropping the last sender while a send
  future of it is still to be polled (see \<open>mpsc_close_leaves_null\<close> for what the code does then).
\<close>

section \<open>Sequences of calls\<close>



text \<open>
  \<open>live\<close>: the send futures that exist and have not returned ready. \<open>swait\<close> and \<open>rwait\<close> record the
  waker of every future whose last poll was pending and whose waker has not been woken since.
\<close>

record 'a mp_sys =
  chan :: "'a mpsc"
  live :: "node set"
  swait :: "node \<Rightarrow> rc_waker"
  rwait :: rc_waker





section \<open>The queue it implements\<close>

text \<open>
  All values in the channel stand in one line, the buffer first. A value behind the first \<open>bound\<close>
  belongs to a suspended sender and carries its name; \<open>settle\<close> lets the senders in whose values
  have moved up. \<open>kept\<close> are the values of futures that are not in the line.
\<close>

record 'a mspec =
  line :: "(node option \<times> 'a) list"
  bound :: nat
  senders :: nat
  rstate :: MpscReceiverState
  kept :: "node \<Rightarrow> 'a option"
  mlive :: "node set"



definition tagged :: "node \<Rightarrow> (node option \<times> 'a) \<Rightarrow> bool" where
  "tagged n x \<longleftrightarrow> fst x = Some n"




definition tag_of :: "(node \<Rightarrow> 'a snode) \<Rightarrow> node \<Rightarrow> node option \<times> 'a" where
  "tag_of nd n = (Some n, the (nd_value (nd n)))"

definition wait_line :: "'a mpsc \<Rightarrow> (node option \<times> 'a) list" where
  "wait_line s = map (tag_of (nodes s)) (sender_waiters s)"

definition kept_of :: "(node \<Rightarrow> 'a snode) \<Rightarrow> node list \<Rightarrow> node set \<Rightarrow> node \<Rightarrow> 'a option" where
  "kept_of nd ws L n = (if n \<in> L \<and> n \<notin> set ws then nd_value (nd n) else None)"

definition mp_abs :: "'a mp_sys \<Rightarrow> 'a mspec" where
  "mp_abs \<sigma> = (let s = chan \<sigma> in
     \<lparr>line = map (Pair None) (buffer s) @ wait_line s, bound = capacity s, senders = sender_count s,
      rstate = receiver s,
      kept = kept_of (nodes s) (sender_waiters s) (live \<sigma>),
      mlive = live \<sigma>\<rparr>)"

section \<open>The invariant\<close>







lemma nth_line_tag: "\<not> tagged n (None, v)" "tagged n (Some m, v) \<longleftrightarrow> m = n"
  by (auto simp: tagged_def)














lemma abs_fields [simp]:
  "bound (mp_abs \<sigma>) = capacity (chan \<sigma>)" "senders (mp_abs \<sigma>) = sender_count (chan \<sigma>)"
  "rstate (mp_abs \<sigma>) = receiver (chan \<sigma>)" "mlive (mp_abs \<sigma>) = live \<sigma>"
  "line (mp_abs \<sigma>) = map (Pair None) (buffer (chan \<sigma>)) @ wait_line (chan \<sigma>)"
  "kept (mp_abs \<sigma>) = kept_of (nodes (chan \<sigma>)) (sender_waiters (chan \<sigma>)) (live \<sigma>)"
  by (simp_all add: mp_abs_def Let_def)





lemma no_tag: "n \<notin> set (sender_waiters s) \<Longrightarrow> x \<in> set (map (Pair None) xs @ wait_line s) \<Longrightarrow> \<not> tagged n x"
  by (auto simp: wait_line_def tagged_def tag_of_def)

















section \<open>Receiving\<close>








section \<open>Closing and deactivating\<close>










section \<open>Properties\<close>




text \<open>
  What the restriction on the last sender is for: the receiver waits, the last sender handle is
  dropped while a send future it made is alive, and the first poll of that future dereferences a
  null waker: \<^verbatim>\<open>close()\<close> moves the waker out of \<^verbatim>\<open>receiver_waiter\<close> but leaves the
  optional engaged.
\<close>
theorem mpsc_close_leaves_null:
  "\<exists>s1 s2. recv_poll 3 (send_new 0 (42 :: nat) (mpsc_channel 1)) = Inr (PollPending, [], s1)
    \<and> sender_close s1 = ([3], s2) \<and> send_poll 0 4 s2 = Inl Null_Deref"
  by (simp add: recv_poll_def send_new_def mpsc_channel_def wl_pop_front_def sender_close_def
      wake_opt_def send_poll_def Let_def)

end
