(* ===== verification/Watch.thy ===== *)
theory Watch
  imports Intrusive_List Wakers
begin

text \<open>
  \<^verbatim>\<open>include/coro/sync/watch.h\<close>: the channel that keeps only the latest value. The shared state has
  two locks: \<^verbatim>\<open>value_mutex\<close> for the value and its version, \<^verbatim>\<open>waker_mutex\<close> for the
  list of waiting receivers and the handle counts. \<^verbatim>\<open>send\<close> and
  \<^verbatim>\<open>WatchChangedFuture::poll\<close> each take first the one and then the other, so each is a pair of
  critical sections here; a whole call is their composition.
\<close>

section \<open>The shared state\<close>

text \<open>
  \<open>rx_seen\<close> is \<^verbatim>\<open>WatchReceiver::m_last_seen\<close> of each receiver, \<open>fut_rx\<close> and \<open>fut_seen\<close> the
  receiver and the \<^verbatim>\<open>m_last_seen\<close> of each \<^verbatim>\<open>WatchChangedFuture\<close>.
\<close>

record 'a watch =
  val :: 'a
  version :: "64 word"
  receiver_waiters :: "node list"
  receiver_count :: nat
  sender_count :: nat
  node_waker :: "node \<Rightarrow> rc_waker"
  rx_seen :: "nat \<Rightarrow> 64 word"
  fut_rx :: "node \<Rightarrow> nat"
  fut_seen :: "node \<Rightarrow> 64 word"

definition watch_channel :: "'a \<Rightarrow> 'a watch" where
  "watch_channel initial = \<lparr>val = initial, version = 0, receiver_waiters = [], receiver_count = 1,
     sender_count = 1, node_waker = (\<lambda>_. None), rx_seen = (\<lambda>_. 0), fut_rx = (\<lambda>_. 0), fut_seen = (\<lambda>_. 0)\<rparr>"

section \<open>Sender operations\<close>

text \<open>The second section of every sender operation: drain the waiters under \<^verbatim>\<open>waker_mutex\<close>.\<close>

definition drain_waiters :: "'a watch \<Rightarrow> waker list \<times> 'a watch" where
  "drain_waiters s = (let (ws, wk) = drain_wakers (receiver_waiters s) (node_waker s)
     in (ws, s\<lparr>receiver_waiters := [], node_waker := wk\<rparr>))"

definition send_publish :: "'a \<Rightarrow> 'a watch \<Rightarrow> 'a + 'a watch" where
  "send_publish v s =
     (if receiver_count s = 0 then Inl v else Inr (s\<lparr>val := v, version := version s + 1\<rparr>))"

definition send :: "'a \<Rightarrow> 'a watch \<Rightarrow> ('a + waker list) \<times> 'a watch" where
  "send v s = (case send_publish v s of
     Inl v \<Rightarrow> (Inl v, s)
   | Inr s \<Rightarrow> (let (ws, s) = drain_waiters s in (Inr ws, s)))"

definition borrow_mut :: "('a \<Rightarrow> 'a) \<Rightarrow> 'a watch \<Rightarrow> waker list \<times> 'a watch" where
  "borrow_mut f s = drain_waiters (s\<lparr>val := f (val s), version := version s + 1\<rparr>)"

text \<open>\<open>modify\<close> works on the value in place and says whether it changed it.\<close>

definition send_if_modified :: "('a \<Rightarrow> bool \<times> 'a) \<Rightarrow> 'a watch \<Rightarrow> bool \<times> waker list \<times> 'a watch" where
  "send_if_modified modify s = (let (changed, v) = modify (val s); s = s\<lparr>val := v\<rparr> in
     if \<not> changed then (False, [], s)
     else (let (ws, s) = drain_waiters (s\<lparr>version := version s + 1\<rparr>) in (True, ws, s)))"

definition sender_clone :: "'a watch \<Rightarrow> 'a watch" where
  "sender_clone s = s\<lparr>sender_count := sender_count s + 1\<rparr>"

definition all_receivers_dropped :: "'a watch \<Rightarrow> bool" where
  "all_receivers_dropped s \<longleftrightarrow> receiver_count s = 0"

definition sender_close :: "'a watch \<Rightarrow> waker list \<times> 'a watch" where
  "sender_close s = (let s = s\<lparr>sender_count := sender_count s - 1\<rparr> in
     if sender_count s = 0 then drain_waiters s else ([], s))"

section \<open>Receiver operations\<close>

definition receiver_new :: "nat \<Rightarrow> 'a watch \<Rightarrow> 'a watch" where
  "receiver_new r s = s\<lparr>receiver_count := receiver_count s + 1, rx_seen := (rx_seen s)(r := 0)\<rparr>"

definition receiver_close :: "'a watch \<Rightarrow> 'a watch" where
  "receiver_close s = s\<lparr>receiver_count := receiver_count s - 1\<rparr>"

definition sender_dropped :: "'a watch \<Rightarrow> bool" where
  "sender_dropped s \<longleftrightarrow> sender_count s = 0"

definition get :: "'a watch \<Rightarrow> 'a" where
  "get s = val s"

definition borrow_and_update :: "nat \<Rightarrow> 'a watch \<Rightarrow> 'a \<times> 'a watch" where
  "borrow_and_update r s = (val s, s\<lparr>rx_seen := (rx_seen s)(r := version s)\<rparr>)"

definition changed :: "nat \<Rightarrow> node \<Rightarrow> 'a watch \<Rightarrow> 'a watch" where
  "changed r n s = s\<lparr>fut_rx := (fut_rx s)(n := r), fut_seen := (fut_seen s)(n := rx_seen s r),
     node_waker := (node_waker s)(n := None)\<rparr>"

definition changed_drop :: "node \<Rightarrow> 'a watch \<Rightarrow> 'a watch" where
  "changed_drop n s = s\<lparr>receiver_waiters := remove1 n (receiver_waiters s)\<rparr>"

text \<open>
  \<open>WatchChangedFuture::poll\<close>: the version under \<^verbatim>\<open>value_mutex\<close>, then, under
  \<^verbatim>\<open>waker_mutex\<close>, either marking it seen or registering.
\<close>

definition changed_check :: "node \<Rightarrow> 'a watch \<Rightarrow> 64 word option" where
  "changed_check n s = (if version s \<noteq> fut_seen s n then Some (version s) else None)"

definition changed_seen :: "node \<Rightarrow> 64 word \<Rightarrow> 'a watch \<Rightarrow> 'a watch" where
  "changed_seen n current s = s\<lparr>receiver_waiters := remove1 n (receiver_waiters s),
     rx_seen := (rx_seen s)(fut_rx s n := current)\<rparr>"

definition changed_register ::
    "node \<Rightarrow> waker \<Rightarrow> 'a watch \<Rightarrow> (ChannelError + unit) poll_result \<times> 'a watch" where
  "changed_register n w s =
     (if sender_count s = 0
      then (PollReady (Inl SenderDropped), s\<lparr>receiver_waiters := remove1 n (receiver_waiters s)\<rparr>)
      else (PollPending, s\<lparr>node_waker := (node_waker s)(n := Some w),
        receiver_waiters := wl_push_back n (remove1 n (receiver_waiters s))\<rparr>))"

definition changed_poll ::
    "node \<Rightarrow> waker \<Rightarrow> 'a watch \<Rightarrow> (ChannelError + unit) poll_result \<times> 'a watch" where
  "changed_poll n w s = (case changed_check n s of
     Some current \<Rightarrow> (PollReady (Inr ()), changed_seen n current s)
   | None \<Rightarrow> changed_register n w s)"

section \<open>Sequences of whole calls\<close>

datatype 'a w_op =
    WChanged nat node          \<comment> \<open>\<^verbatim>\<open>changed()\<close> on receiver \<open>r\<close> makes future \<open>n\<close>\<close>
  | WPoll node waker
  | WDropFuture node
  | WUpdate nat                \<comment> \<open>\<^verbatim>\<open>borrow_and_update\<close>\<close>
  | WSend 'a
  | WBorrowMut "'a \<Rightarrow> 'a"
  | WModify "'a \<Rightarrow> bool \<times> 'a"
  | WCloneSender | WDropSender
  | WCloneReceiver nat nat
  | WDropReceiver nat

datatype 'a w_out =
    WSkip | WDone
  | WPolled "(ChannelError + unit) poll_result"
  | WSent "'a + unit"
  | WModified bool
  | WValue 'a

record 'a w_sys =
  chan :: "'a watch"
  futs :: "node set"
  rxs :: "nat set"
  waiting :: "node \<Rightarrow> rc_waker"

definition w_init :: "'a \<Rightarrow> 'a w_sys" where
  "w_init v = \<lparr>chan = watch_channel v, futs = {}, rxs = {0}, waiting = (\<lambda>_. None)\<rparr>"

definition w_woke :: "waker list \<Rightarrow> 'a watch \<Rightarrow> 'a w_sys \<Rightarrow> 'a w_sys" where
  "w_woke ws s \<sigma> = \<sigma>\<lparr>chan := s, waiting := (\<lambda>n. unwoken ws (waiting \<sigma> n))\<rparr>"

definition w_end :: "node \<Rightarrow> 'a w_sys \<Rightarrow> 'a w_sys" where
  "w_end n \<sigma> = \<sigma>\<lparr>futs := futs \<sigma> - {n}, waiting := (waiting \<sigma>)(n := None)\<rparr>"

fun w_exec :: "'a w_op \<Rightarrow> 'a w_sys \<Rightarrow> ('a w_out \<times> waker list) \<times> 'a w_sys" where
  "w_exec (WChanged r n) \<sigma> =
     (if r \<notin> rxs \<sigma> \<or> n \<in> futs \<sigma> then ((WSkip, []), \<sigma>)
      else ((WDone, []), \<sigma>\<lparr>chan := changed r n (chan \<sigma>), futs := insert n (futs \<sigma>)\<rparr>))"
| "w_exec (WPoll n w) \<sigma> =
     (if n \<notin> futs \<sigma> then ((WSkip, []), \<sigma>)
      else case changed_poll n w (chan \<sigma>) of
        (r, s) \<Rightarrow> ((WPolled r, []),
          if isPending r then \<sigma>\<lparr>chan := s, waiting := (waiting \<sigma>)(n := Some w)\<rparr>
          else w_end n (\<sigma>\<lparr>chan := s\<rparr>)))"
| "w_exec (WDropFuture n) \<sigma> =
     (if n \<notin> futs \<sigma> then ((WSkip, []), \<sigma>)
      else ((WDone, []), w_end n (\<sigma>\<lparr>chan := changed_drop n (chan \<sigma>)\<rparr>)))"
| "w_exec (WUpdate r) \<sigma> =
     (if r \<notin> rxs \<sigma> then ((WSkip, []), \<sigma>)
      else case borrow_and_update r (chan \<sigma>) of (v, s) \<Rightarrow> ((WValue v, []), \<sigma>\<lparr>chan := s\<rparr>))"
| "w_exec (WSend v) \<sigma> =
     (if sender_count (chan \<sigma>) = 0 then ((WSkip, []), \<sigma>)
      else case send v (chan \<sigma>) of
        (Inl v, s) \<Rightarrow> ((WSent (Inl v), []), \<sigma>\<lparr>chan := s\<rparr>)
      | (Inr ws, s) \<Rightarrow> ((WSent (Inr ()), ws), w_woke ws s \<sigma>))"
| "w_exec (WBorrowMut f) \<sigma> =
     (if sender_count (chan \<sigma>) = 0 then ((WSkip, []), \<sigma>)
      else case borrow_mut f (chan \<sigma>) of (ws, s) \<Rightarrow> ((WDone, ws), w_woke ws s \<sigma>))"
| "w_exec (WModify f) \<sigma> =
     (if sender_count (chan \<sigma>) = 0 then ((WSkip, []), \<sigma>)
      else case send_if_modified f (chan \<sigma>) of (b, ws, s) \<Rightarrow> ((WModified b, ws), w_woke ws s \<sigma>))"
| "w_exec WCloneSender \<sigma> =
     (if sender_count (chan \<sigma>) = 0 then ((WSkip, []), \<sigma>)
      else ((WDone, []), \<sigma>\<lparr>chan := sender_clone (chan \<sigma>)\<rparr>))"
| "w_exec WDropSender \<sigma> =
     (if sender_count (chan \<sigma>) = 0 then ((WSkip, []), \<sigma>)
      else case sender_close (chan \<sigma>) of (ws, s) \<Rightarrow> ((WDone, ws), w_woke ws s \<sigma>))"
| "w_exec (WCloneReceiver r q) \<sigma> =
     (if r \<notin> rxs \<sigma> \<or> q \<in> rxs \<sigma> then ((WSkip, []), \<sigma>)
      else ((WDone, []), \<sigma>\<lparr>chan := receiver_new q (chan \<sigma>), rxs := insert q (rxs \<sigma>)\<rparr>))"
| "w_exec (WDropReceiver r) \<sigma> =
     (if r \<notin> rxs \<sigma> \<or> (\<exists>n\<in>futs \<sigma>. fut_rx (chan \<sigma>) n = r) then ((WSkip, []), \<sigma>)
      else ((WDone, []), \<sigma>\<lparr>chan := receiver_close (chan \<sigma>), rxs := rxs \<sigma> - {r}\<rparr>))"

text \<open>
  A linked node has a waker and has seen the current version, there is a sender, and every future
  that waits unwoken is linked with the waker it waits on.
\<close>

definition w_inv :: "'a w_sys \<Rightarrow> bool" where
  "w_inv \<sigma> \<longleftrightarrow> (let s = chan \<sigma> in
     distinct (receiver_waiters s) \<and> set (receiver_waiters s) \<subseteq> futs \<sigma>
   \<and> (\<forall>n. n \<in> set (receiver_waiters s) \<longrightarrow> node_waker s n \<noteq> None \<and> fut_seen s n = version s \<and> 0 < sender_count s)
   \<and> (\<forall>n w. waiting \<sigma> n = Some w \<longrightarrow> n \<in> set (receiver_waiters s) \<and> node_waker s n = Some w)
   \<and> finite (rxs \<sigma>) \<and> receiver_count s = card (rxs \<sigma>))"


lemma drain_inv:
  assumes inv: "w_inv \<sigma>" and same: "receiver_waiters s = receiver_waiters (chan \<sigma>)"
    "node_waker s = node_waker (chan \<sigma>)" "receiver_count s = receiver_count (chan \<sigma>)"
    and d: "drain_waiters s = (ws, t)"
  shows "w_inv (w_woke ws t \<sigma>)" and "waiting (w_woke ws t \<sigma>) = (\<lambda>_. None)"
proof -
  obtain wk where d': "drain_wakers (receiver_waiters (chan \<sigma>)) (node_waker (chan \<sigma>)) = (ws, wk)"
    and t: "t = s\<lparr>receiver_waiters := [], node_waker := wk\<rparr>"
    using d same by (auto simp: drain_waiters_def split: prod.splits)
  have ok: "distinct (receiver_waiters (chan \<sigma>))"
    "\<And>n w. waiting \<sigma> n = Some w \<Longrightarrow> n \<in> set (receiver_waiters (chan \<sigma>)) \<and> node_waker (chan \<sigma>) n = Some w"
    "finite (rxs \<sigma>)" "receiver_count (chan \<sigma>) = card (rxs \<sigma>)"
    using inv by (auto simp: w_inv_def Let_def)
  note ws = drain_wakers_set [OF ok(1) d', THEN conjunct1]
  have wo: "unwoken ws (waiting \<sigma> n) = None" for n
    using ok(2) [of n] ws by (cases "waiting \<sigma> n") (auto simp: unwoken_def)
  then show "waiting (w_woke ws t \<sigma>) = (\<lambda>_. None)" by (simp add: w_woke_def)
  show "w_inv (w_woke ws t \<sigma>)" using wo ok(3,4) same(3) by (simp add: w_inv_def w_woke_def t Let_def)
qed

lemma w_woke_nil: "w_woke [] s \<sigma> = \<sigma>\<lparr>chan := s\<rparr>"
  by (simp add: w_woke_def)

lemma w_inv_value:
  assumes "w_inv \<sigma>" "receiver_waiters s = receiver_waiters (chan \<sigma>)" "node_waker s = node_waker (chan \<sigma>)"
    "receiver_count s = receiver_count (chan \<sigma>)" "version s = version (chan \<sigma>)" "fut_seen s = fut_seen (chan \<sigma>)"
    "sender_count s = sender_count (chan \<sigma>) \<or> 0 < sender_count s"
  shows "w_inv (\<sigma>\<lparr>chan := s\<rparr>)"
  using assms by (auto simp: w_inv_def Let_def)

lemma w_inv_send:
  assumes inv: "w_inv \<sigma>"
  shows "w_inv (snd (w_exec (WSend v) \<sigma>))" "w_inv (snd (w_exec (WBorrowMut f) \<sigma>))"
    "w_inv (snd (w_exec (WModify g) \<sigma>))" "w_inv (snd (w_exec WDropSender \<sigma>))"
proof -
  show "w_inv (snd (w_exec (WSend v) \<sigma>))"
    using inv drain_inv(1) [OF inv, of "(chan \<sigma>)\<lparr>val := v, version := version (chan \<sigma>) + 1\<rparr>"]
    by (auto simp: send_def send_publish_def split: prod.splits)
  show "w_inv (snd (w_exec (WBorrowMut f) \<sigma>))"
    using inv drain_inv(1) [OF inv, of "(chan \<sigma>)\<lparr>val := f (val (chan \<sigma>)), version := version (chan \<sigma>) + 1\<rparr>"]
    by (auto simp: borrow_mut_def split: prod.splits)
  obtain b v' where g: "g (val (chan \<sigma>)) = (b, v')" by force
  show "w_inv (snd (w_exec (WModify g) \<sigma>))"
    using inv drain_inv(1) [OF inv, of "(chan \<sigma>)\<lparr>val := v', version := version (chan \<sigma>) + 1\<rparr>"]
      w_inv_value [OF inv, of "(chan \<sigma>)\<lparr>val := v'\<rparr>"]
    by (auto simp: send_if_modified_def g w_woke_nil Let_def split: prod.splits)
  show "w_inv (snd (w_exec WDropSender \<sigma>))"
    using inv drain_inv(1) [OF inv, of "(chan \<sigma>)\<lparr>sender_count := sender_count (chan \<sigma>) - 1\<rparr>"]
      w_inv_value [OF inv, of "(chan \<sigma>)\<lparr>sender_count := sender_count (chan \<sigma>) - 1\<rparr>"]
    by (auto simp: sender_close_def w_woke_nil Let_def split: prod.splits)
qed

lemma w_not_future:
  assumes "w_inv \<sigma>" "n \<notin> futs \<sigma>"
  shows "n \<notin> set (receiver_waiters (chan \<sigma>))" "waiting \<sigma> n = None"
proof -
  show *: "n \<notin> set (receiver_waiters (chan \<sigma>))" using assms by (auto simp: w_inv_def Let_def)
  show "waiting \<sigma> n = None" using assms(1) * by (cases "waiting \<sigma> n") (auto simp: w_inv_def Let_def)
qed

lemma w_unlink:
  assumes "w_inv \<sigma>"
  shows "w_inv (w_end n (\<sigma>\<lparr>chan := (chan \<sigma>)\<lparr>receiver_waiters := remove1 n (receiver_waiters (chan \<sigma>))\<rparr>\<rparr>))"
  using assms by (auto simp: w_inv_def w_end_def Let_def)

lemma w_seen:
  "w_inv \<sigma> \<Longrightarrow> w_inv (w_end n (\<sigma>\<lparr>chan := changed_seen n v (chan \<sigma>)\<rparr>))"
  by (auto simp: w_inv_def w_end_def changed_seen_def Let_def)

lemma w_inv_poll:
  assumes inv: "w_inv \<sigma>"
  shows "w_inv (snd (w_exec (WPoll n w) \<sigma>))"
proof (cases "n \<in> futs \<sigma>")
  case True
  consider "version (chan \<sigma>) \<noteq> fut_seen (chan \<sigma>) n"
    | "version (chan \<sigma>) = fut_seen (chan \<sigma>) n" "sender_count (chan \<sigma>) = 0"
    | "version (chan \<sigma>) = fut_seen (chan \<sigma>) n" "0 < sender_count (chan \<sigma>)" by fastforce
  then show ?thesis
  proof cases
    case 1
    with True w_seen [OF inv, of n] show ?thesis
      by (simp add: changed_poll_def changed_check_def isPending_def)
  next
    case 2
    with True w_unlink [OF inv, of n] show ?thesis
      by (simp add: changed_poll_def changed_check_def changed_register_def isPending_def)
  next
    case 3
    with True inv show ?thesis
      by (auto simp: changed_poll_def changed_check_def changed_register_def isPending_def
          wl_push_back_def w_inv_def Let_def)
  qed
qed (simp add: inv)

lemma w_exec_inv: "w_inv \<sigma> \<Longrightarrow> w_inv (snd (w_exec op \<sigma>))"
proof (cases op)
  case (WChanged r n)
  assume inv: "w_inv \<sigma>"
  show ?thesis
  proof (cases "n \<in> futs \<sigma>")
    case False
    with inv w_not_future [OF inv False] WChanged show ?thesis
      by (auto simp: changed_def w_inv_def Let_def)
  qed (simp add: WChanged inv)
next
  case (WDropFuture n)
  then show "w_inv \<sigma> \<Longrightarrow> ?thesis" using w_unlink [of \<sigma> n] by (simp add: changed_drop_def)
next
  case (WUpdate r)
  then show "w_inv \<sigma> \<Longrightarrow> ?thesis" by (simp add: borrow_and_update_def w_inv_value)
next
  case WCloneSender
  then show "w_inv \<sigma> \<Longrightarrow> ?thesis" by (simp add: sender_clone_def w_inv_value)
next
  case (WCloneReceiver r q)
  then show "w_inv \<sigma> \<Longrightarrow> ?thesis" by (auto simp: receiver_new_def w_inv_def Let_def)
next
  case (WDropReceiver r)
  then show "w_inv \<sigma> \<Longrightarrow> ?thesis" by (auto simp: receiver_close_def w_inv_def Let_def)
qed (simp_all only: w_inv_poll w_inv_send)

lemma w_init_inv: "w_inv (w_init v)"
  by (simp add: w_init_def watch_channel_def w_inv_def)

interpretation wa: op_system "w_init v" w_exec w_inv for v
  by unfold_locales (auto simp: w_init_inv w_exec_inv)

section \<open>Properties\<close>

text \<open>
  C35. When calls do not overlap nobody is left waiting: after any sequence of calls, a
  \<^verbatim>\<open>changed()\<close> future that waits unwoken is linked with its waker, the version is the one it
  has seen and a sender remains; and any \<^verbatim>\<open>send\<close> from there wakes it.
\<close>
theorem watch_no_lost_wake:
  assumes "\<sigma> = snd (run_ops w_exec ops (w_init v0))" "waiting \<sigma> n = Some w" "rxs \<sigma> \<noteq> {}"
  shows "n \<in> set (receiver_waiters (chan \<sigma>)) \<and> version (chan \<sigma>) = fut_seen (chan \<sigma>) n
    \<and> 0 < sender_count (chan \<sigma>) \<and> w \<in> set (snd (fst (w_exec (WSend v) \<sigma>)))"
proof -
  have inv: "w_inv \<sigma>" unfolding assms(1) by (rule wa.run_inv)
  let ?s = "(chan \<sigma>)\<lparr>val := v, version := version (chan \<sigma>) + 1\<rparr>"
  obtain ws t where d: "drain_waiters ?s = (ws, t)" by force
  have n: "n \<in> set (receiver_waiters (chan \<sigma>))" "version (chan \<sigma>) = fut_seen (chan \<sigma>) n"
    "0 < sender_count (chan \<sigma>)" "receiver_count (chan \<sigma>) \<noteq> 0"
    using inv assms(2,3) by (auto simp: w_inv_def Let_def)
  have "unwoken ws (waiting \<sigma> n) = None"
    using drain_inv(2) [OF inv _ _ _ d] by (simp add: w_woke_def fun_eq_iff)
  with assms(2) have "w \<in> set ws" by (auto simp: unwoken_def split: if_splits)
  with n d show ?thesis by (simp add: send_def send_publish_def)
qed

theorem watch_no_lost_wake_witness:
  "let \<sigma> = snd (run_ops w_exec [WChanged 0 7, WPoll 7 2] (w_init (0 :: nat))) in
    waiting \<sigma> 7 = Some 2 \<and> 2 \<in> set (snd (fst (w_exec (WSend 5) \<sigma>)))"
proof -
  let ?\<sigma> = "snd (run_ops w_exec [WChanged 0 7, WPoll 7 2] (w_init (0 :: nat)))"
  have "waiting ?\<sigma> 7 = Some 2" "rxs ?\<sigma> \<noteq> {}"
    by (simp_all add: w_init_def watch_channel_def changed_def changed_poll_def changed_check_def
        changed_register_def isPending_def)
  with watch_no_lost_wake [OF refl this, of 5] show ?thesis unfolding Let_def by blast
qed

text \<open>
  When a \<^verbatim>\<open>send\<close> runs between the two critical sections of a poll, its wake is lost: the
  poll has compared versions before the send and registers after it, so the send finds no waiter,
  and the future stays pending and unwoken although the version it waits for is there.
\<close>
theorem watch_poll_send_race:
  fixes s0 :: "nat watch"
  defines "s0 \<equiv> changed 0 7 (watch_channel 10)"
  shows "\<exists>s1 s2. changed_check 7 s0 = None \<and> send 11 s0 = (Inr [], s1)
    \<and> changed_register 7 2 s1 = (PollPending, s2)
    \<and> receiver_waiters s2 = [7] \<and> version s2 \<noteq> fut_seen s2 7 \<and> get s2 = 11"
  by (simp add: s0_def changed_def watch_channel_def changed_check_def send_def send_publish_def
      drain_waiters_def changed_register_def wl_push_back_def get_def)

text \<open>
  When the last sender sends and is dropped between the two sections, the poll reports
  \<^verbatim>\<open>SenderDropped\<close> although a value was sent that this receiver has not seen.
\<close>
theorem watch_final_value_missed:
  fixes s0 :: "nat watch"
  defines "s0 \<equiv> changed 0 7 (watch_channel 10)"
  shows "\<exists>s1 s2. changed_check 7 s0 = None \<and> send 11 s0 = (Inr [], s1) \<and> sender_close s1 = ([], s2)
    \<and> fst (changed_register 7 2 s2) = PollReady (Inl SenderDropped) \<and> version s2 \<noteq> fut_seen s2 7"
  by (simp add: s0_def changed_def watch_channel_def changed_check_def send_def send_publish_def
      drain_waiters_def sender_close_def changed_register_def Let_def)

end
