(* ===== verification/Broadcast.thy ===== *)
theory Broadcast
  imports Intrusive_List Wakers
begin

text \<open>
  \<^verbatim>\<open>include/coro/sync/broadcast.h\<close>: the channel in which every receiver reads every value sent
  while it is subscribed, from a ring of \<^verbatim>\<open>capacity\<close> slots, and is told when it has fallen behind.
  Every operation is one critical section. Sequence numbers are natural numbers: the 64-bit
  \<^verbatim>\<open>next_seq\<close> counts sends and does not wrap in any run that ends.
\<close>

section \<open>The shared state\<close>

record 'a ring_slot =
  sl_value :: "'a option"
  sl_remaining :: nat

text \<open>\<open>cursor\<close> is \<^verbatim>\<open>BroadcastReceiver::m_cursor\<close> of each receiver.\<close>

record 'a bcast =
  ring :: "'a ring_slot list"
  capacity :: nat
  next_seq :: nat
  sender_count :: nat
  receiver_count :: nat
  receiver_waiters :: "node list"
  sender_waiters :: "node list"
  recv_waker :: "node \<Rightarrow> rc_waker"
  active_waker :: "node \<Rightarrow> rc_waker"
  cursor :: "nat \<Rightarrow> nat"

definition oldest_seq :: "'a bcast \<Rightarrow> nat" where
  "oldest_seq s = (if next_seq s > capacity s then next_seq s - capacity s else 0)"

definition add_receiver :: "nat \<Rightarrow> 'a bcast \<Rightarrow> waker list \<times> 'a bcast" where
  "add_receiver r s =
     (let (ws, s) =
        (if receiver_count s = 0
         then (let (ws, wk) = drain_wakers (sender_waiters s) (active_waker s)
               in (ws, s\<lparr>sender_waiters := [], active_waker := wk\<rparr>))
         else ([], s))
      in (ws, s\<lparr>receiver_count := receiver_count s + 1, cursor := (cursor s)(r := next_seq s)\<rparr>))"

text \<open>The loop of \<^verbatim>\<open>remove_receiver\<close>, over the \<open>k\<close> sequence numbers from \<open>seq\<close> on.\<close>

fun release :: "nat \<Rightarrow> nat \<Rightarrow> nat \<Rightarrow> 'a ring_slot list \<Rightarrow> fault + 'a ring_slot list" where
  "release 0 seq cap rg = Inr rg"
| "release (Suc k) seq cap rg =
     (let slot = rg ! (seq mod cap) in
      if sl_remaining slot = 0 then Inl Assert_Failed
      else (let slot = slot\<lparr>sl_remaining := sl_remaining slot - 1\<rparr>;
                slot = (if sl_remaining slot = 0 then slot\<lparr>sl_value := None\<rparr> else slot)
            in release k (seq + 1) cap (rg[seq mod cap := slot])))"

definition remove_receiver :: "nat \<Rightarrow> 'a bcast \<Rightarrow> fault + 'a bcast" where
  "remove_receiver cur s =
     (let seq = max cur (oldest_seq s) in
      case release (next_seq s - seq) seq (capacity s) (ring s) of
        Inl f \<Rightarrow> Inl f
      | Inr rg \<Rightarrow> Inr (s\<lparr>ring := rg, receiver_count := receiver_count s - 1\<rparr>))"

definition take_seq :: "nat \<Rightarrow> 'a bcast \<Rightarrow> fault + 'a \<times> 'a bcast" where
  "take_seq seq s =
     (let i = seq mod capacity s; slot = ring s ! i in
      case sl_value slot of
        None \<Rightarrow> Inl Assert_Failed
      | Some v \<Rightarrow>
          if sl_remaining slot = 0 then Inl Assert_Failed
          else (let slot = slot\<lparr>sl_remaining := sl_remaining slot - 1\<rparr> in
            if sl_remaining slot > 0 then Inr (v, s\<lparr>ring := (ring s)[i := slot]\<rparr>)
            else Inr (v, s\<lparr>ring := (ring s)[i := slot\<lparr>sl_value := None\<rparr>]\<rparr>)))"

section \<open>Senders\<close>

text \<open>\<open>broadcast_channel\<close>: \<open>None\<close> stands for the \<^verbatim>\<open>invalid_argument\<close> it throws.\<close>

definition broadcast_channel :: "nat \<Rightarrow> 'a bcast option" where
  "broadcast_channel cap =
     (if cap = 0 then None
      else Some (snd (add_receiver 0
        \<lparr>ring = replicate cap \<lparr>sl_value = None, sl_remaining = 0\<rparr>, capacity = cap, next_seq = 0,
         sender_count = 1, receiver_count = 0, receiver_waiters = [], sender_waiters = [],
         recv_waker = (\<lambda>_. None), active_waker = (\<lambda>_. None), cursor = (\<lambda>_. 0)\<rparr>)))"

definition drain_receivers :: "'a bcast \<Rightarrow> waker list \<times> 'a bcast" where
  "drain_receivers s = (let (ws, wk) = drain_wakers (receiver_waiters s) (recv_waker s)
     in (ws, s\<lparr>receiver_waiters := [], recv_waker := wk\<rparr>))"

definition send :: "'a \<Rightarrow> 'a bcast \<Rightarrow> ('a + nat) \<times> waker list \<times> 'a bcast" where
  "send v s =
     (if receiver_count s = 0 then (Inl v, [], s)
      else (let s = s\<lparr>ring := (ring s)[next_seq s mod capacity s :=
                        \<lparr>sl_value = Some v, sl_remaining = receiver_count s\<rparr>],
                      next_seq := next_seq s + 1\<rparr>;
                (ws, s) = drain_receivers s
            in (Inr (receiver_count s), ws, s)))"

definition sender_clone :: "'a bcast \<Rightarrow> 'a bcast" where
  "sender_clone s = s\<lparr>sender_count := sender_count s + 1\<rparr>"

definition all_receivers_dropped :: "'a bcast \<Rightarrow> bool" where
  "all_receivers_dropped s \<longleftrightarrow> receiver_count s = 0"

definition sender_close :: "'a bcast \<Rightarrow> waker list \<times> 'a bcast" where
  "sender_close s = (let s = s\<lparr>sender_count := sender_count s - 1\<rparr> in
     if sender_count s = 0 then drain_receivers s else ([], s))"

text \<open>\<open>subscribe\<close>, \<open>resubscribe\<close> and \<open>activate\<close> are all \<^verbatim>\<open>add_receiver\<close>.\<close>

definition active_poll :: "node \<Rightarrow> waker \<Rightarrow> 'a bcast \<Rightarrow> unit poll_result \<times> 'a bcast" where
  "active_poll n w s =
     (let s = s\<lparr>sender_waiters := remove1 n (sender_waiters s)\<rparr> in
      if receiver_count s > 0 then (PollReady (), s)
      else (PollPending, s\<lparr>active_waker := (active_waker s)(n := Some w),
             sender_waiters := wl_push_back n (sender_waiters s)\<rparr>))"

definition active_drop :: "node \<Rightarrow> 'a bcast \<Rightarrow> 'a bcast" where
  "active_drop n s = s\<lparr>sender_waiters := remove1 n (sender_waiters s)\<rparr>"

section \<open>Receivers\<close>

definition all_senders_dropped :: "'a bcast \<Rightarrow> bool" where
  "all_senders_dropped s \<longleftrightarrow> sender_count s = 0"

definition set_cursor :: "nat \<Rightarrow> nat \<Rightarrow> 'a bcast \<Rightarrow> 'a bcast" where
  "set_cursor r c s = s\<lparr>cursor := (cursor s)(r := c)\<rparr>"

definition try_recv :: "nat \<Rightarrow> 'a bcast \<Rightarrow> fault + (BroadcastRecvError + 'a) \<times> 'a bcast" where
  "try_recv r s =
     (let oldest = oldest_seq s in
      if cursor s r < oldest
      then Inr (Inl (Lagged (oldest - cursor s r)), set_cursor r oldest s)
      else if cursor s r < next_seq s
      then (case take_seq (cursor s r) (set_cursor r (cursor s r + 1) s) of
              Inl f \<Rightarrow> Inl f | Inr (v, s) \<Rightarrow> Inr (Inr v, s))
      else if sender_count s = 0 then Inr (Inl BClosed, s)
      else Inr (Inl BEmpty, s))"

definition recv_poll ::
    "node \<Rightarrow> nat \<Rightarrow> waker \<Rightarrow> 'a bcast \<Rightarrow> fault + (BroadcastRecvError + 'a) poll_result \<times> 'a bcast" where
  "recv_poll n r w s =
     (let cur = cursor s r; oldest = oldest_seq s;
          unlinked = s\<lparr>receiver_waiters := remove1 n (receiver_waiters s)\<rparr> in
      if cur < oldest
      then Inr (PollReady (Inl (Lagged (oldest - cur))), set_cursor r oldest unlinked)
      else if cur < next_seq s
      then (case take_seq cur (set_cursor r (cur + 1) unlinked) of
              Inl f \<Rightarrow> Inl f | Inr (v, s) \<Rightarrow> Inr (PollReady (Inr v), s))
      else if sender_count s = 0 then Inr (PollReady (Inl BClosed), unlinked)
      else Inr (PollPending, unlinked\<lparr>recv_waker := (recv_waker s)(n := Some w),
             receiver_waiters := wl_push_back n (receiver_waiters unlinked)\<rparr>))"

definition recv_drop :: "node \<Rightarrow> 'a bcast \<Rightarrow> 'a bcast" where
  "recv_drop n s = s\<lparr>receiver_waiters := remove1 n (receiver_waiters s)\<rparr>"

text \<open>Dropping a receiver and deactivating it do the same to the shared state.\<close>

definition receiver_close :: "nat \<Rightarrow> 'a bcast \<Rightarrow> fault + 'a bcast" where
  "receiver_close r s = remove_receiver (cursor s r) s"

end
