(* ===== verification/Broadcast_Spec.thy ===== *)
theory Broadcast_Spec
  imports Broadcast
begin

text \<open>
  The broadcast channel under every sequence of calls its handles and futures allow, the history
  each receiver reads from it, and the proof that the ring implements that history.
\<close>

section \<open>Sequences of calls\<close>

datatype 'a b_op =
    BSend 'a
  | BCloneSender | BDropSender
  | BSubscribe nat
  | BDropReceiver nat
  | BTryRecv nat
  | BRecv node nat           \<comment> \<open>\<^verbatim>\<open>recv()\<close> on receiver \<open>r\<close> makes future \<open>n\<close>\<close>
  | BPoll node waker
  | BDropFuture node
  | BActive node             \<comment> \<open>\<^verbatim>\<open>receivers_active()\<close>\<close>
  | BPollActive node waker
  | BDropActive node

datatype 'a b_out =
    BSkip | BDone
  | BFault fault
  | BSent "'a + nat"
  | BTried "BroadcastRecvError + 'a"
  | BPolled "(BroadcastRecvError + 'a) poll_result"
  | BPolledActive "unit poll_result"

text \<open>\<open>sent\<close> records the values accepted; \<open>waiting\<close> and \<open>awaiting\<close> the futures that wait unwoken.\<close>

record 'a b_sys =
  chan :: "'a bcast"
  rxs :: "nat set"
  futs :: "node \<Rightarrow> nat option"
  afuts :: "node set"
  waiting :: "node \<Rightarrow> rc_waker"
  awaiting :: "node \<Rightarrow> rc_waker"
  sent :: "'a list"

definition b_init :: "nat \<Rightarrow> 'a b_sys" where
  "b_init cap = \<lparr>chan = the (broadcast_channel cap), rxs = {0}, futs = (\<lambda>_. None), afuts = {},
     waiting = (\<lambda>_. None), awaiting = (\<lambda>_. None), sent = []\<rparr>"

definition b_woke :: "waker list \<Rightarrow> 'a bcast \<Rightarrow> 'a b_sys \<Rightarrow> 'a b_sys" where
  "b_woke ws s \<sigma> = \<sigma>\<lparr>chan := s, waiting := (\<lambda>n. unwoken ws (waiting \<sigma> n)),
     awaiting := (\<lambda>n. unwoken ws (awaiting \<sigma> n))\<rparr>"

definition b_end :: "node \<Rightarrow> 'a b_sys \<Rightarrow> 'a b_sys" where
  "b_end n \<sigma> = \<sigma>\<lparr>futs := (futs \<sigma>)(n := None), waiting := (waiting \<sigma>)(n := None)\<rparr>"

definition a_end :: "node \<Rightarrow> 'a b_sys \<Rightarrow> 'a b_sys" where
  "a_end n \<sigma> = \<sigma>\<lparr>afuts := afuts \<sigma> - {n}, awaiting := (awaiting \<sigma>)(n := None)\<rparr>"

fun b_exec :: "'a b_op \<Rightarrow> 'a b_sys \<Rightarrow> ('a b_out \<times> waker list) \<times> 'a b_sys" where
  "b_exec (BSend v) \<sigma> =
     (if sender_count (chan \<sigma>) = 0 then ((BSkip, []), \<sigma>)
      else case send v (chan \<sigma>) of
        (Inl x, ws, s) \<Rightarrow> ((BSent (Inl x), ws), b_woke ws s \<sigma>)
      | (Inr k, ws, s) \<Rightarrow> ((BSent (Inr k), ws), (b_woke ws s \<sigma>)\<lparr>sent := sent \<sigma> @ [v]\<rparr>))"
| "b_exec BCloneSender \<sigma> =
     (if sender_count (chan \<sigma>) = 0 then ((BSkip, []), \<sigma>)
      else ((BDone, []), \<sigma>\<lparr>chan := sender_clone (chan \<sigma>)\<rparr>))"
| "b_exec BDropSender \<sigma> =
     (if sender_count (chan \<sigma>) = 0 then ((BSkip, []), \<sigma>)
      else case sender_close (chan \<sigma>) of (ws, s) \<Rightarrow> ((BDone, ws), b_woke ws s \<sigma>))"
| "b_exec (BSubscribe r) \<sigma> =
     (if r \<in> rxs \<sigma> then ((BSkip, []), \<sigma>)
      else case add_receiver r (chan \<sigma>) of
        (ws, s) \<Rightarrow> ((BDone, ws), (b_woke ws s \<sigma>)\<lparr>rxs := insert r (rxs \<sigma>)\<rparr>))"
| "b_exec (BDropReceiver r) \<sigma> =
     (if r \<notin> rxs \<sigma> \<or> (\<exists>n. futs \<sigma> n = Some r) then ((BSkip, []), \<sigma>)
      else case receiver_close r (chan \<sigma>) of
        Inl f \<Rightarrow> ((BFault f, []), \<sigma>)
      | Inr s \<Rightarrow> ((BDone, []), \<sigma>\<lparr>chan := s, rxs := rxs \<sigma> - {r}\<rparr>))"
| "b_exec (BTryRecv r) \<sigma> =
     (if r \<notin> rxs \<sigma> then ((BSkip, []), \<sigma>)
      else case try_recv r (chan \<sigma>) of
        Inl f \<Rightarrow> ((BFault f, []), \<sigma>)
      | Inr (x, s) \<Rightarrow> ((BTried x, []), \<sigma>\<lparr>chan := s\<rparr>))"
| "b_exec (BRecv n r) \<sigma> =
     (if r \<notin> rxs \<sigma> \<or> futs \<sigma> n \<noteq> None then ((BSkip, []), \<sigma>)
      else ((BDone, []), \<sigma>\<lparr>futs := (futs \<sigma>)(n := Some r)\<rparr>))"
| "b_exec (BPoll n w) \<sigma> =
     (case futs \<sigma> n of
        None \<Rightarrow> ((BSkip, []), \<sigma>)
      | Some r \<Rightarrow> (case recv_poll n r w (chan \<sigma>) of
          Inl f \<Rightarrow> ((BFault f, []), \<sigma>)
        | Inr (x, s) \<Rightarrow> ((BPolled x, []),
            if isPending x then \<sigma>\<lparr>chan := s, waiting := (waiting \<sigma>)(n := Some w)\<rparr>
            else b_end n (\<sigma>\<lparr>chan := s\<rparr>))))"
| "b_exec (BDropFuture n) \<sigma> =
     (if futs \<sigma> n = None then ((BSkip, []), \<sigma>)
      else ((BDone, []), b_end n (\<sigma>\<lparr>chan := recv_drop n (chan \<sigma>)\<rparr>)))"
| "b_exec (BActive n) \<sigma> =
     (if sender_count (chan \<sigma>) = 0 \<or> n \<in> afuts \<sigma> then ((BSkip, []), \<sigma>)
      else ((BDone, []), \<sigma>\<lparr>afuts := insert n (afuts \<sigma>)\<rparr>))"
| "b_exec (BPollActive n w) \<sigma> =
     (if n \<notin> afuts \<sigma> then ((BSkip, []), \<sigma>)
      else case active_poll n w (chan \<sigma>) of
        (x, s) \<Rightarrow> ((BPolledActive x, []),
          if isPending x then \<sigma>\<lparr>chan := s, awaiting := (awaiting \<sigma>)(n := Some w)\<rparr>
          else a_end n (\<sigma>\<lparr>chan := s\<rparr>)))"
| "b_exec (BDropActive n) \<sigma> =
     (if n \<notin> afuts \<sigma> then ((BSkip, []), \<sigma>)
      else ((BDone, []), a_end n (\<sigma>\<lparr>chan := active_drop n (chan \<sigma>)\<rparr>)))"

section \<open>What every receiver is promised\<close>

text \<open>
  The specification keeps the whole history of values sent and each receiver's position in it. Of
  the history the last \<open>cap\<close> values are still to be had.
\<close>

record 'a bspec =
  hist :: "'a list"
  bcap :: nat
  senders :: nat
  subs :: "nat set"
  pos :: "nat \<Rightarrow> nat"
  bfuts :: "node \<Rightarrow> nat option"
  bafuts :: "node set"

definition bs_init :: "nat \<Rightarrow> 'a bspec" where
  "bs_init cap = \<lparr>hist = [], bcap = cap, senders = 1, subs = {0}, pos = (\<lambda>_. 0),
     bfuts = (\<lambda>_. None), bafuts = {}\<rparr>"

definition bs_read :: "nat \<Rightarrow> 'a bspec \<Rightarrow> (BroadcastRecvError + 'a) \<times> 'a bspec" where
  "bs_read r a =
     (let p = pos a r; oldest = length (hist a) - bcap a in
      if p < oldest then (Inl (Lagged (oldest - p)), a\<lparr>pos := (pos a)(r := oldest)\<rparr>)
      else if p < length (hist a) then (Inr (hist a ! p), a\<lparr>pos := (pos a)(r := p + 1)\<rparr>)
      else (Inl (if senders a = 0 then BClosed else BEmpty), a))"

fun bs_exec :: "'a b_op \<Rightarrow> 'a bspec \<Rightarrow> 'a b_out \<times> 'a bspec" where
  "bs_exec (BSend v) a =
     (if senders a = 0 then (BSkip, a)
      else if subs a = {} then (BSent (Inl v), a)
      else (BSent (Inr (card (subs a))), a\<lparr>hist := hist a @ [v]\<rparr>))"
| "bs_exec BCloneSender a =
     (if senders a = 0 then (BSkip, a) else (BDone, a\<lparr>senders := senders a + 1\<rparr>))"
| "bs_exec BDropSender a =
     (if senders a = 0 then (BSkip, a) else (BDone, a\<lparr>senders := senders a - 1\<rparr>))"
| "bs_exec (BSubscribe r) a =
     (if r \<in> subs a then (BSkip, a)
      else (BDone, a\<lparr>subs := insert r (subs a), pos := (pos a)(r := length (hist a))\<rparr>))"
| "bs_exec (BDropReceiver r) a =
     (if r \<notin> subs a \<or> (\<exists>n. bfuts a n = Some r) then (BSkip, a) else (BDone, a\<lparr>subs := subs a - {r}\<rparr>))"
| "bs_exec (BTryRecv r) a =
     (if r \<notin> subs a then (BSkip, a) else case bs_read r a of (x, a) \<Rightarrow> (BTried x, a))"
| "bs_exec (BRecv n r) a =
     (if r \<notin> subs a \<or> bfuts a n \<noteq> None then (BSkip, a)
      else (BDone, a\<lparr>bfuts := (bfuts a)(n := Some r)\<rparr>))"
| "bs_exec (BPoll n w) a =
     (case bfuts a n of
        None \<Rightarrow> (BSkip, a)
      | Some r \<Rightarrow> (case bs_read r a of (x, a) \<Rightarrow>
          if x = Inl BEmpty then (BPolled PollPending, a)
          else (BPolled (PollReady x), a\<lparr>bfuts := (bfuts a)(n := None)\<rparr>)))"
| "bs_exec (BDropFuture n) a =
     (if bfuts a n = None then (BSkip, a) else (BDone, a\<lparr>bfuts := (bfuts a)(n := None)\<rparr>))"
| "bs_exec (BActive n) a =
     (if senders a = 0 \<or> n \<in> bafuts a then (BSkip, a) else (BDone, a\<lparr>bafuts := insert n (bafuts a)\<rparr>))"
| "bs_exec (BPollActive n w) a =
     (if n \<notin> bafuts a then (BSkip, a)
      else if subs a = {} then (BPolledActive PollPending, a)
      else (BPolledActive (PollReady ()), a\<lparr>bafuts := bafuts a - {n}\<rparr>))"
| "bs_exec (BDropActive n) a =
     (if n \<notin> bafuts a then (BSkip, a) else (BDone, a\<lparr>bafuts := bafuts a - {n}\<rparr>))"


definition b_abs :: "'a b_sys \<Rightarrow> 'a bspec" where
  "b_abs \<sigma> = \<lparr>hist = sent \<sigma>, bcap = capacity (chan \<sigma>), senders = sender_count (chan \<sigma>), subs = rxs \<sigma>,
     pos = cursor (chan \<sigma>), bfuts = futs \<sigma>, bafuts = afuts \<sigma>\<rparr>"

section \<open>The ring\<close>

text \<open>
  Of the values still in the window every slot holds the value while somebody has yet to read it,
  and how many do; the window never exceeds the ring, so no two of its values share a slot.
\<close>

definition unread :: "nat set \<Rightarrow> (nat \<Rightarrow> nat) \<Rightarrow> nat \<Rightarrow> nat" where
  "unread R cur q = card {r\<in>R. cur r \<le> q}"

definition slot_ok :: "'a list \<Rightarrow> nat \<Rightarrow> nat \<Rightarrow> 'a ring_slot \<Rightarrow> bool" where
  "slot_ok h q k sl \<longleftrightarrow> sl_remaining sl = k \<and> sl_value sl = (if k = 0 then None else Some (h ! q))"

definition ring_ok :: "nat set \<Rightarrow> 'a list \<Rightarrow> 'a bcast \<Rightarrow> bool" where
  "ring_ok R h s \<longleftrightarrow> 0 < capacity s \<and> length (ring s) = capacity s \<and> length h = next_seq s
     \<and> (\<forall>r\<in>R. cursor s r \<le> next_seq s) \<and> finite R \<and> receiver_count s = card R
     \<and> (\<forall>q. oldest_seq s \<le> q \<longrightarrow> q < next_seq s \<longrightarrow>
          slot_ok h q (unread R (cursor s) q) (ring s ! (q mod capacity s)))"

lemma oldest_eq: "oldest_seq s = next_seq s - capacity s"
  by (simp add: oldest_seq_def)

lemma mod_window:
  fixes p q n :: nat
  assumes "p mod n = q mod n" "p < q" "0 < n"
  shows "n \<le> q - p"
proof -
  have "n dvd q - p" using assms by (metis mod_eq_dvd_iff_nat less_imp_le)
  with assms(2) show ?thesis by (intro dvd_imp_le) simp_all
qed

lemma window_distinct:
  assumes "oldest_seq s \<le> p" "p < next_seq s" "oldest_seq s \<le> q" "q < next_seq s" "0 < capacity s"
    "p mod capacity s = q mod capacity s"
  shows "p = q"
  using assms mod_window [of p "capacity s" q] mod_window [of q "capacity s" p]
  by (cases p q rule: linorder_cases) (auto simp: oldest_eq)

lemma unread_advance:
  assumes "finite R" "r \<in> R" "cur r \<le> c"
  shows "unread R (cur(r := c)) q = unread R cur q - (if cur r \<le> q \<and> q < c then 1 else 0)"
proof (cases "cur r \<le> q \<and> q < c")
  case True
  then have "{x\<in>R. (cur(r := c)) x \<le> q} = {x\<in>R. cur x \<le> q} - {r}" using assms by auto
  with True assms show ?thesis by (simp add: unread_def card_Diff_singleton)
next
  case False
  then have "{x\<in>R. (cur(r := c)) x \<le> q} = {x\<in>R. cur x \<le> q}" using assms by auto
  with False show ?thesis by (auto simp: unread_def)
qed

lemma unread_pos: "finite R \<Longrightarrow> r \<in> R \<Longrightarrow> cur r \<le> q \<Longrightarrow> 0 < unread R cur q"
  by (auto simp: unread_def card_gt_0_iff)


lemma ring_ok_cong:
  assumes "ring_ok R h s" "ring t = ring s" "capacity t = capacity s" "next_seq t = next_seq s"
    "receiver_count t = receiver_count s" "cursor t = cursor s"
  shows "ring_ok R h t"
  using assms by (simp add: ring_ok_def oldest_eq)

lemma ring_ok_send:
  assumes ok: "ring_ok R h s" and R: "R \<noteq> {}"
  shows "ring_ok R (h @ [v]) (s\<lparr>ring := (ring s)[next_seq s mod capacity s :=
      \<lparr>sl_value = Some v, sl_remaining = receiver_count s\<rparr>], next_seq := next_seq s + 1\<rparr>)" (is "ring_ok _ _ ?t")
proof -
  let ?n = "next_seq s" and ?cap = "capacity s"
  have cap: "0 < ?cap" "length (ring s) = ?cap" "length h = ?n" and R': "finite R" "card R \<noteq> 0"
    and cur: "\<And>r. r \<in> R \<Longrightarrow> cursor s r \<le> ?n" and rc: "receiver_count s = card R"
    using ok R by (auto simp: ring_ok_def)
  have all: "unread R (cursor s) ?n = card R"
    unfolding unread_def using cur by (intro arg_cong [where f = card]) auto
  have "slot_ok (h @ [v]) q (unread R (cursor s) q) (ring ?t ! (q mod ?cap))"
    if q: "oldest_seq ?t \<le> q" "q < Suc ?n" for q
  proof (cases "q = ?n")
    case True
    then show ?thesis using cap all rc R' by (simp add: slot_ok_def nth_append)
  next
    case False
    have "q mod ?cap \<noteq> ?n mod ?cap"
      using mod_window [of q ?cap ?n] cap q False by (auto simp: oldest_eq)
    moreover have "oldest_seq s \<le> q" "q < ?n" using q False by (auto simp: oldest_eq)
    ultimately show ?thesis using ok cap by (simp add: ring_ok_def slot_ok_def nth_append)
  qed
  then show ?thesis using cap R' cur rc by (simp add: ring_ok_def le_SucI)
qed

lemma ring_ok_add:
  assumes ok: "ring_ok R h s" and r: "r \<notin> R"
  shows "ring_ok (insert r R) h (s\<lparr>receiver_count := receiver_count s + 1, cursor := (cursor s)(r := next_seq s)\<rparr>)"
proof -
  have "unread (insert r R) ((cursor s)(r := next_seq s)) q = unread R (cursor s) q" if "q < next_seq s" for q
    unfolding unread_def using that r by (intro arg_cong [where f = card]) auto
  then show ?thesis using ok r by (auto simp: ring_ok_def oldest_seq_def)
qed

lemma ring_ok_lag:
  assumes ok: "ring_ok R h s" and r: "r \<in> R" "cursor s r < oldest_seq s"
  shows "ring_ok R h (set_cursor r (oldest_seq s) s)"
proof -
  have "unread R ((cursor s)(r := oldest_seq s)) q = unread R (cursor s) q" if "oldest_seq s \<le> q" for q
    using that r ok by (subst unread_advance) (auto simp: ring_ok_def)
  then show ?thesis using ok by (auto simp: ring_ok_def set_cursor_def oldest_seq_def)
qed

lemma take_ok:
  assumes ok: "ring_ok R h s" and r: "r \<in> R" and c: "oldest_seq s \<le> cursor s r" "cursor s r < next_seq s"
  shows "\<exists>t. take_seq (cursor s r) (set_cursor r (cursor s r + 1) s) = Inr (h ! cursor s r, t)
    \<and> ring_ok R h t \<and> t = s\<lparr>cursor := (cursor s)(r := cursor s r + 1), ring := ring t\<rparr>"
proof -
  let ?c = "cursor s r" and ?cap = "capacity s"
  let ?i = "?c mod ?cap" and ?cur = "(cursor s)(r := cursor s r + 1)"
  have fin: "finite R" and cap: "0 < ?cap" "length (ring s) = ?cap"
    and win: "\<And>q. oldest_seq s \<le> q \<Longrightarrow> q < next_seq s \<Longrightarrow>
      slot_ok h q (unread R (cursor s) q) (ring s ! (q mod ?cap))"
    using ok by (auto simp: ring_ok_def)
  have pos: "0 < unread R (cursor s) ?c" using fin r by (rule unread_pos) simp
  have sl: "sl_remaining (ring s ! ?i) = unread R (cursor s) ?c" "sl_value (ring s ! ?i) = Some (h ! ?c)"
    using win [OF c] pos by (auto simp: slot_ok_def)
  have un: "unread R ?cur q = unread R (cursor s) q - (if q = ?c then 1 else 0)" for q
    using unread_advance [OF fin r, of "cursor s" "cursor s r + 1" q] by (auto simp: le_less_Suc_eq)
  define sl' where "sl' = (let k = unread R (cursor s) ?c - 1 in
    \<lparr>sl_value = (if k = 0 then None else Some (h ! ?c)), sl_remaining = k\<rparr>)"
  define t where "t = s\<lparr>cursor := ?cur, ring := (ring s)[?i := sl']\<rparr>"
  have "ring s ! ?i = \<lparr>sl_value = Some (h ! ?c), sl_remaining = unread R (cursor s) ?c\<rparr>"
    using sl by (cases "ring s ! ?i") simp
  then have "take_seq ?c (set_cursor r (cursor s r + 1) s) = Inr (h ! ?c, t)"
    using pos by (auto simp: take_seq_def set_cursor_def t_def sl'_def Let_def)
  moreover have "slot_ok h q (unread R ?cur q) ((ring s)[?i := sl'] ! (q mod ?cap))"
    if q: "oldest_seq s \<le> q" "q < next_seq s" for q
  proof (cases "q = ?c")
    case True
    then show ?thesis using cap un [of q] by (simp add: slot_ok_def sl'_def Let_def)
  next
    case False
    then have "q mod ?cap \<noteq> ?i" using window_distinct [OF q c cap(1)] by auto
    then show ?thesis using False win [OF q] un [of q] by simp
  qed
  then have "ring_ok R h t"
    using ok c r cap by (auto simp: ring_ok_def t_def oldest_seq_def)
  ultimately show ?thesis by (auto simp: t_def)
qed


lemma release_ok:
  assumes "k \<le> cap" "0 < cap" "length rg = cap"
    "\<And>i. i < k \<Longrightarrow> 0 < sl_remaining (rg ! ((q + i) mod cap))"
  shows "\<exists>rg'. release k q cap rg = Inr rg' \<and> length rg' = cap
    \<and> (\<forall>j<cap. rg' ! j = (if \<exists>i<k. j = (q + i) mod cap
        then (let m = sl_remaining (rg ! j) - 1
              in \<lparr>sl_value = (if m = 0 then None else sl_value (rg ! j)), sl_remaining = m\<rparr>)
        else rg ! j))"
  using assms
proof (induction k arbitrary: q rg)
  case (Suc k)
  let ?j = "q mod cap"
  define sl where "sl = (let m = sl_remaining (rg ! ?j) - 1
    in \<lparr>sl_value = (if m = 0 then None else sl_value (rg ! ?j)), sl_remaining = m\<rparr>)"
  have pos: "0 < sl_remaining (rg ! ?j)" using Suc.prems(4) [of 0] by simp
  have step: "release (Suc k) q cap rg = release k (q + 1) cap (rg[?j := sl])"
    using pos by (cases "rg ! ?j") (auto simp: sl_def Let_def)
  have ne: "(q + 1 + i) mod cap \<noteq> ?j" if "i < k" for i
    using mod_window [of q cap "q + 1 + i"] Suc.prems(1,2) that by auto
  have "0 < sl_remaining (rg[?j := sl] ! ((q + 1 + i) mod cap))" if "i < k" for i
    using Suc.prems(4) [of "Suc i"] ne [OF that] that by simp
  then obtain rg' where rg': "release k (q + 1) cap (rg[?j := sl]) = Inr rg'" "length rg' = cap"
    "\<And>j. j < cap \<Longrightarrow> rg' ! j = (if \<exists>i<k. j = (q + 1 + i) mod cap
        then (let m = sl_remaining (rg[?j := sl] ! j) - 1
              in \<lparr>sl_value = (if m = 0 then None else sl_value (rg[?j := sl] ! j)), sl_remaining = m\<rparr>)
        else rg[?j := sl] ! j)"
    using Suc.IH [of "rg[?j := sl]" "q + 1"] Suc.prems(1-3) by auto
  have ex: "(\<exists>i<Suc k. j = (q + i) mod cap) \<longleftrightarrow> j = ?j \<or> (\<exists>i<k. j = (q + 1 + i) mod cap)" for j
    unfolding Ex_less_Suc2 by simp
  have "rg' ! j = (if \<exists>i<Suc k. j = (q + i) mod cap
        then (let m = sl_remaining (rg ! j) - 1
              in \<lparr>sl_value = (if m = 0 then None else sl_value (rg ! j)), sl_remaining = m\<rparr>)
        else rg ! j)" if "j < cap" for j
  proof (cases "j = ?j")
    case True
    then have no: "\<not> (\<exists>i<k. j = (q + 1 + i) mod cap)" using ne by metis
    have "rg' ! j = rg[?j := sl] ! j" by (subst rg'(3) [OF that]) (use no in \<open>rule if_not_P\<close>)
    then show ?thesis using True Suc.prems(3) that by (simp add: ex sl_def)
  next
    case False
    then show ?thesis using rg'(3) [OF that] by (auto simp: ex sl_def Let_def)
  qed
  then show ?case using step rg'(1,2) by auto
qed simp

lemma remove_ok:
  assumes ok: "ring_ok R h s" and r: "r \<in> R"
  shows "\<exists>rg. receiver_close r s = Inr (s\<lparr>ring := rg, receiver_count := receiver_count s - 1\<rparr>)
    \<and> ring_ok (R - {r}) h (s\<lparr>ring := rg, receiver_count := receiver_count s - 1\<rparr>)"
proof -
  let ?q = "max (cursor s r) (oldest_seq s)" and ?cap = "capacity s" and ?n = "next_seq s"
  let ?k = "?n - ?q"
  have fin: "finite R" and cap: "0 < ?cap" "length (ring s) = ?cap" and cn: "cursor s r \<le> ?n"
    and win: "\<And>q. oldest_seq s \<le> q \<Longrightarrow> q < ?n \<Longrightarrow> slot_ok h q (unread R (cursor s) q) (ring s ! (q mod ?cap))"
    using ok r by (auto simp: ring_ok_def)
  have un: "unread (R - {r}) (cursor s) q = unread R (cursor s) q - (if cursor s r \<le> q then 1 else 0)" for q
  proof (cases "cursor s r \<le> q")
    case True
    have "{x\<in>R - {r}. cursor s x \<le> q} = {x\<in>R. cursor s x \<le> q} - {r}" by auto
    with True r fin show ?thesis by (simp add: unread_def card_Diff_singleton)
  next
    case False
    then have "{x\<in>R - {r}. cursor s x \<le> q} = {x\<in>R. cursor s x \<le> q}" by auto
    with False show ?thesis by (simp add: unread_def)
  qed
  have "0 < sl_remaining (ring s ! ((?q + i) mod ?cap))" if "i < ?k" for i
    using win [of "?q + i"] unread_pos [OF fin r, of "cursor s" "?q + i"] that by (auto simp: slot_ok_def)
  moreover have "?k \<le> ?cap" by (auto simp: oldest_eq)
  ultimately obtain rg where rg: "release ?k ?q ?cap (ring s) = Inr rg" "length rg = ?cap"
    "\<And>j. j < ?cap \<Longrightarrow> rg ! j = (if \<exists>i<?k. j = (?q + i) mod ?cap
        then (let m = sl_remaining (ring s ! j) - 1
              in \<lparr>sl_value = (if m = 0 then None else sl_value (ring s ! j)), sl_remaining = m\<rparr>)
        else ring s ! j)"
    using release_ok [of ?k ?cap "ring s" ?q] cap by auto
  have "slot_ok h q (unread (R - {r}) (cursor s) q) (rg ! (q mod ?cap))"
    if q: "oldest_seq s \<le> q" "q < ?n" for q
  proof (cases "cursor s r \<le> q")
    case True
    then have "\<exists>i<?k. q mod ?cap = (?q + i) mod ?cap" using q by (intro exI [of _ "q - ?q"]) auto
    then have "rg ! (q mod ?cap) = (let m = sl_remaining (ring s ! (q mod ?cap)) - 1
        in \<lparr>sl_value = (if m = 0 then None else sl_value (ring s ! (q mod ?cap))), sl_remaining = m\<rparr>)"
      using rg(3) [of "q mod ?cap"] cap(1) by simp
    then show ?thesis using win [OF q] True by (auto simp: slot_ok_def un Let_def)
  next
    case False
    have "\<not> (\<exists>i<?k. q mod ?cap = (?q + i) mod ?cap)"
    proof
      assume "\<exists>i<?k. q mod ?cap = (?q + i) mod ?cap"
      then obtain i where i: "i < ?k" "q mod ?cap = (?q + i) mod ?cap" by blast
      then have "q = ?q + i" by (intro window_distinct [OF q _ _ cap(1)]) auto
      with False show False by simp
    qed
    then have "rg ! (q mod ?cap) = ring s ! (q mod ?cap)"
      using cap(1) by (subst rg(3)) (simp, rule if_not_P)
    then show ?thesis using win [OF q] False by (simp add: un)
  qed
  then have "ring_ok (R - {r}) h (s\<lparr>ring := rg, receiver_count := receiver_count s - 1\<rparr>)"
    using ok rg(2) r by (auto simp: ring_ok_def oldest_eq)
  then show ?thesis using rg(1) by (auto simp: receiver_close_def remove_receiver_def Let_def)
qed

section \<open>The waiters\<close>

text \<open>
  A linked receive future has its waker, its receiver has read everything and a sender remains; a
  linked \<^verbatim>\<open>receivers_active()\<close> future has its waker and there is no receiver; a future that waits
  unwoken is linked with the waker of its last poll.
\<close>

definition rw_ok :: "'a b_sys \<Rightarrow> bool" where
  "rw_ok \<sigma> \<longleftrightarrow> distinct (receiver_waiters (chan \<sigma>))
     \<and> (\<forall>n\<in>set (receiver_waiters (chan \<sigma>)). 0 < sender_count (chan \<sigma>)
          \<and> (\<exists>r. futs \<sigma> n = Some r \<and> cursor (chan \<sigma>) r = next_seq (chan \<sigma>)))
     \<and> (\<forall>n w. waiting \<sigma> n = Some w \<longrightarrow>
          n \<in> set (receiver_waiters (chan \<sigma>)) \<and> recv_waker (chan \<sigma>) n = Some w)"

definition aw_ok :: "'a b_sys \<Rightarrow> bool" where
  "aw_ok \<sigma> \<longleftrightarrow> distinct (sender_waiters (chan \<sigma>))
     \<and> (\<forall>n\<in>set (sender_waiters (chan \<sigma>)). n \<in> afuts \<sigma> \<and> receiver_count (chan \<sigma>) = 0)
     \<and> (\<forall>n w. awaiting \<sigma> n = Some w \<longrightarrow>
          n \<in> set (sender_waiters (chan \<sigma>)) \<and> active_waker (chan \<sigma>) n = Some w)"

definition b_inv :: "'a b_sys \<Rightarrow> bool" where
  "b_inv \<sigma> \<longleftrightarrow> ring_ok (rxs \<sigma>) (sent \<sigma>) (chan \<sigma>) \<and> rw_ok \<sigma> \<and> aw_ok \<sigma>
     \<and> (\<forall>n r. futs \<sigma> n = Some r \<longrightarrow> r \<in> rxs \<sigma>)"

lemmas b_inv_defs = b_inv_def rw_ok_def aw_ok_def

lemma drain_receivers_eq:
  "distinct (receiver_waiters s) \<Longrightarrow> drain_receivers s = (ws, t) \<Longrightarrow>
     set ws = {w. \<exists>n\<in>set (receiver_waiters s). recv_waker s n = Some w}
     \<and> (\<exists>wk. t = s\<lparr>receiver_waiters := [], recv_waker := wk\<rparr>)"
  by (auto simp: drain_receivers_def split: prod.splits dest!: drain_wakers_set)

text \<open>Draining the receivers wakes every receive future that waits.\<close>

lemma drain_wakes:
  assumes "rw_ok \<sigma>" "receiver_waiters s = receiver_waiters (chan \<sigma>)" "recv_waker s = recv_waker (chan \<sigma>)"
    "drain_receivers s = (ws, t)"
  shows "unwoken ws (waiting \<sigma> n) = None"
proof (cases "waiting \<sigma> n")
  case (Some w)
  have "set ws = {w. \<exists>n\<in>set (receiver_waiters s). recv_waker s n = Some w}"
    using drain_receivers_eq [OF _ assms(4)] assms(1,2) by (simp add: rw_ok_def)
  moreover have "n \<in> set (receiver_waiters s) \<and> recv_waker s n = Some w"
    using Some assms(1-3) by (simp add: rw_ok_def)
  ultimately have "w \<in> set ws" by blast
  with Some show ?thesis by (simp add: unwoken_def)
qed simp

lemma drain_receivers_inv:
  assumes "rw_ok \<sigma>" "aw_ok \<sigma>" "ring_ok (rxs \<sigma>) h s" "\<forall>n r. futs \<sigma> n = Some r \<longrightarrow> r \<in> rxs \<sigma>"
    "receiver_waiters s = receiver_waiters (chan \<sigma>)" "recv_waker s = recv_waker (chan \<sigma>)"
    "sender_waiters s = sender_waiters (chan \<sigma>)" "active_waker s = active_waker (chan \<sigma>)"
    "receiver_count s = receiver_count (chan \<sigma>)"
    "drain_receivers s = (ws, t)"
  shows "b_inv ((b_woke ws t \<sigma>)\<lparr>sent := h\<rparr>)"
proof -
  obtain wk where t: "t = s\<lparr>receiver_waiters := [], recv_waker := wk\<rparr>"
    using drain_receivers_eq [OF _ assms(10)] assms(1,5) by (auto simp: rw_ok_def)
  have r: "ring_ok (rxs \<sigma>) h t" by (rule ring_ok_cong [OF assms(3)]) (simp_all add: t)
  have w: "unwoken ws (waiting \<sigma> n) = None" for n
    by (rule drain_wakes [OF assms(1,5,6,10)])
  show ?thesis
    using assms(2,4,7-9) r w by (simp add: b_inv_defs b_woke_def unwoken_Some t)
qed

section \<open>Every call keeps the invariant and answers as the history does\<close>

definition b_good :: "'a b_op \<Rightarrow> 'a b_sys \<Rightarrow> bool" where
  "b_good op \<sigma> \<longleftrightarrow> b_inv (snd (b_exec op \<sigma>))
     \<and> bs_exec op (b_abs \<sigma>) = (fst (fst (b_exec op \<sigma>)), b_abs (snd (b_exec op \<sigma>)))"

lemma b_inv_count: "b_inv \<sigma> \<Longrightarrow> receiver_count (chan \<sigma>) = card (rxs \<sigma>) \<and> finite (rxs \<sigma>)
    \<and> length (sent \<sigma>) = next_seq (chan \<sigma>)"
  by (simp add: b_inv_def ring_ok_def)

lemma good_send:
  assumes inv: "b_inv \<sigma>"
  shows "b_good (BSend v) \<sigma>"
proof (cases "sender_count (chan \<sigma>) = 0 \<or> rxs \<sigma> = {}")
  case True
  with inv b_inv_count [OF inv] show ?thesis
    by (auto simp: b_good_def send_def b_abs_def b_woke_def)
next
  case False
  let ?s = "(chan \<sigma>)\<lparr>ring := (ring (chan \<sigma>))[next_seq (chan \<sigma>) mod capacity (chan \<sigma>) :=
      \<lparr>sl_value = Some v, sl_remaining = receiver_count (chan \<sigma>)\<rparr>], next_seq := next_seq (chan \<sigma>) + 1\<rparr>"
  obtain ws t where d: "drain_receivers ?s = (ws, t)" by force
  have I: "rw_ok \<sigma>" "aw_ok \<sigma>" "\<forall>n r. futs \<sigma> n = Some r \<longrightarrow> r \<in> rxs \<sigma>" "ring_ok (rxs \<sigma>) (sent \<sigma>) (chan \<sigma>)"
    using inv by (simp_all add: b_inv_def)
  have "ring_ok (rxs \<sigma>) (sent \<sigma> @ [v]) ?s" using I(4) False by (intro ring_ok_send) simp_all
  then have i: "b_inv ((b_woke ws t \<sigma>)\<lparr>sent := sent \<sigma> @ [v]\<rparr>)"
    by (rule drain_receivers_inv [OF I(1,2) _ I(3) _ _ _ _ _ d]) simp_all
  obtain wk where t: "t = ?s\<lparr>receiver_waiters := [], recv_waker := wk\<rparr>"
    using drain_receivers_eq [OF _ d] I(1) by (auto simp: rw_ok_def)
  have e: "b_exec (BSend v) \<sigma> = ((BSent (Inr (receiver_count (chan \<sigma>))), ws), (b_woke ws t \<sigma>)\<lparr>sent := sent \<sigma> @ [v]\<rparr>)"
    using False b_inv_count [OF inv] d t by (simp add: send_def Let_def)
  show ?thesis unfolding b_good_def e
    using i False b_inv_count [OF inv] by (simp add: b_abs_def b_woke_def t)
qed

lemma good_clone: "b_inv \<sigma> \<Longrightarrow> b_good BCloneSender \<sigma>"
  by (auto simp: b_good_def sender_clone_def b_abs_def b_inv_defs elim!: ring_ok_cong)

lemma good_drop_sender:
  assumes inv: "b_inv \<sigma>"
  shows "b_good BDropSender \<sigma>"
proof (cases "sender_count (chan \<sigma>) \<le> 1")
  case True
  let ?s = "(chan \<sigma>)\<lparr>sender_count := 0\<rparr>"
  obtain ws t where d: "drain_receivers ?s = (ws, t)" by force
  have I: "rw_ok \<sigma>" "aw_ok \<sigma>" "\<forall>n r. futs \<sigma> n = Some r \<longrightarrow> r \<in> rxs \<sigma>" "ring_ok (rxs \<sigma>) (sent \<sigma>) (chan \<sigma>)"
    using inv by (simp_all add: b_inv_def)
  have "ring_ok (rxs \<sigma>) (sent \<sigma>) ?s" by (rule ring_ok_cong [OF I(4)]) simp_all
  then have i: "b_inv ((b_woke ws t \<sigma>)\<lparr>sent := sent \<sigma>\<rparr>)"
    by (rule drain_receivers_inv [OF I(1,2) _ I(3) _ _ _ _ _ d]) simp_all
  moreover have "(b_woke ws t \<sigma>)\<lparr>sent := sent \<sigma>\<rparr> = b_woke ws t \<sigma>" by (simp add: b_woke_def)
  ultimately have i: "b_inv (b_woke ws t \<sigma>)" by simp
  obtain wk where t: "t = ?s\<lparr>receiver_waiters := [], recv_waker := wk\<rparr>"
    using drain_receivers_eq [OF _ d] I(1) by (auto simp: rw_ok_def)
  show ?thesis
  proof (cases "sender_count (chan \<sigma>) = 0")
    case False
    with True have one: "sender_count (chan \<sigma>) = 1" by simp
    have e: "b_exec BDropSender \<sigma> = ((BDone, ws), b_woke ws t \<sigma>)"
      using one d by (simp add: sender_close_def Let_def)
    show ?thesis unfolding b_good_def e using i one by (simp add: b_abs_def b_woke_def t)
  qed (simp add: b_good_def b_abs_def inv)
next
  case False
  then have e: "b_exec BDropSender \<sigma> = ((BDone, []), b_woke [] ((chan \<sigma>)\<lparr>sender_count := sender_count (chan \<sigma>) - 1\<rparr>) \<sigma>)"
    by (simp add: sender_close_def Let_def)
  show ?thesis unfolding b_good_def e using inv False
    by (auto simp: b_abs_def b_woke_def b_inv_defs elim!: ring_ok_cong)
qed

lemma good_subscribe:
  assumes inv: "b_inv \<sigma>"
  shows "b_good (BSubscribe r) \<sigma>"
proof (cases "r \<in> rxs \<sigma>")
  case False
  have I: "rw_ok \<sigma>" "aw_ok \<sigma>" "\<forall>n r. futs \<sigma> n = Some r \<longrightarrow> r \<in> rxs \<sigma>" "ring_ok (rxs \<sigma>) (sent \<sigma>) (chan \<sigma>)"
    using inv by (simp_all add: b_inv_def)
  have add: "ring_ok (insert r (rxs \<sigma>)) (sent \<sigma>) ((chan \<sigma>)\<lparr>receiver_count := receiver_count (chan \<sigma>) + 1,
      cursor := (cursor (chan \<sigma>))(r := next_seq (chan \<sigma>))\<rparr>)"
    by (rule ring_ok_add [OF I(4) False])
  obtain ws wk where d: "drain_wakers (sender_waiters (chan \<sigma>)) (active_waker (chan \<sigma>)) = (ws, wk)" by force
  have ws: "set ws = {w. \<exists>n\<in>set (sender_waiters (chan \<sigma>)). active_waker (chan \<sigma>) n = Some w}"
    using drain_wakers_set [OF _ d] I(2) by (simp add: aw_ok_def)
  show ?thesis
  proof (cases "receiver_count (chan \<sigma>) = 0")
    case True
    then have none: "rxs \<sigma> = {}" using b_inv_count [OF inv] by simp
    define t where "t = (chan \<sigma>)\<lparr>sender_waiters := [], active_waker := wk, receiver_count := 1,
      cursor := (cursor (chan \<sigma>))(r := next_seq (chan \<sigma>))\<rparr>"
    have e: "b_exec (BSubscribe r) \<sigma> = ((BDone, ws), (b_woke ws t \<sigma>)\<lparr>rxs := insert r (rxs \<sigma>)\<rparr>)"
      using False True d by (simp add: add_receiver_def t_def)
    have aw: "unwoken ws (awaiting \<sigma> n) = None" for n
    proof (cases "awaiting \<sigma> n")
      case (Some w)
      with I(2) have "n \<in> set (sender_waiters (chan \<sigma>)) \<and> active_waker (chan \<sigma>) n = Some w" by (simp add: aw_ok_def)
      then have "w \<in> set ws" using ws by blast
      with Some show ?thesis by (simp add: unwoken_def)
    qed simp
    have r: "ring_ok (insert r (rxs \<sigma>)) (sent \<sigma>) t"
      by (rule ring_ok_cong [OF add]) (simp_all add: t_def True)
    have nof: "futs \<sigma> n = None" for n using I(3) none by (cases "futs \<sigma> n") auto
    have now: "receiver_waiters (chan \<sigma>) = []"
      using I(1) nof by (cases "receiver_waiters (chan \<sigma>)") (auto simp: rw_ok_def)
    have "waiting \<sigma> n = None" for n using I(1) now by (cases "waiting \<sigma> n") (auto simp: rw_ok_def)
    then have "b_inv ((b_woke ws t \<sigma>)\<lparr>rxs := insert r (rxs \<sigma>)\<rparr>)"
      using r aw nof now by (simp add: b_inv_defs b_woke_def t_def)
    then show ?thesis unfolding b_good_def e
      using False b_inv_count [OF inv] by (simp add: b_abs_def b_woke_def t_def)
  next
    case rc: False
    let ?t = "(chan \<sigma>)\<lparr>receiver_count := receiver_count (chan \<sigma>) + 1,
      cursor := (cursor (chan \<sigma>))(r := next_seq (chan \<sigma>))\<rparr>"
    have e: "b_exec (BSubscribe r) \<sigma> = ((BDone, []), (b_woke [] ?t \<sigma>)\<lparr>rxs := insert r (rxs \<sigma>)\<rparr>)"
      using False rc by (simp add: add_receiver_def)
    have "sender_waiters (chan \<sigma>) = []"
      using I(2) rc by (cases "sender_waiters (chan \<sigma>)") (auto simp: aw_ok_def)
    then have "b_inv ((b_woke [] ?t \<sigma>)\<lparr>rxs := insert r (rxs \<sigma>)\<rparr>)"
      using add I(1-3) False by (auto simp: b_inv_defs b_woke_def)
    then show ?thesis unfolding b_good_def e
      using False b_inv_count [OF inv] by (simp add: b_abs_def b_woke_def)
  qed
qed (simp add: b_good_def b_abs_def inv)

lemma good_drop_receiver:
  assumes inv: "b_inv \<sigma>"
  shows "b_good (BDropReceiver r) \<sigma>"
proof (cases "r \<in> rxs \<sigma> \<and> (\<forall>n. futs \<sigma> n \<noteq> Some r)")
  case True
  then obtain rg where rg: "receiver_close r (chan \<sigma>) = Inr ((chan \<sigma>)\<lparr>ring := rg, receiver_count := receiver_count (chan \<sigma>) - 1\<rparr>)"
    "ring_ok (rxs \<sigma> - {r}) (sent \<sigma>) ((chan \<sigma>)\<lparr>ring := rg, receiver_count := receiver_count (chan \<sigma>) - 1\<rparr>)"
    using remove_ok [of "rxs \<sigma>" "sent \<sigma>" "chan \<sigma>" r] inv by (auto simp: b_inv_def)
  with True inv show ?thesis by (auto simp: b_good_def b_inv_defs b_abs_def)
qed (use inv in \<open>auto simp: b_good_def b_abs_def\<close>)

text \<open>Where a receiver stands: behind the window, in it, or at its end.\<close>

lemma read_cases:
  assumes "b_inv \<sigma>" "r \<in> rxs \<sigma>"
  obtains (lagged) "cursor (chan \<sigma>) r < oldest_seq (chan \<sigma>)"
      "bs_read r (b_abs \<sigma>) = (Inl (Lagged (oldest_seq (chan \<sigma>) - cursor (chan \<sigma>) r)),
         b_abs (\<sigma>\<lparr>chan := set_cursor r (oldest_seq (chan \<sigma>)) (chan \<sigma>)\<rparr>))"
      "ring_ok (rxs \<sigma>) (sent \<sigma>) (set_cursor r (oldest_seq (chan \<sigma>)) (chan \<sigma>))"
  | (avail) t where "oldest_seq (chan \<sigma>) \<le> cursor (chan \<sigma>) r" "cursor (chan \<sigma>) r < next_seq (chan \<sigma>)"
      "bs_read r (b_abs \<sigma>) = (Inr (sent \<sigma> ! cursor (chan \<sigma>) r), b_abs (\<sigma>\<lparr>chan := t\<rparr>))"
      "take_seq (cursor (chan \<sigma>) r) (set_cursor r (cursor (chan \<sigma>) r + 1) (chan \<sigma>))
         = Inr (sent \<sigma> ! cursor (chan \<sigma>) r, t)"
      "ring_ok (rxs \<sigma>) (sent \<sigma>) t"
      "t = (chan \<sigma>)\<lparr>cursor := (cursor (chan \<sigma>))(r := cursor (chan \<sigma>) r + 1), ring := ring t\<rparr>"
  | (finished) "oldest_seq (chan \<sigma>) \<le> cursor (chan \<sigma>) r" "cursor (chan \<sigma>) r = next_seq (chan \<sigma>)"
      "bs_read r (b_abs \<sigma>) = (Inl (if sender_count (chan \<sigma>) = 0 then BClosed else BEmpty), b_abs \<sigma>)"
proof -
  have ok: "ring_ok (rxs \<sigma>) (sent \<sigma>) (chan \<sigma>)" using assms by (simp add: b_inv_def)
  have len: "length (sent \<sigma>) = next_seq (chan \<sigma>)" "cursor (chan \<sigma>) r \<le> next_seq (chan \<sigma>)"
    using ok assms(2) by (auto simp: ring_ok_def)
  consider "cursor (chan \<sigma>) r < oldest_seq (chan \<sigma>)"
    | "oldest_seq (chan \<sigma>) \<le> cursor (chan \<sigma>) r" "cursor (chan \<sigma>) r < next_seq (chan \<sigma>)"
    | "oldest_seq (chan \<sigma>) \<le> cursor (chan \<sigma>) r" "cursor (chan \<sigma>) r = next_seq (chan \<sigma>)"
    using len(2) by linarith
  then show thesis
  proof cases
    case 1
    show thesis by (rule lagged [OF 1 _ ring_ok_lag [OF ok assms(2) 1]])
        (use 1 len in \<open>simp add: bs_read_def b_abs_def oldest_eq set_cursor_def\<close>)
  next
    case 2
    obtain t where t: "take_seq (cursor (chan \<sigma>) r) (set_cursor r (cursor (chan \<sigma>) r + 1) (chan \<sigma>))
        = Inr (sent \<sigma> ! cursor (chan \<sigma>) r, t)" "ring_ok (rxs \<sigma>) (sent \<sigma>) t"
      "t = (chan \<sigma>)\<lparr>cursor := (cursor (chan \<sigma>))(r := cursor (chan \<sigma>) r + 1), ring := ring t\<rparr>"
      using take_ok [OF ok assms(2) 2] by blast
    have "bs_read r (b_abs \<sigma>) = (Inr (sent \<sigma> ! cursor (chan \<sigma>) r), b_abs (\<sigma>\<lparr>chan := t\<rparr>))"
      using 2 len by (subst t(3)) (simp add: bs_read_def b_abs_def oldest_eq Let_def)
    then show thesis by (rule avail [OF 2 _ t])
  next
    case 3
    show thesis by (rule finished [OF 3])
        (use 3 len in \<open>auto simp: bs_read_def b_abs_def oldest_eq Let_def\<close>)
  qed
qed

text \<open>A linked future's receiver has read everything, so no other receiver's reading disturbs it.\<close>

lemma rw_ok_read:
  assumes "rw_ok \<sigma>" "cursor (chan \<sigma>) r \<noteq> next_seq (chan \<sigma>)"
  shows "rw_ok (\<sigma>\<lparr>chan := (chan \<sigma>)\<lparr>cursor := (cursor (chan \<sigma>))(r := c), ring := rg\<rparr>\<rparr>)"
  using assms by (fastforce simp: rw_ok_def)

lemma b_inv_read:
  assumes "b_inv \<sigma>" "cursor (chan \<sigma>) r \<noteq> next_seq (chan \<sigma>)"
    "ring_ok (rxs \<sigma>) (sent \<sigma>) ((chan \<sigma>)\<lparr>cursor := (cursor (chan \<sigma>))(r := c), ring := rg\<rparr>)"
  shows "b_inv (\<sigma>\<lparr>chan := (chan \<sigma>)\<lparr>cursor := (cursor (chan \<sigma>))(r := c), ring := rg\<rparr>\<rparr>)"
  using assms rw_ok_read [OF _ assms(2)] by (simp add: b_inv_def aw_ok_def)

lemma set_cursor_ring: "set_cursor r c s = s\<lparr>cursor := (cursor s)(r := c), ring := ring s\<rparr>"
  by (simp add: set_cursor_def)

lemma good_try_recv:
  assumes inv: "b_inv \<sigma>"
  shows "b_good (BTryRecv r) \<sigma>"
proof (cases "r \<in> rxs \<sigma>")
  case True
  have sub: "r \<in> subs (b_abs \<sigma>)" using True by (simp add: b_abs_def)
  from inv True show ?thesis
  proof (cases rule: read_cases)
    case lagged
    have e: "b_exec (BTryRecv r) \<sigma> = ((BTried (Inl (Lagged (oldest_seq (chan \<sigma>) - cursor (chan \<sigma>) r))), []),
        \<sigma>\<lparr>chan := set_cursor r (oldest_seq (chan \<sigma>)) (chan \<sigma>)\<rparr>)"
      using True lagged(1) by (simp add: try_recv_def Let_def)
    have "oldest_seq (chan \<sigma>) \<le> next_seq (chan \<sigma>)" by (simp add: oldest_eq)
    with b_inv_read [OF inv _ lagged(3) [unfolded set_cursor_ring]] lagged(1)
    have "b_inv (\<sigma>\<lparr>chan := set_cursor r (oldest_seq (chan \<sigma>)) (chan \<sigma>)\<rparr>)"
      by (simp add: set_cursor_ring)
    then show ?thesis unfolding b_good_def e using sub lagged(2) by simp
  next
    case (avail t)
    have e: "b_exec (BTryRecv r) \<sigma> = ((BTried (Inr (sent \<sigma> ! cursor (chan \<sigma>) r)), []), \<sigma>\<lparr>chan := t\<rparr>)"
      using True avail(1,2,4) by (simp add: try_recv_def)
    have "b_inv (\<sigma>\<lparr>chan := t\<rparr>)"
      by (subst avail(6), rule b_inv_read [OF inv])
        (use avail(2) in simp, subst avail(6) [symmetric], rule avail(5))
    then show ?thesis unfolding b_good_def e using sub avail(3) by simp
  next
    case finished
    then show ?thesis using True sub inv by (simp add: b_good_def try_recv_def)
  qed
qed (simp add: b_good_def b_abs_def inv)

text \<open>Ending a receive future that has been unlinked.\<close>

lemma b_inv_unlink:
  assumes "b_inv \<sigma>"
  shows "b_inv (b_end n (\<sigma>\<lparr>chan := (chan \<sigma>)\<lparr>receiver_waiters := remove1 n (receiver_waiters (chan \<sigma>))\<rparr>\<rparr>))"
  using assms by (auto simp: b_inv_defs b_end_def elim!: ring_ok_cong)

lemma take_seq_waiters:
  "take_seq q (s\<lparr>receiver_waiters := ns\<rparr>)
     = (case take_seq q s of Inl f \<Rightarrow> Inl f | Inr (v, t) \<Rightarrow> Inr (v, t\<lparr>receiver_waiters := ns\<rparr>))"
  by (simp add: take_seq_def Let_def split: option.split)

lemma good_poll:
  assumes inv: "b_inv \<sigma>"
  shows "b_good (BPoll n w) \<sigma>"
proof (cases "futs \<sigma> n")
  case (Some r)
  let ?u = "\<lambda>s. s\<lparr>receiver_waiters := remove1 n (receiver_waiters (chan \<sigma>))\<rparr>"
  have r: "r \<in> rxs \<sigma>" using inv Some by (auto simp: b_inv_def)
  have fut: "bfuts (b_abs \<sigma>) n = Some r" using Some by (simp add: b_abs_def)
  have ready: "b_good (BPoll n w) \<sigma>"
    if e: "recv_poll n r w (chan \<sigma>) = Inr (PollReady x, ?u t)" and x: "x \<noteq> Inl BEmpty"
      and a: "bs_read r (b_abs \<sigma>) = (x, b_abs (\<sigma>\<lparr>chan := t\<rparr>))" and i: "b_inv (\<sigma>\<lparr>chan := t\<rparr>)"
      and t: "receiver_waiters t = receiver_waiters (chan \<sigma>)" for x t
  proof -
    have e: "b_exec (BPoll n w) \<sigma> = ((BPolled (PollReady x), []), b_end n (\<sigma>\<lparr>chan := ?u t\<rparr>))"
      using Some e by (simp add: isPending_def)
    show ?thesis unfolding b_good_def e
      using b_inv_unlink [OF i, of n] fut a x t by (simp add: b_abs_def b_end_def)
  qed
  from inv r show ?thesis
  proof (cases rule: read_cases)
    case lagged
    have "oldest_seq (chan \<sigma>) \<le> next_seq (chan \<sigma>)" by (simp add: oldest_eq)
    with b_inv_read [OF inv _ lagged(3) [unfolded set_cursor_ring]] lagged(1)
    have i: "b_inv (\<sigma>\<lparr>chan := set_cursor r (oldest_seq (chan \<sigma>)) (chan \<sigma>)\<rparr>)"
      by (simp add: set_cursor_ring)
    show ?thesis by (rule ready [OF _ _ lagged(2) i])
        (use lagged(1) in \<open>simp_all add: recv_poll_def Let_def set_cursor_def\<close>)
  next
    case (avail t)
    have i: "b_inv (\<sigma>\<lparr>chan := t\<rparr>)"
      by (subst avail(6), rule b_inv_read [OF inv])
        (use avail(2) in simp, subst avail(6) [symmetric], rule avail(5))
    have sc: "set_cursor r c (?u s) = ?u (set_cursor r c s)" for c s by (simp add: set_cursor_def)
    have t: "receiver_waiters t = receiver_waiters (chan \<sigma>)" by (subst avail(6)) simp
    have "recv_poll n r w (chan \<sigma>) = Inr (PollReady (Inr (sent \<sigma> ! cursor (chan \<sigma>) r)), ?u t)"
      using avail(1,2) by (simp add: recv_poll_def Let_def sc take_seq_waiters avail(4) [simplified])
    then show ?thesis by (rule ready [OF _ _ avail(3) i t]) simp
  next
    case finished
    show ?thesis
    proof (cases "sender_count (chan \<sigma>) = 0")
      case True
      show ?thesis by (rule ready [of "Inl BClosed" "chan \<sigma>"])
          (use True finished inv in \<open>simp_all add: recv_poll_def Let_def\<close>)
    next
      case False
      define t where "t = (?u (chan \<sigma>))\<lparr>recv_waker := (recv_waker (chan \<sigma>))(n := Some w),
        receiver_waiters := remove1 n (receiver_waiters (chan \<sigma>)) @ [n]\<rparr>"
      have e: "b_exec (BPoll n w) \<sigma> = ((BPolled PollPending, []), \<sigma>\<lparr>chan := t, waiting := (waiting \<sigma>)(n := Some w)\<rparr>)"
        using Some False finished
        by (simp add: recv_poll_def Let_def isPending_def t_def wl_push_back_def)
      have "b_inv (\<sigma>\<lparr>chan := t, waiting := (waiting \<sigma>)(n := Some w)\<rparr>)"
        using inv Some False finished by (auto simp: b_inv_defs t_def elim!: ring_ok_cong)
      then show ?thesis unfolding b_good_def e
        using fut finished(3) False by (simp add: b_abs_def t_def)
    qed
  qed
qed (simp add: b_good_def b_abs_def inv)

lemma good_futures:
  assumes inv: "b_inv \<sigma>"
  shows "b_good (BRecv n r) \<sigma>" "b_good (BDropFuture n) \<sigma>" "b_good (BActive n) \<sigma>" "b_good (BDropActive n) \<sigma>"
proof -
  show "b_good (BRecv n r) \<sigma>"
  proof (cases "r \<in> rxs \<sigma> \<and> futs \<sigma> n = None")
    case True
    then have "n \<notin> set (receiver_waiters (chan \<sigma>))" using inv by (auto simp: b_inv_defs)
    with True inv show ?thesis by (auto simp: b_good_def b_inv_defs b_abs_def)
  qed (use inv in \<open>auto simp: b_good_def b_abs_def\<close>)
  show "b_good (BDropFuture n) \<sigma>"
    using b_inv_unlink [OF inv, of n] inv by (auto simp: b_good_def recv_drop_def b_abs_def b_end_def)
  show "b_good (BActive n) \<sigma>" using inv by (auto simp: b_good_def b_inv_defs b_abs_def)
  show "b_good (BDropActive n) \<sigma>"
    using inv by (auto simp: b_good_def b_inv_defs b_abs_def active_drop_def a_end_def elim!: ring_ok_cong)
qed

lemma good_poll_active:
  assumes inv: "b_inv \<sigma>"
  shows "b_good (BPollActive n w) \<sigma>"
proof (cases "receiver_count (chan \<sigma>) = 0")
  case True
  with inv b_inv_count [OF inv] show ?thesis
    by (auto simp: b_good_def b_inv_defs b_abs_def active_poll_def isPending_def wl_push_back_def elim!: ring_ok_cong)
next
  case False
  then have "sender_waiters (chan \<sigma>) = []" "awaiting \<sigma> = (\<lambda>_. None)"
    using inv by (cases "sender_waiters (chan \<sigma>)"; force simp: b_inv_defs fun_eq_iff)+
  moreover have "b_exec (BPollActive n w) \<sigma>
      = (if n \<notin> afuts \<sigma> then ((BSkip, []), \<sigma>) else ((BPolledActive (PollReady ()), []),
          a_end n (\<sigma>\<lparr>chan := (chan \<sigma>)\<lparr>sender_waiters := remove1 n (sender_waiters (chan \<sigma>))\<rparr>\<rparr>)))"
    using False by (simp add: active_poll_def isPending_def Let_def)
  moreover have "ring_ok (rxs \<sigma>) (sent \<sigma>) ((chan \<sigma>)\<lparr>sender_waiters := ns\<rparr>)" for ns
    using inv by (auto simp: b_inv_def elim!: ring_ok_cong)
  ultimately show ?thesis using False inv b_inv_count [OF inv]
    by (auto simp: b_good_def b_inv_defs b_abs_def a_end_def)
qed

lemma b_exec_good: "b_inv \<sigma> \<Longrightarrow> b_good op \<sigma>"
  by (cases op) (simp_all only: good_send good_clone good_drop_sender good_subscribe good_drop_receiver
    good_try_recv good_poll good_futures good_poll_active)

lemma b_init_ok: "b_inv (b_init (Suc k))" "b_abs (b_init (Suc k)) = bs_init (Suc k)"
  by (auto simp: b_init_def bs_init_def b_abs_def broadcast_channel_def add_receiver_def b_inv_defs
      ring_ok_def fun_eq_iff)

interpretation br: op_refinement "b_init (Suc k)" b_exec b_inv "bs_init (Suc k)" bs_exec b_abs fst for k
  by unfold_locales (use b_exec_good in \<open>auto simp: b_good_def b_init_ok\<close>)

lemma bs_exec_cap: "bcap (snd (bs_exec op a)) = bcap a"
  by (cases op) (auto simp: bs_read_def Let_def split: option.splits)

lemma bs_cap: "bcap (snd (run_ops bs_exec ops a)) = bcap a"
proof (induction ops arbitrary: a)
  case (Cons op ops)
  from Cons.IH [of "snd (bs_exec op a)"] show ?case
    by (simp add: bs_exec_cap Let_def split: prod.splits) (metis snd_conv)
qed simp

lemmas b_demo_defs = b_init_def broadcast_channel_def add_receiver_def b_woke_def send_def drain_receivers_def
  try_recv_def recv_poll_def take_seq_def set_cursor_def oldest_seq_def isPending_def wl_push_back_def
  numeral_2_eq_2 Let_def

section \<open>Properties\<close>

text \<open>
  C20. Every sequence of calls on a channel of any capacity answers as the history of the values sent
  does: each receiver reads every value sent since it subscribed, in order, as long as it is among
  the last \<open>capacity\<close> ones, is told how many it missed otherwise and resumes at the oldest one kept,
  and sees \<^verbatim>\<open>Closed\<close> only after the last value; no slot is found empty or its counter exhausted.
\<close>
theorem broadcast_refines_history:
  "run_ops bs_exec ops (bs_init (Suc k))
     = (map fst (fst (run_ops b_exec ops (b_init (Suc k)))), b_abs (snd (run_ops b_exec ops (b_init (Suc k)))))"
  by (rule br.run_abst)

text \<open>
  C21. Nobody is left waiting: after any sequence of calls, a receive future that waits unwoken has a
  receiver that has read everything and a sender remains, and the next accepted \<^verbatim>\<open>send\<close> wakes it,
  as does the drop of the last sender.
\<close>
theorem broadcast_no_lost_wake:
  assumes "\<sigma> = snd (run_ops b_exec ops (b_init (Suc k)))" "waiting \<sigma> n = Some w"
  shows "(\<exists>r\<in>rxs \<sigma>. futs \<sigma> n = Some r \<and> cursor (chan \<sigma>) r = length (sent \<sigma>))
    \<and> 0 < sender_count (chan \<sigma>) \<and> w \<in> set (snd (fst (b_exec (BSend v) \<sigma>)))
    \<and> (sender_count (chan \<sigma>) = 1 \<longrightarrow> w \<in> set (snd (fst (b_exec BDropSender \<sigma>))))"
proof -
  have inv: "b_inv \<sigma>" unfolding assms(1) by (rule br.run_inv)
  have I: "n \<in> set (receiver_waiters (chan \<sigma>))" "rw_ok \<sigma>" using inv assms(2) by (auto simp: b_inv_defs)
  then obtain r where r: "futs \<sigma> n = Some r" "cursor (chan \<sigma>) r = next_seq (chan \<sigma>)" "0 < sender_count (chan \<sigma>)"
    by (auto simp: rw_ok_def)
  have rx: "r \<in> rxs \<sigma>" using inv r(1) by (auto simp: b_inv_def)
  then have rc: "receiver_count (chan \<sigma>) \<noteq> 0" using b_inv_count [OF inv] by auto
  have woken: "w \<in> set ws"
    if "drain_receivers s = (ws, t)" "receiver_waiters s = receiver_waiters (chan \<sigma>)"
      "recv_waker s = recv_waker (chan \<sigma>)" for s ws t
    using drain_wakes [OF I(2) that(2,3,1), of n] assms(2) by (auto simp: unwoken_def split: if_splits)
  have "w \<in> set (snd (fst (b_exec (BSend v) \<sigma>)))"
    using r(3) rc by (auto simp: send_def Let_def split: prod.split intro!: woken)
  moreover have "w \<in> set (snd (fst (b_exec BDropSender \<sigma>)))" if "sender_count (chan \<sigma>) = 1"
    using that by (auto simp: sender_close_def Let_def split: prod.split intro!: woken)
  ultimately show ?thesis using r rx b_inv_count [OF inv] by auto
qed

theorem broadcast_no_lost_wake_witness:
  "let \<sigma> = snd (run_ops b_exec [BSend 5, BTryRecv 0, BRecv 7 0, BPoll 7 3] (b_init 2)) in
    waiting \<sigma> 7 = Some 3 \<and> 3 \<in> set (snd (fst (b_exec (BSend (6 :: nat)) \<sigma>)))
      \<and> cursor (chan \<sigma>) 0 = 1"
proof -
  let ?\<sigma> = "snd (run_ops b_exec [BSend (5 :: nat), BTryRecv 0, BRecv 7 0, BPoll 7 3] (b_init 2))"
  have "waiting ?\<sigma> 7 = Some 3" "cursor (chan ?\<sigma>) 0 = 1" by (simp_all add: b_demo_defs)
  with broadcast_no_lost_wake [where k = 1 and n = 7 and w = 3 and v = 6, OF refl] show ?thesis
    unfolding Let_def by (simp only: numeral_2_eq_2 One_nat_def) blast
qed

text \<open>
  C22. The ring keeps nothing longer than needed: after any sequence of calls, a slot of the window
  holds the value sent there exactly while some receiver has yet to read it, and counts how many do.
\<close>
theorem broadcast_slot_lifetime:
  assumes "\<sigma> = snd (run_ops b_exec ops (b_init (Suc k)))"
    "length (sent \<sigma>) - Suc k \<le> q" "q < length (sent \<sigma>)"
  shows "let slot = ring (chan \<sigma>) ! (q mod Suc k); readers = {r\<in>rxs \<sigma>. cursor (chan \<sigma>) r \<le> q} in
    sl_remaining slot = card readers
    \<and> sl_value slot = (if readers = {} then None else Some (sent \<sigma> ! q))"
proof -
  have inv: "b_inv \<sigma>" unfolding assms(1) by (rule br.run_inv)
  have cap: "capacity (chan \<sigma>) = Suc k"
    using br.run_abst [of ops k] bs_cap [of ops "bs_init (Suc k)"]
    by (simp add: assms(1) b_abs_def bs_init_def)
  have "finite {r\<in>rxs \<sigma>. cursor (chan \<sigma>) r \<le> q}" using b_inv_count [OF inv] by simp
  then show ?thesis using inv assms(2,3) b_inv_count [OF inv] cap
    by (auto simp: b_inv_def ring_ok_def oldest_eq slot_ok_def unread_def Let_def)
qed

theorem broadcast_slot_lifetime_witness:
  "let \<sigma> = snd (run_ops b_exec [BSubscribe 1, BSend 5, BTryRecv 0] (b_init (Suc 1))) in
    sl_value (ring (chan \<sigma>) ! 0) = Some (5 :: nat) \<and> sl_remaining (ring (chan \<sigma>) ! 0) = 1"
proof -
  define \<sigma> where s: "\<sigma> = snd (run_ops b_exec [BSubscribe 1, BSend (5 :: nat), BTryRecv 0] (b_init (Suc 1)))"
  have f: "sent \<sigma> = [5]" "cursor (chan \<sigma>) 0 = 1" "cursor (chan \<sigma>) 1 = 0" "rxs \<sigma> = {1, 0}"
    by (simp_all add: s b_demo_defs)
  have r: "{r \<in> {1, 0}. cursor (chan \<sigma>) r \<le> 0} = {1}" using f(2,3) by auto
  have "sl_value (ring (chan \<sigma>) ! 0) = Some 5 \<and> sl_remaining (ring (chan \<sigma>) ! 0) = 1"
    using broadcast_slot_lifetime [OF s, of 0] f(1) unfolding f(4) r by (simp add: Let_def)
  then show ?thesis unfolding s Let_def .
qed

end
