(* ===== verification/Async_Mutex.thy ===== *)
theory Async_Mutex
  imports Wakers
begin

text \<open>
  \<^verbatim>\<open>include/coro/sync/mutex.h\<close>: the task-suspending \<^verbatim>\<open>Mutex<T>\<close>, its \<^verbatim>\<open>LockFuture\<close> and its
  guard. The protected value is not modelled: nothing in the class depends on it. On hosted
  platforms the internal \<^verbatim>\<open>detail::Mutex\<close> is a \<^verbatim>\<open>std::mutex\<close> (\<open>real = True\<close>: locking it
  while this thread holds it never returns), on \<^verbatim>\<open>CORO_PICO\<close> its operations do nothing.
\<close>

section \<open>The mutex\<close>

record mutex =
  m_locked :: bool
  m_waiters :: "waker list"

definition mutex_new :: mutex where
  "mutex_new = \<lparr>m_locked = False, m_waiters = []\<rparr>"

text \<open>\<open>held\<close> tells whether the calling thread holds the internal lock.\<close>

definition release :: "bool \<Rightarrow> mutex \<Rightarrow> fault + waker list \<times> mutex" where
  "release held m =
     (if held then Inl Self_Deadlock
      else case m_waiters m of
        [] \<Rightarrow> Inr ([], m\<lparr>m_locked := False\<rparr>)
      | w # ws \<Rightarrow> Inr ([w], m\<lparr>m_waiters := ws\<rparr>))"

text \<open>
  A guard is its \<^verbatim>\<open>m_mutex\<close> pointer, null or not. Its move constructor is defaulted: it copies
  the pointer and leaves the source as it was.
\<close>

type_synonym guard = bool

definition guard_move :: "guard \<Rightarrow> guard \<times> guard" where
  "guard_move g = (g, g)"

definition guard_drop :: "bool \<Rightarrow> guard \<Rightarrow> mutex \<Rightarrow> fault + waker list \<times> mutex" where
  "guard_drop held g m = (if g then release held m else Inr ([], m))"

text \<open>
  \<^verbatim>\<open>return MutexGuard<T>(...)\<close> initialises the by-value parameter of \<^verbatim>\<open>PollResult(T value)\<close>,
  which moves it into the result; the parameter is destroyed before the \<^verbatim>\<open>lock_guard\<close> of
  \<^verbatim>\<open>poll\<close> unlocks.
\<close>

definition lock_poll :: "bool \<Rightarrow> waker \<Rightarrow> mutex \<Rightarrow> fault + guard poll_result \<times> waker list \<times> mutex" where
  "lock_poll real w m =
     (if \<not> m_locked m
      then (let m = m\<lparr>m_locked := True\<rparr>; (g, param) = guard_move True in
            case guard_drop real param m of
              Inl f \<Rightarrow> Inl f
            | Inr (ws, m) \<Rightarrow> Inr (PollReady g, ws, m))
      else Inr (PollPending, [], m\<lparr>m_waiters := m_waiters m @ [w]\<rparr>))"

section \<open>Properties\<close>


text \<open>
  With the no-op internal lock the same destructor unlocks the mutex again, so two tasks that
  poll one after the other both get a guard.
\<close>
theorem mutex_two_guards:
  "\<exists>m. lock_poll False w mutex_new = Inr (PollReady True, [], m)
    \<and> lock_poll False v m = Inr (PollReady True, [], m)"
  by (simp add: lock_poll_def mutex_new_def guard_move_def guard_drop_def release_def)





end
