(* ===== verification/Event.thy ===== *)
theory Event
  imports Wakers
begin

text \<open>
  \<^verbatim>\<open>include/coro/sync/event.h\<close>: the single-waiter event, its wait futures and their lifetimes,
  under every sequence of calls with one wait future at a time, which is the class's contract.
\<close>

section \<open>The event and its future\<close>

record event =
  m_set :: bool
  m_wait_future :: "node option"
  m_waker :: rc_waker

definition event_new :: event where
  "event_new = \<lparr>m_set = False, m_wait_future = None, m_waker = None\<rparr>"

definition event_set :: "event \<Rightarrow> waker list \<times> event" where
  "event_set e = (wake_opt (m_waker e), e\<lparr>m_set := True, m_waker := None\<rparr>)"

definition event_clear :: "event \<Rightarrow> event" where
  "event_clear e = e\<lparr>m_set := False\<rparr>"

definition is_set :: "event \<Rightarrow> bool" where
  "is_set e = m_set e"

definition wait_poll :: "node \<Rightarrow> waker \<Rightarrow> event \<Rightarrow> unit poll_result \<times> event" where
  "wait_poll n w e =
     (if m_set e then (PollReady (), e)
      else (PollPending, e\<lparr>m_wait_future := Some n, m_waker := Some w\<rparr>))"

definition clear_waker :: "event \<Rightarrow> event" where
  "clear_waker e = e\<lparr>m_wait_future := None, m_waker := None\<rparr>"

text \<open>
  The destructor clears the registered future's pointer to the event, the returned node, and wakes
  the waker it took without testing it.
\<close>

definition event_destroy :: "event \<Rightarrow> fault + waker list \<times> node option" where
  "event_destroy e =
     (case m_wait_future e of
        None \<Rightarrow> Inr ([], None)
      | Some n \<Rightarrow> (case m_waker e of
            None \<Rightarrow> Inl Null_Deref
          | Some w \<Rightarrow> Inr ([w], Some n)))"

section \<open>Sequences of calls\<close>

datatype e_op = EWait node | EPoll waker | EDrop | ESet | EClear | EDestroy

datatype e_out = ESkip | EDone | EFault fault | EPolled "unit poll_result"

text \<open>
  \<open>ev\<close> is the event while it lives; \<open>fut\<close> the wait future, if there is one, and whether its pointer
  to the event is set. A null pointer makes the poll ready; one to a destroyed event is used all
  the same. \<open>waiting\<close> holds the waker of a future that waits unwoken.
\<close>

record e_sys =
  ev :: "event option"
  fut :: "(node \<times> bool) option"
  waiting :: rc_waker

definition e_init :: e_sys where
  "e_init = \<lparr>ev = Some event_new, fut = None, waiting = None\<rparr>"

fun e_exec :: "e_op \<Rightarrow> e_sys \<Rightarrow> (e_out \<times> waker list) \<times> e_sys" where
  "e_exec (EWait n) s =
     (if ev s = None \<or> fut s \<noteq> None then ((ESkip, []), s) else ((EDone, []), s\<lparr>fut := Some (n, True)\<rparr>))"
| "e_exec (EPoll w) s =
     (case fut s of
        None \<Rightarrow> ((ESkip, []), s)
      | Some (n, False) \<Rightarrow> ((EPolled (PollReady ()), []), s\<lparr>waiting := None\<rparr>)
      | Some (n, True) \<Rightarrow> (case ev s of
            None \<Rightarrow> ((EFault Use_After_Free, []), s)
          | Some e \<Rightarrow> (let (r, e) = wait_poll n w e in
              ((EPolled r, []), s\<lparr>ev := Some e, waiting := (if isPending r then Some w else None)\<rparr>))))"
| "e_exec EDrop s =
     (case fut s of
        None \<Rightarrow> ((ESkip, []), s)
      | Some (n, False) \<Rightarrow> ((EDone, []), s\<lparr>fut := None, waiting := None\<rparr>)
      | Some (n, True) \<Rightarrow> (case ev s of
            None \<Rightarrow> ((EFault Use_After_Free, []), s)
          | Some e \<Rightarrow> ((EDone, []), s\<lparr>ev := Some (clear_waker e), fut := None, waiting := None\<rparr>)))"
| "e_exec ESet s =
     (case ev s of
        None \<Rightarrow> ((ESkip, []), s)
      | Some e \<Rightarrow> (let (ws, e) = event_set e in
          ((EDone, ws), s\<lparr>ev := Some e, waiting := unwoken ws (waiting s)\<rparr>)))"
| "e_exec EClear s =
     (case ev s of
        None \<Rightarrow> ((ESkip, []), s)
      | Some e \<Rightarrow> ((EDone, []), s\<lparr>ev := Some (event_clear e)\<rparr>))"
| "e_exec EDestroy s =
     (case ev s of
        None \<Rightarrow> ((ESkip, []), s)
      | Some e \<Rightarrow> (case event_destroy e of
            Inl f \<Rightarrow> ((EFault f, []), s\<lparr>ev := None, waiting := None\<rparr>)
          | Inr (ws, p) \<Rightarrow> ((EDone, ws), s\<lparr>ev := None, waiting := unwoken ws (waiting s),
              fut := (case (fut s, p) of (Some (n, _), Some m) \<Rightarrow> if n = m then Some (n, False) else fut s
                      | _ \<Rightarrow> fut s)\<rparr>)))"





section \<open>Properties\<close>



text \<open>
  Destroying an event after \<^verbatim>\<open>set()\<close> has woken its waiter, but before that waiter's future is
  gone, calls \<^verbatim>\<open>wake()\<close> through a null pointer: \<^verbatim>\<open>set()\<close> takes the waker and leaves the
  future registered.
\<close>
theorem event_destroy_after_set:
  "map fst (fst (run_ops e_exec [EWait n, EPoll w, ESet, EDestroy] e_init))
     = [EDone, EPolled PollPending, EDone, EFault Null_Deref]"
  by (simp add: e_init_def event_new_def wait_poll_def isPending_def event_set_def event_destroy_def)

end
