(* ===== verification/Barrier.thy ===== *)
theory Barrier
  imports Intrusive_List Wakers
begin

text \<open>
  \<^verbatim>\<open>include/coro/sync/barrier.h\<close>: the reusable barrier and its wait futures. The 64-bit generation
  is a natural number: a future would have to stay unpolled for $2^{64}$ rounds to see it wrap.
\<close>

section \<open>The barrier and its futures\<close>

datatype state = Init | Waiting | Done

record wait_future =
  m_state :: state
  m_leader :: bool
  f_generation :: nat

definition wait_new :: wait_future where
  "wait_new = \<lparr>m_state = Init, m_leader = False, f_generation = 0\<rparr>"

record barrier =
  m_n :: nat
  m_arrived :: nat
  m_generation :: nat
  m_waiters :: "node list"
  node_waker :: "node \<Rightarrow> rc_waker"

definition barrier_new :: "nat \<Rightarrow> barrier" where
  "barrier_new n = \<lparr>m_n = n, m_arrived = 0, m_generation = 0, m_waiters = [], node_waker = (\<lambda>_. None)\<rparr>"

definition kInlineWakers :: nat where
  "kInlineWakers = 16"

text \<open>
  The leader's loop moves the wakers of all nodes out of the list, in order; the wakes follow after
  the lock is released, through pointers it does not test.
\<close>

fun take_wakers :: "node list \<Rightarrow> (node \<Rightarrow> rc_waker) \<Rightarrow> rc_waker list \<times> (node \<Rightarrow> rc_waker)" where
  "take_wakers [] wk = ([], wk)"
| "take_wakers (n # ns) wk = (let (ws, wk') = take_wakers ns (wk(n := None)) in (wk n # ws, wk'))"

fun wake_each :: "rc_waker list \<Rightarrow> fault + waker list" where
  "wake_each [] = Inr []"
| "wake_each (None # _) = Inl Null_Deref"
| "wake_each (Some w # ws) = (case wake_each ws of Inl f \<Rightarrow> Inl f | Inr vs \<Rightarrow> Inr (w # vs))"

definition drop_wait :: "node \<Rightarrow> wait_future \<Rightarrow> barrier \<Rightarrow> barrier" where
  "drop_wait n f b =
     (if m_state f \<noteq> Waiting then b
      else if m_generation b = f_generation f then b\<lparr>m_waiters := remove1 n (m_waiters b)\<rparr>
      else b)"

text \<open>\<open>oom\<close> is the exception of a failing \<^verbatim>\<open>reserve\<close>, which is called only for many waiters.\<close>

definition wait_poll :: "exn option \<Rightarrow> node \<Rightarrow> waker \<Rightarrow> wait_future \<Rightarrow> barrier \<Rightarrow>
    fault + bool poll_result \<times> waker list \<times> wait_future \<times> barrier" where
  "wait_poll oom n w f b =
     (case m_state f of
        Done \<Rightarrow> Inr (PollReady (m_leader f), [], f, b)
      | Waiting \<Rightarrow>
          (if m_generation b \<noteq> f_generation f
           then Inr (PollReady False, [], f\<lparr>m_state := Done\<rparr>, b)
           else Inr (PollPending, [], f, b\<lparr>node_waker := (node_waker b)(n := Some w)\<rparr>))
      | Init \<Rightarrow>
          (if m_arrived b + 1 < m_n b
           then Inr (PollPending, [], f\<lparr>m_state := Waiting, f_generation := m_generation b\<rparr>,
                  b\<lparr>m_arrived := m_arrived b + 1, node_waker := (node_waker b)(n := Some w),
                    m_waiters := wl_push_back n (m_waiters b)\<rparr>)
           else (case (if length (m_waiters b) > kInlineWakers then oom else None) of
               Some e \<Rightarrow> Inr (PollError e, [], f, b)
             | None \<Rightarrow>
                 (let (rcs, wk) = take_wakers (m_waiters b) (node_waker b);
                      b = b\<lparr>m_arrived := 0, m_generation := m_generation b + 1, m_waiters := [], node_waker := wk\<rparr>
                  in case wake_each rcs of
                       Inl e \<Rightarrow> Inl e
                     | Inr ws \<Rightarrow> Inr (PollReady True, ws, f\<lparr>m_state := Done, m_leader := True\<rparr>, b)))))"

lemma wake_taken:
  "distinct ns \<Longrightarrow> (\<And>n. n \<in> set ns \<Longrightarrow> wk n \<noteq> None) \<Longrightarrow>
     wake_each (fst (take_wakers ns wk)) = Inr (map (\<lambda>n. the (wk n)) ns)"
proof (induction ns arbitrary: wk)
  case (Cons n ns)
  have "wake_each (fst (take_wakers ns (wk(n := None)))) = Inr (map (\<lambda>m. the ((wk(n := None)) m)) ns)"
    using Cons.prems by (intro Cons.IH) auto
  moreover have "map (\<lambda>m. the ((wk(n := None)) m)) ns = map (\<lambda>m. the (wk m)) ns" using Cons.prems(1) by auto
  ultimately show ?case using Cons.prems(2) [of n] by (auto split: prod.splits)
qed simp

section \<open>Sequences of calls\<close>

datatype r_op = RNew node | RPoll "exn option" node waker | RDrop node

datatype r_out = RSkip | RDone | RFault fault | RPolled "bool poll_result"

text \<open>\<open>arrivals\<close> and \<open>leaders\<close> count, per round, the arrivals made and the leaders named.\<close>

record r_sys =
  bar :: barrier
  futs :: "node \<Rightarrow> wait_future option"
  waiting :: "node \<Rightarrow> rc_waker"
  arrivals :: "nat \<Rightarrow> nat"
  leaders :: "nat \<Rightarrow> nat"

definition r_init :: "nat \<Rightarrow> r_sys" where
  "r_init n = \<lparr>bar = barrier_new n, futs = (\<lambda>_. None), waiting = (\<lambda>_. None),
     arrivals = (\<lambda>_. 0), leaders = (\<lambda>_. 0)\<rparr>"

definition bump :: "nat \<Rightarrow> bool \<Rightarrow> (nat \<Rightarrow> nat) \<Rightarrow> (nat \<Rightarrow> nat)" where
  "bump g p c = (if p then c(g := c g + 1) else c)"

fun r_exec :: "r_op \<Rightarrow> r_sys \<Rightarrow> (r_out \<times> waker list) \<times> r_sys" where
  "r_exec (RNew n) s =
     (if futs s n \<noteq> None then ((RSkip, []), s) else ((RDone, []), s\<lparr>futs := (futs s)(n := Some wait_new)\<rparr>))"
| "r_exec (RDrop n) s =
     (case futs s n of
        None \<Rightarrow> ((RSkip, []), s)
      | Some f \<Rightarrow> ((RDone, []), s\<lparr>bar := drop_wait n f (bar s), futs := (futs s)(n := None),
           waiting := (waiting s)(n := None)\<rparr>))"
| "r_exec (RPoll oom n w) s =
     (case futs s n of
        None \<Rightarrow> ((RSkip, []), s)
      | Some f \<Rightarrow> (case wait_poll oom n w f (bar s) of
            Inl e \<Rightarrow> ((RFault e, []), s)
          | Inr (r, ws, f', b) \<Rightarrow> ((RPolled r, ws),
              \<lparr>bar = b, futs = (futs s)(n := Some f'),
               waiting = (\<lambda>m. unwoken ws (if m = n then (if isPending r then Some w else None) else waiting s m)),
               arrivals = bump (m_generation (bar s)) (m_state f = Init \<and> \<not> isError r) (arrivals s),
               leaders = bump (m_generation (bar s)) (m_state f = Init \<and> isReady r) (leaders s)\<rparr>)))"

text \<open>
  Exactly the waiting futures of the current round are linked, with their wakers; every earlier
  round had all its arrivals and one leader.
\<close>

definition r_inv :: "r_sys \<Rightarrow> bool" where
  "r_inv s \<longleftrightarrow> m_arrived (bar s) < m_n (bar s) \<and> distinct (m_waiters (bar s))
     \<and> (\<forall>n. n \<in> set (m_waiters (bar s)) \<longleftrightarrow>
          (\<exists>f. futs s n = Some f \<and> m_state f = Waiting \<and> f_generation f = m_generation (bar s)))
     \<and> (\<forall>n\<in>set (m_waiters (bar s)). node_waker (bar s) n \<noteq> None)
     \<and> (\<forall>n f. futs s n = Some f \<and> m_state f = Waiting \<longrightarrow> f_generation f \<le> m_generation (bar s))
     \<and> (\<forall>n w. waiting s n = Some w \<longrightarrow> n \<in> set (m_waiters (bar s)) \<and> node_waker (bar s) n = Some w)
     \<and> (\<forall>g. arrivals s g = (if g < m_generation (bar s) then m_n (bar s)
          else if g = m_generation (bar s) then m_arrived (bar s) else 0))
     \<and> (\<forall>g. leaders s g = (if g < m_generation (bar s) then 1 else 0))"

lemma r_inv_new: "r_inv s \<Longrightarrow> r_inv (snd (r_exec (RNew n) s))"
  by (auto simp: r_inv_def wait_new_def)

lemma r_inv_drop:
  assumes inv: "r_inv s"
  shows "r_inv (snd (r_exec (RDrop n) s))"
proof (cases "futs s n")
  case (Some f)
  show ?thesis
  proof (cases "m_state f = Waiting \<and> f_generation f = m_generation (bar s)")
    case True
    then show ?thesis using inv Some by (auto simp: r_inv_def drop_wait_def)
  next
    case False
    then have "n \<notin> set (m_waiters (bar s))" using inv Some by (auto simp: r_inv_def)
    moreover have "drop_wait n f (bar s) = bar s" using False by (auto simp: drop_wait_def)
    ultimately show ?thesis using inv Some by (auto simp: r_inv_def)
  qed
qed (use inv in simp)

text \<open>The last arrival: every linked waker is woken and the round is closed.\<close>

lemma wait_poll_leader:
  assumes inv: "r_inv s" and f: "futs s n = Some f" "m_state f = Init" "m_n (bar s) \<le> m_arrived (bar s) + 1"
    and oom: "length (m_waiters (bar s)) \<le> kInlineWakers \<or> oom = None"
  shows "\<exists>wk. wait_poll oom n w f (bar s) = Inr (PollReady True,
      map (\<lambda>m. the (node_waker (bar s) m)) (m_waiters (bar s)), f\<lparr>m_state := Done, m_leader := True\<rparr>,
      (bar s)\<lparr>m_arrived := 0, m_generation := m_generation (bar s) + 1, m_waiters := [], node_waker := wk\<rparr>)"
proof -
  obtain rcs wk where t: "take_wakers (m_waiters (bar s)) (node_waker (bar s)) = (rcs, wk)" by force
  have "wake_each rcs = Inr (map (\<lambda>m. the (node_waker (bar s) m)) (m_waiters (bar s)))"
    using wake_taken [of "m_waiters (bar s)" "node_waker (bar s)"] inv t by (auto simp: r_inv_def)
  moreover have "(if length (m_waiters (bar s)) > kInlineWakers then oom else None) = None" using oom by auto
  ultimately show ?thesis using f(2,3) t by (intro exI [of _ wk]) (simp add: wait_poll_def)
qed

lemma waiting_woken:
  assumes "r_inv s" "ws = map (\<lambda>m. the (node_waker (bar s) m)) (m_waiters (bar s))"
  shows "unwoken ws (waiting s m) = None"
proof (cases "waiting s m")
  case (Some w)
  with assms(1) have "m \<in> set (m_waiters (bar s))" "node_waker (bar s) m = Some w"
    by (auto simp: r_inv_def)
  then have "w \<in> set ws" unfolding assms(2) by force
  with Some show ?thesis by (simp add: unwoken_def)
qed simp

lemma r_inv_leader:
  assumes inv: "r_inv s" and f: "futs s n = Some f" "m_state f = Init" "m_n (bar s) \<le> m_arrived (bar s) + 1"
    and oom: "length (m_waiters (bar s)) \<le> kInlineWakers \<or> oom = None"
  shows "r_inv (snd (r_exec (RPoll oom n w) s))"
proof -
  let ?ws = "map (\<lambda>m. the (node_waker (bar s) m)) (m_waiters (bar s))"
  obtain wk where p: "wait_poll oom n w f (bar s) = Inr (PollReady True, ?ws, f\<lparr>m_state := Done, m_leader := True\<rparr>,
      (bar s)\<lparr>m_arrived := 0, m_generation := m_generation (bar s) + 1, m_waiters := [], node_waker := wk\<rparr>)"
    using wait_poll_leader [OF inv f oom] by blast
  have w: "unwoken ?ws (waiting s m) = None" for m by (rule waiting_woken [OF inv refl])
  have n: "0 < m_n (bar s)" "m_n (bar s) = m_arrived (bar s) + 1" using inv f(3) by (auto simp: r_inv_def)
  have g: "f_generation h \<noteq> Suc (m_generation (bar s))" "f_generation h \<le> Suc (m_generation (bar s))"
    if "futs s m = Some h" "m_state h = Waiting" for m h
    using inv that by (fastforce simp: r_inv_def)+
  show ?thesis using inv f(1,2) n w g
    by (auto simp: r_inv_def p bump_def isError_def isReady_def isPending_def less_Suc_eq)
qed

lemma r_inv_poll:
  assumes inv: "r_inv s"
  shows "r_inv (snd (r_exec (RPoll oom n w) s))"
proof (cases "futs s n")
  case (Some f)
  consider "m_state f = Done" | "m_state f = Waiting" "m_generation (bar s) \<noteq> f_generation f"
    | "m_state f = Waiting" "m_generation (bar s) = f_generation f"
    | "m_state f = Init" "m_arrived (bar s) + 1 < m_n (bar s)"
    | e where "m_state f = Init" "m_n (bar s) \<le> m_arrived (bar s) + 1" "length (m_waiters (bar s)) > kInlineWakers" "oom = Some e"
    | "m_state f = Init" "m_n (bar s) \<le> m_arrived (bar s) + 1" "length (m_waiters (bar s)) \<le> kInlineWakers \<or> oom = None"
    by (cases "m_state f"; cases oom) (use linorder_not_le in blast)+
  then show ?thesis
  proof cases
    case 6
    then show ?thesis by (intro r_inv_leader [OF inv Some])
  next
    case 4
    then have "n \<notin> set (m_waiters (bar s))" using inv Some by (auto simp: r_inv_def)
    with 4 show ?thesis using inv Some
      by (auto simp: r_inv_def wait_poll_def bump_def isError_def isReady_def isPending_def wl_push_back_def)
  next
    case 3
    then show ?thesis using inv Some
      by (auto simp: r_inv_def wait_poll_def bump_def isPending_def)
  qed (use inv Some in \<open>auto simp: r_inv_def wait_poll_def bump_def isPending_def isError_def isReady_def split: if_splits\<close>)
qed (use inv in simp)

lemma r_exec_inv: "r_inv s \<Longrightarrow> r_inv (snd (r_exec op s))"
  by (cases op) (simp_all only: r_inv_new r_inv_drop r_inv_poll)

lemma r_init_inv: "r_inv (r_init (Suc k))"
  by (simp add: r_init_def barrier_new_def r_inv_def)

interpretation bar: op_system "r_init (Suc k)" r_exec r_inv for k
  by unfold_locales (simp_all only: r_init_inv r_exec_inv)

lemma r_exec_size: "m_n (bar (snd (r_exec op s))) = m_n (bar s)"
  by (cases op) (auto simp: wait_poll_def drop_wait_def Let_def split: option.splits sum.splits state.splits prod.splits if_splits)

lemma run_size: "m_n (bar (snd (run_ops r_exec ops s))) = m_n (bar s)"
proof (induction ops arbitrary: s)
  case (Cons op ops)
  from Cons.IH [of "snd (r_exec op s)"] show ?case
    by (simp add: r_exec_size Let_def split: prod.splits) (metis snd_conv)
qed simp

section \<open>Properties\<close>

text \<open>
  C32. The barrier separates rounds: after any sequence of calls, a poll that resolves a future does
  so only when all \<open>n\<close> arrivals of that future's round have been made, and exactly one of them, the
  one that resolves at its arrival, is told that it leads.
\<close>
theorem barrier_round_complete:
  assumes "s = snd (run_ops r_exec ops (r_init (Suc k)))" "futs s n = Some f" "m_state f \<noteq> Done"
    "r_exec (RPoll oom n w) s = ((RPolled (PollReady l), ws), t)"
  shows "let g = (if m_state f = Init then m_generation (bar s) else f_generation f) in
    arrivals t g = Suc k \<and> leaders t g = 1 \<and> l = (m_state f = Init)"
proof -
  have inv: "r_inv s" unfolding assms(1) by (rule bar.run_inv)
  have size: "m_n (bar s) = Suc k" unfolding assms(1) run_size by (simp add: r_init_def barrier_new_def)
  show ?thesis
  proof (cases "m_state f")
    case Waiting
    with assms(2,4) have "f_generation f < m_generation (bar s)" "l = False"
      and t: "arrivals t = arrivals s" "leaders t = leaders s"
      using inv by (fastforce simp: r_inv_def wait_poll_def bump_def split: if_splits)+
    with inv size Waiting show ?thesis by (simp add: r_inv_def)
  next
    case Init
    then have "\<not> m_arrived (bar s) + 1 < m_n (bar s)" "l = True"
      "arrivals t = (arrivals s)(m_generation (bar s) := arrivals s (m_generation (bar s)) + 1)"
      "leaders t = (leaders s)(m_generation (bar s) := leaders s (m_generation (bar s)) + 1)"
      using assms(2,4) by (auto simp: wait_poll_def bump_def isError_def isReady_def Let_def
          split: if_splits option.splits sum.splits prod.splits)
    with inv size Init show ?thesis by (auto simp: r_inv_def)
  qed (use assms(3) in simp)
qed

lemmas r_demo_defs = r_init_def barrier_new_def wait_new_def wait_poll_def wl_push_back_def isPending_def isError_def
  isReady_def bump_def kInlineWakers_def Let_def

theorem barrier_round_complete_witness:
  "let s = snd (run_ops r_exec [RNew 1, RNew 2, RPoll None 1 8] (r_init (Suc 1)));
       t = snd (r_exec (RPoll None 2 9) s) in
    fst (fst (r_exec (RPoll None 2 9) s)) = RPolled (PollReady True) \<and> arrivals t 0 = 2 \<and> leaders t 0 = 1"
proof -
  define s where s: "s = snd (run_ops r_exec [RNew 1, RNew 2, RPoll None 1 8] (r_init (Suc 1)))"
  obtain o' ws t where e: "r_exec (RPoll None 2 9) s = ((o', ws), t)" by (metis surj_pair)
  have f: "futs s 2 = Some wait_new" "m_generation (bar s) = 0" "o' = RPolled (PollReady True)"
    using e by (simp_all add: s r_demo_defs)
  with barrier_round_complete [OF s f(1), of None 9 True ws t] e show ?thesis
    unfolding s [symmetric] by (simp add: wait_new_def)
qed

text \<open>
  C33. No wake is lost: after any sequence of calls, a future that waits unwoken is linked in a round
  that still lacks an arrival, and the poll that makes the last arrival, unless it fails to allocate,
  wakes it.
\<close>
theorem barrier_no_lost_wake:
  assumes "s = snd (run_ops r_exec ops (r_init (Suc k)))" "waiting s n = Some w"
  shows "n \<in> set (m_waiters (bar s)) \<and> arrivals s (m_generation (bar s)) < Suc k
    \<and> (\<forall>m v. futs s m = Some wait_new \<longrightarrow> arrivals s (m_generation (bar s)) = k \<longrightarrow>
        w \<in> set (snd (fst (r_exec (RPoll None m v) s))))"
proof -
  have inv: "r_inv s" unfolding assms(1) by (rule bar.run_inv)
  have size: "m_n (bar s) = Suc k" unfolding assms(1) run_size by (simp add: r_init_def barrier_new_def)
  have n: "n \<in> set (m_waiters (bar s))" "node_waker (bar s) n = Some w"
    and a: "arrivals s (m_generation (bar s)) = m_arrived (bar s)" "m_arrived (bar s) < Suc k"
    using inv assms(2) size by (auto simp: r_inv_def)
  have "w \<in> set (snd (fst (r_exec (RPoll None m v) s)))"
    if m: "futs s m = Some wait_new" "arrivals s (m_generation (bar s)) = k" for m v
  proof -
    obtain b' where "wait_poll None m v wait_new (bar s) = Inr (PollReady True,
        map (\<lambda>m. the (node_waker (bar s) m)) (m_waiters (bar s)), wait_new\<lparr>m_state := Done, m_leader := True\<rparr>, b')"
      using wait_poll_leader [OF inv m(1), of None v] m a size by (auto simp: wait_new_def)
    with m(1) n show ?thesis by force
  qed
  with n a show ?thesis by auto
qed

theorem barrier_no_lost_wake_witness:
  "let s = snd (run_ops r_exec [RNew 1, RNew 2, RPoll None 1 8] (r_init (Suc 1))) in
    waiting s 1 = Some 8 \<and> 8 \<in> set (snd (fst (r_exec (RPoll None 2 9) s)))"
proof -
  define s where s: "s = snd (run_ops r_exec [RNew 1, RNew 2, RPoll None 1 8] (r_init (Suc 1)))"
  have "waiting s 1 = Some 8" "futs s 2 = Some wait_new" "arrivals s (m_generation (bar s)) = 1"
    by (simp_all add: s r_demo_defs)
  with barrier_no_lost_wake [OF s, of 1 8] show ?thesis unfolding s [symmetric] Let_def by blast
qed

end
