(* ===== verification/Binary_Heap.thy ===== *)
theory Binary_Heap
  imports Main "HOL-Library.Multiset"
begin

text \<open>
  The heap algorithms of the C++ standard library, \<^verbatim>\<open>std::push_heap\<close>, \<^verbatim>\<open>std::pop_heap\<close> and
  \<^verbatim>\<open>std::make_heap\<close>, on an array kept as a list, in the way the common implementation writes
  them: a hole that moves up to its place, or down to a leaf and then up. The comparison the timer
  queue passes puts the least key first, so the heap here is a min-heap for a key \<open>f\<close>.
\<close>

section \<open>The algorithms\<close>

abbreviation parent :: "nat \<Rightarrow> nat" where
  "parent i \<equiv> (i - 1) div 2"

text \<open>Moving the hole \<open>i\<close> up to the place of \<open>v\<close>, but not above \<open>t\<close>.\<close>

function sift_up :: "('a \<Rightarrow> 'k::linorder) \<Rightarrow> nat \<Rightarrow> 'a list \<Rightarrow> nat \<Rightarrow> 'a \<Rightarrow> 'a list" where
  "sift_up f t h i v =
     (if t < i \<and> f v < f (h ! parent i)
      then sift_up f t (h[i := h ! parent i]) (parent i) v
      else h[i := v])"
  by pat_completeness auto
termination
  by (relation "measure (\<lambda>(f, t, h, i, v). i)") auto

declare sift_up.simps [simp del]

text \<open>Moving the hole down to a leaf, along the lesser children.\<close>

function sift_down :: "('a \<Rightarrow> 'k::linorder) \<Rightarrow> 'a list \<Rightarrow> nat \<Rightarrow> 'a list \<times> nat" where
  "sift_down f h i =
     (if 2 * i + 2 < length h
      then (let c = (if f (h ! (2 * i + 1)) < f (h ! (2 * i + 2)) then 2 * i + 1 else 2 * i + 2)
            in sift_down f (h[i := h ! c]) c)
      else if 2 * i + 1 < length h then (h[i := h ! (2 * i + 1)], 2 * i + 1)
      else (h, i))"
  by pat_completeness auto
termination
  by (relation "measure (\<lambda>(f, h, i). length h - i)") (auto simp: Let_def split: if_splits)

declare sift_down.simps [simp del]

definition adjust_heap :: "('a \<Rightarrow> 'k::linorder) \<Rightarrow> nat \<Rightarrow> 'a \<Rightarrow> 'a list \<Rightarrow> 'a list" where
  "adjust_heap f t v h = (let (h, i) = sift_down f h t in sift_up f t h i v)"

definition push_heap :: "('a \<Rightarrow> 'k::linorder) \<Rightarrow> 'a list \<Rightarrow> 'a list" where
  "push_heap f h = sift_up f 0 h (length h - 1) (last h)"

text \<open>The front element is moved to the back and the rest is a heap again.\<close>

definition pop_heap :: "('a \<Rightarrow> 'k::linorder) \<Rightarrow> 'a list \<Rightarrow> 'a list" where
  "pop_heap f h =
     (if length h \<le> 1 then h else adjust_heap f 0 (last h) (butlast h) @ [hd h])"

primrec heapify :: "('a \<Rightarrow> 'k::linorder) \<Rightarrow> nat \<Rightarrow> 'a list \<Rightarrow> 'a list" where
  "heapify f 0 h = h"
| "heapify f (Suc i) h = heapify f i (adjust_heap f i (h ! i) h)"

definition make_heap :: "('a \<Rightarrow> 'k::linorder) \<Rightarrow> 'a list \<Rightarrow> 'a list" where
  "make_heap f h = heapify f (length h div 2) h"

section \<open>The heap property\<close>

text \<open>
  The property for the part of the array at and below \<open>t\<close>, and the same with a hole at \<open>i\<close>: what
  is left of it when nothing is known of the element there.
\<close>

definition heap_from :: "('a \<Rightarrow> 'k::linorder) \<Rightarrow> nat \<Rightarrow> 'a list \<Rightarrow> bool" where
  "heap_from f t h \<longleftrightarrow> (\<forall>j<length h. 0 < j \<and> t \<le> parent j \<longrightarrow> f (h ! parent j) \<le> f (h ! j))"

abbreviation is_heap :: "('a \<Rightarrow> 'k::linorder) \<Rightarrow> 'a list \<Rightarrow> bool" where
  "is_heap f h \<equiv> heap_from f 0 h"

definition heap_hole :: "('a \<Rightarrow> 'k::linorder) \<Rightarrow> nat \<Rightarrow> 'a list \<Rightarrow> nat \<Rightarrow> bool" where
  "heap_hole f t h i \<longleftrightarrow>
     (\<forall>j<length h. 0 < j \<and> t \<le> parent j \<and> j \<noteq> i \<and> parent j \<noteq> i \<longrightarrow> f (h ! parent j) \<le> f (h ! j))
   \<and> (\<forall>j<length h. 0 < j \<and> parent j = i \<and> t < i \<longrightarrow> f (h ! parent i) \<le> f (h ! j))"

inductive under :: "nat \<Rightarrow> nat \<Rightarrow> bool" for t where
  under_top: "under t t"
| under_child: "under t (parent i) \<Longrightarrow> 0 < i \<Longrightarrow> under t i"

inductive_cases underE: "under t i"

lemma under_le: "under t i \<Longrightarrow> t \<le> i"
  by (induction rule: under.induct) auto

lemma under_parent: "under t i \<Longrightarrow> t < i \<Longrightarrow> under t (parent i) \<and> t \<le> parent i"
  by (erule underE) (auto dest: under_le)

lemma heap_front_le:
  assumes "is_heap f h" "j < length h"
  shows "f (h ! 0) \<le> f (h ! j)"
  using assms(2)
proof (induction j rule: less_induct)
  case (less j)
  show ?case
  proof (cases "j = 0")
    case False
    then have "f (h ! 0) \<le> f (h ! parent j)" using less by (intro less.IH) auto
    also have "\<dots> \<le> f (h ! j)" using assms(1) less.prems False by (simp add: heap_from_def)
    finally show ?thesis .
  qed simp
qed

lemma sift_up_heap:
  assumes "heap_hole f t h i" "under t i" "i < length h"
    "\<And>j. j < length h \<Longrightarrow> 0 < j \<Longrightarrow> parent j = i \<Longrightarrow> f v \<le> f (h ! j)"
  shows "heap_from f t (sift_up f t h i v)"
  using assms
proof (induction f t h i v rule: sift_up.induct)
  case (1 f t h i v)
  let ?p = "parent i"
  show ?case
  proof (cases "t < i \<and> f v < f (h ! ?p)")
    case True
    have u: "under t ?p" "t \<le> ?p" using under_parent [OF "1.prems"(2)] True by auto
    have pi: "?p < i" using True by auto
    have nb: "f (h ! parent j) \<le> f (h ! j)"
      if "j < length h" "0 < j" "t \<le> parent j" "j \<noteq> i" "parent j \<noteq> i" for j
      using "1.prems"(1) that by (simp add: heap_hole_def)
    have ch: "f (h ! ?p) \<le> f (h ! j)" if "j < length h" "0 < j" "parent j = i" for j
      using "1.prems"(1) that True by (simp add: heap_hole_def)
    have up: "f (h ! parent ?p) \<le> f (h ! ?p)" if "t < ?p"
      using nb [of ?p] that under_parent [OF u(1) that] "1.prems"(3) pi by auto
    have sib: "f (h ! ?p) \<le> f (h ! j)" if "j < length h" "0 < j" "parent j = ?p" "j \<noteq> i" for j
      using nb [of j] that u(2) pi by auto
    have "heap_hole f t (h[i := h ! ?p]) ?p"
      unfolding heap_hole_def
    proof (intro conjI allI impI)
      fix j assume j: "j < length (h[i := h ! ?p])" "0 < j \<and> t \<le> parent j \<and> j \<noteq> ?p \<and> parent j \<noteq> ?p"
      then have "j \<noteq> i" by auto
      with j nb [of j] ch [of j] "1.prems"(3) show "f (h[i := h ! ?p] ! parent j) \<le> f (h[i := h ! ?p] ! j)"
        by (auto simp: nth_list_update)
    next
      fix j assume j: "j < length (h[i := h ! ?p])" "0 < j \<and> parent j = ?p \<and> t < ?p"
      have "parent ?p \<noteq> i" using pi by auto
      with j up sib [of j] "1.prems"(3) show "f (h[i := h ! ?p] ! parent ?p) \<le> f (h[i := h ! ?p] ! j)"
        by (cases "j = i") (auto simp: nth_list_update intro: order_trans)
    qed
    moreover have "f v \<le> f (h[i := h ! ?p] ! j)" if "j < length h" "0 < j" "parent j = ?p" for j
      using that True sib [of j] "1.prems"(3) by (cases "j = i") (auto simp: nth_list_update)
    ultimately have "heap_from f t (sift_up f t (h[i := h ! ?p]) ?p v)"
      using "1.prems"(3) pi u by (intro "1.IH" [OF True]) auto
    with True show ?thesis by (subst sift_up.simps) simp
  next
    case False
    have "f (h[i := v] ! parent j) \<le> f (h[i := v] ! j)"
      if j: "j < length h" "0 < j" "t \<le> parent j" for j
    proof (cases "j = i")
      case True
      then have "t < i" using j by auto
      with False True have "f (h ! parent i) \<le> f v" by auto
      moreover have "parent i \<noteq> i" using True j by auto
      ultimately show ?thesis using True "1.prems"(3) by simp
    next
      case ne: False
      show ?thesis
      proof (cases "parent j = i")
        case True
        with ne "1.prems"(3) "1.prems"(4) [OF j(1,2) True] show ?thesis by simp
      next
        case False
        with ne j "1.prems"(1) show ?thesis by (simp add: heap_hole_def)
      qed
    qed
    with False show ?thesis by (subst sift_up.simps) (auto simp: heap_from_def)
  qed
qed

lemma child_cases: "0 < j \<Longrightarrow> parent j = i \<Longrightarrow> j = 2 * i + 1 \<or> j = 2 * i + 2"
  by arith

lemma hole_down:
  assumes h: "heap_hole f t h i" "under t i" "c < length h" "0 < c" "parent c = i"
    and least: "\<And>j. j < length h \<Longrightarrow> 0 < j \<Longrightarrow> parent j = i \<Longrightarrow> f (h ! c) \<le> f (h ! j)"
  shows "heap_hole f t (h[i := h ! c]) c \<and> under t c"
proof
  show "under t c" using h(2,4,5) under_child [of t c] by simp
  have ic: "i < c" using h(4,5) by auto
  have ti: "t \<le> i" using h(2) by (rule under_le)
  have nb: "f (h ! parent j) \<le> f (h ! j)"
    if "j < length h" "0 < j" "t \<le> parent j" "j \<noteq> i" "parent j \<noteq> i" for j
    using h(1) that by (simp add: heap_hole_def)
  show "heap_hole f t (h[i := h ! c]) c"
    unfolding heap_hole_def
  proof (intro conjI allI impI)
    fix j assume j: "j < length (h[i := h ! c])" "0 < j \<and> t \<le> parent j \<and> j \<noteq> c \<and> parent j \<noteq> c"
    show "f (h[i := h ! c] ! parent j) \<le> f (h[i := h ! c] ! j)"
    proof (cases "j = i")
      case True
      then have "t < i" "parent i \<noteq> i" using j by auto
      with True h(1,3-5) show ?thesis using ic by (auto simp: heap_hole_def)
    next
      case False
      with j nb [of j] least [of j] ic h(3) show ?thesis by (cases "parent j = i") auto
    qed
  next
    fix j assume j: "j < length (h[i := h ! c])" "0 < j \<and> parent j = c \<and> t < c"
    then have "j \<noteq> i" "t \<le> parent j" using ic ti by auto
    then show "f (h[i := h ! c] ! parent c) \<le> f (h[i := h ! c] ! j)"
      using nb [of j] j h(3,5) ic by auto
  qed
qed

lemma sift_down_hole:
  assumes "heap_hole f t h i" "under t i" "i < length h" "sift_down f h i = (h', i')"
  shows "heap_hole f t h' i' \<and> under t i' \<and> i' < length h' \<and> length h' = length h \<and> length h' \<le> 2 * i' + 1"
  using assms
proof (induction f h i rule: sift_down.induct)
  case (1 f h i)
  show ?case
  proof (cases "2 * i + 2 < length h")
    case True
    define c where "c = (if f (h ! (2 * i + 1)) < f (h ! (2 * i + 2)) then 2 * i + 1 else 2 * i + 2)"
    have c: "c < length h" "0 < c" "parent c = i" using True by (auto simp: c_def)
    have "f (h ! c) \<le> f (h ! j)" if "0 < j" "parent j = i" for j
      using child_cases [OF that] by (auto simp: c_def)
    then have "heap_hole f t (h[i := h ! c]) c \<and> under t c"
      using hole_down [OF "1.prems"(1,2) c] by blast
    moreover have "sift_down f (h[i := h ! c]) c = (h', i')"
      using "1.prems"(4) True by (subst (asm) sift_down.simps) (simp add: c_def Let_def)
    ultimately show ?thesis using "1.IH"(1) [OF True c_def] c by simp
  next
    case False
    show ?thesis
    proof (cases "2 * i + 1 < length h")
      case True
      have p: "0 < 2 * i + 1" "parent (2 * i + 1) = i" by simp_all
      have "f (h ! (2 * i + 1)) \<le> f (h ! j)" if j: "j < length h" "0 < j" "parent j = i" for j
      proof -
        from child_cases [OF j(2,3)] j(1) False have "j = 2 * i + 1" by linarith
        then show ?thesis by (simp only: order_refl)
      qed
      then have "heap_hole f t (h[i := h ! (2 * i + 1)]) (2 * i + 1) \<and> under t (2 * i + 1)"
        by (rule hole_down [OF "1.prems"(1,2) True p])
      moreover have "sift_down f h i = (h[i := h ! (2 * i + 1)], 2 * i + 1)"
        using False True by (subst sift_down.simps) simp
      then have "h' = h[i := h ! (2 * i + 1)]" "i' = 2 * i + 1" using "1.prems"(4) by simp_all
      ultimately show ?thesis using True False by simp
    next
      case no: False
      then have "sift_down f h i = (h, i)" using False by (subst sift_down.simps) simp
      then have "h' = h" "i' = i" using "1.prems"(4) by simp_all
      with "1.prems" no show ?thesis by simp
    qed
  qed
qed

lemma sift_up_length: "length (sift_up f t h i v) = length h"
  by (induction f t h i v rule: sift_up.induct) (subst sift_up.simps; simp)

lemma adjust_heap_heap:
  assumes "heap_hole f t h t" "t < length h"
  shows "heap_from f t (adjust_heap f t v h)" "length (adjust_heap f t v h) = length h"
proof -
  obtain h' i where s: "sift_down f h t = (h', i)" by force
  have *: "heap_hole f t h' i" "under t i" "i < length h'" "length h' = length h" "length h' \<le> 2 * i + 1"
    using sift_down_hole [OF assms(1) under_top assms(2) s] by auto
  show "heap_from f t (adjust_heap f t v h)" unfolding adjust_heap_def s Let_def
  proof (simp, rule sift_up_heap [OF *(1-3)])
    fix j assume "j < length h'" "0 < j" "parent j = i"
    with child_cases [of j i] *(5) show "f v \<le> f (h' ! j)" by linarith
  qed
  show "length (adjust_heap f t v h) = length h"
    by (simp add: adjust_heap_def s sift_up_length *(4))
qed

section \<open>The contents\<close>

lemma mset_move:
  assumes "i < length h" "j < length h" "i \<noteq> j"
  shows "mset (h[i := h ! j, j := v]) = mset (h[i := v])"
proof -
  let ?l = "h[i := v]"
  have "h[i := h ! j, j := v] = ?l[j := ?l ! i, i := ?l ! j]"
    using assms by (intro nth_equalityI) (auto simp: nth_list_update)
  then show ?thesis using assms mset_swap [of j ?l i] by simp
qed

lemma sift_up_mset: "i < length h \<Longrightarrow> mset (sift_up f t h i v) = mset (h[i := v])"
proof (induction f t h i v rule: sift_up.induct)
  case (1 f t h i v)
  show ?case
  proof (cases "t < i \<and> f v < f (h ! parent i)")
    case True
    then have "parent i < i" by auto
    with "1.IH" [OF True] "1.prems" True show ?thesis by (subst sift_up.simps) (simp add: mset_move)
  next
    case False
    then show ?thesis by (subst sift_up.simps) auto
  qed
qed

lemma sift_down_length:
  "i < length h \<Longrightarrow> sift_down f h i = (h', i') \<Longrightarrow> length h' = length h \<and> i' < length h"
proof (induction f h i rule: sift_down.induct)
  case (1 f h i)
  show ?case
  proof (cases "2 * i + 2 < length h")
    case True
    define c where "c = (if f (h ! (2 * i + 1)) < f (h ! (2 * i + 2)) then 2 * i + 1 else 2 * i + 2)"
    have "sift_down f (h[i := h ! c]) c = (h', i')"
      using "1.prems"(2) True by (subst (asm) sift_down.simps) (simp add: c_def Let_def)
    with "1.IH" [OF True c_def] "1.prems"(1) True show ?thesis by (auto simp: c_def)
  next
    case False
    with "1.prems" show ?thesis by (subst (asm) sift_down.simps) (auto split: if_splits)
  qed
qed

lemma sift_down_mset:
  "i < length h \<Longrightarrow> sift_down f h i = (h', i') \<Longrightarrow> mset (h'[i' := v]) = mset (h[i := v])"
proof (induction f h i rule: sift_down.induct)
  case (1 f h i)
  show ?case
  proof (cases "2 * i + 2 < length h")
    case True
    define c where "c = (if f (h ! (2 * i + 1)) < f (h ! (2 * i + 2)) then 2 * i + 1 else 2 * i + 2)"
    have "sift_down f (h[i := h ! c]) c = (h', i')"
      using "1.prems"(2) True by (subst (asm) sift_down.simps) (simp add: c_def Let_def)
    with "1.IH" [OF True c_def] "1.prems"(1) True show ?thesis by (auto simp: c_def mset_move)
  next
    case False
    with "1.prems" show ?thesis by (subst (asm) sift_down.simps) (auto simp: mset_move split: if_splits)
  qed
qed

lemma adjust_heap_mset:
  assumes "t < length h"
  shows "mset (adjust_heap f t v h) = mset (h[t := v])"
proof -
  obtain h' i where s: "sift_down f h t = (h', i)" by force
  have "i < length h'" using sift_down_length [OF assms s] by simp
  then have "mset (sift_up f t h' i v) = mset (h[t := v])"
    using sift_down_mset [OF assms s, of v] by (simp add: sift_up_mset)
  then show ?thesis by (simp add: adjust_heap_def s)
qed

section \<open>What the algorithms promise\<close>

lemma heap_hole_any: "heap_from f (Suc t) h \<Longrightarrow> heap_hole f t h t"
  by (auto simp: heap_from_def heap_hole_def)

lemma push_heap_ok:
  assumes "is_heap f h"
  shows "is_heap f (push_heap f (h @ [x]))" "mset (push_heap f (h @ [x])) = add_mset x (mset h)"
proof -
  let ?n = "length h"
  have under: "under 0 j" for j
  proof (induction j rule: less_induct)
    case (less j)
    then show ?case by (cases "j = 0") (auto intro: under_top under_child)
  qed
  have up: "parent j < ?n" if "0 < j" "j \<le> ?n" for j using that by auto
  have "heap_hole f 0 (h @ [x]) ?n"
    unfolding heap_hole_def
  proof (intro conjI allI impI)
    fix j assume j: "j < length (h @ [x])" "0 < j \<and> 0 \<le> parent j \<and> j \<noteq> ?n \<and> parent j \<noteq> ?n"
    with up [of j] assms show "f ((h @ [x]) ! parent j) \<le> f ((h @ [x]) ! j)"
      by (auto simp: heap_from_def nth_append)
  next
    fix j assume "j < length (h @ [x])" "0 < j \<and> parent j = ?n \<and> 0 < ?n"
    with up [of j] show "f ((h @ [x]) ! parent ?n) \<le> f ((h @ [x]) ! j)" by simp
  qed
  then have "is_heap f (sift_up f 0 (h @ [x]) ?n x)"
    by (rule sift_up_heap) (auto intro: under)
  then show "is_heap f (push_heap f (h @ [x]))" by (simp add: push_heap_def)
  show "mset (push_heap f (h @ [x])) = add_mset x (mset h)" by (simp add: push_heap_def sift_up_mset)
qed

lemma pop_heap_ok:
  assumes "is_heap f h" "h \<noteq> []"
  shows "last (pop_heap f h) = hd h" "pop_heap f h \<noteq> []" "is_heap f (butlast (pop_heap f h))"
    "mset (butlast (pop_heap f h)) = mset (tl h)"
proof -
  have "is_heap f (adjust_heap f 0 v (butlast h))" if "1 < length h" for v
    using assms(1) that by (intro adjust_heap_heap heap_hole_any) (auto simp: heap_from_def nth_butlast)
  then show "is_heap f (butlast (pop_heap f h))"
    by (cases "1 < length h") (auto simp: pop_heap_def heap_from_def)
  show "last (pop_heap f h) = hd h" "pop_heap f h \<noteq> []"
    using assms(2) by (cases h rule: list.exhaust; auto simp: pop_heap_def)+
  show "mset (butlast (pop_heap f h)) = mset (tl h)"
  proof (cases "1 < length h")
    case True
    then obtain x xs y where h: "h = x # xs @ [y]" by (cases h; cases "tl h" rule: rev_cases) auto
    then show ?thesis by (simp add: pop_heap_def adjust_heap_mset)
  next
    case False
    with assms(2) obtain x where "h = [x]" by (cases h; cases "tl h") auto
    then show ?thesis by (simp add: pop_heap_def)
  qed
qed

lemma heapify_ok:
  "i \<le> length h \<Longrightarrow> heap_from f i h \<Longrightarrow> is_heap f (heapify f i h) \<and> mset (heapify f i h) = mset h"
proof (induction i arbitrary: h)
  case (Suc i)
  have i: "i < length h" using Suc.prems(1) by simp
  have "heap_from f i (adjust_heap f i (h ! i) h)" "length (adjust_heap f i (h ! i) h) = length h"
    using adjust_heap_heap [OF heap_hole_any [OF Suc.prems(2)] i] by auto
  with Suc.IH [of "adjust_heap f i (h ! i) h"] i show ?case by (simp add: adjust_heap_mset)
qed simp

lemma make_heap_ok: "is_heap f (make_heap f h)" "mset (make_heap f h) = mset h"
proof -
  have "heap_from f (length h div 2) h" by (auto simp: heap_from_def)
  then show "is_heap f (make_heap f h)" "mset (make_heap f h) = mset h"
    using heapify_ok [of "length h div 2" h f] by (simp_all add: make_heap_def)
qed

lemma heap_hd_least: "is_heap f h \<Longrightarrow> x \<in> set h \<Longrightarrow> f (hd h) \<le> f x"
  using heap_front_le [of f h] by (auto simp: in_set_conv_nth hd_conv_nth length_greater_0_conv [symmetric]
    simp del: length_greater_0_conv)

lemma pop_heap_length: "length (pop_heap f h) = length h"
proof (cases "length h \<le> 1")
  case False
  obtain h' i where s: "sift_down f (butlast h) 0 = (h', i)" by force
  have "length h' = length (butlast h)" using sift_down_length [OF _ s] False by simp
  with False s show ?thesis by (simp add: pop_heap_def adjust_heap_def sift_up_length)
qed (simp add: pop_heap_def)

end
