(* ===== verification/Timer_Queue.thy ===== *)
theory Timer_Queue
  imports Wakers Binary_Heap "HOL-Library.Word" "HOL-Library.Product_Lexorder"
begin

text \<open>
  \<^verbatim>\<open>include/coro/detail/timer_queue.h\<close> and \<^verbatim>\<open>src/detail/timer_queue.cpp\<close>: the deadline-ordered
  timer queue with its slots, generations and lazy cancellation. Every operation is a critical
  section; \<^verbatim>\<open>fire_expired\<close> is a loop of them. Instants and durations are integers
  (nanoseconds); slot indices and generations keep their 32 bits, timer ids their 64. A weak waker
  is the waker's identity, and \<open>alive\<close> tells which tasks can still be locked.
\<close>

unbundle bit_operations_syntax

section \<open>The queue\<close>

type_synonym TimerId = "64 word"

record entry =
  deadline :: int
  seq :: nat
  slot :: "32 word"

record tslot =
  s_waker :: rc_waker
  generation :: "32 word"
  cancelled :: bool

record tqueue =
  m_heap :: "entry list"
  m_slots :: "tslot list"
  m_free_slots :: "32 word list"
  m_next_seq :: nat
  m_cancelled :: nat
  m_waiting :: bool
  m_closed :: bool

definition tq_new :: tqueue where
  "tq_new = \<lparr>m_heap = [], m_slots = [], m_free_slots = [], m_next_seq = 0, m_cancelled = 0,
     m_waiting = False, m_closed = False\<rparr>"

definition make_id :: "32 word \<Rightarrow> 32 word \<Rightarrow> TimerId" where
  "make_id index gen = push_bit 32 (ucast gen) OR ucast index"

definition id_index :: "TimerId \<Rightarrow> 32 word" where
  "id_index i = ucast i"

definition id_generation :: "TimerId \<Rightarrow> 32 word" where
  "id_generation i = ucast (drop_bit 32 i)"

text \<open>\<open>later\<close>: the heap's order, by deadline and then by insertion.\<close>

definition later :: "entry \<Rightarrow> entry \<Rightarrow> bool" where
  "later a b = (if deadline a \<noteq> deadline b then deadline a > deadline b else seq a > seq b)"

definition key :: "entry \<Rightarrow> int \<times> nat" where
  "key e = (deadline e, seq e)"

definition kSweepMinCancelled :: nat where
  "kSweepMinCancelled = 64"

definition slot_at :: "tqueue \<Rightarrow> 32 word \<Rightarrow> tslot" where
  "slot_at q i = m_slots q ! unat i"

section \<open>Operations\<close>

definition take_slot :: "tqueue \<Rightarrow> 32 word \<times> tqueue" where
  "take_slot q =
     (if m_free_slots q \<noteq> []
      then (last (m_free_slots q), q\<lparr>m_free_slots := butlast (m_free_slots q)\<rparr>)
      else (of_nat (length (m_slots q)),
            q\<lparr>m_slots := m_slots q @ [\<lparr>s_waker = None, generation = 0, cancelled = False\<rparr>]\<rparr>))"

definition free_slot :: "32 word \<Rightarrow> tqueue \<Rightarrow> tqueue" where
  "free_slot i q = q\<lparr>m_slots := (m_slots q)[unat i :=
       \<lparr>s_waker = None, generation = generation (slot_at q i) + 1, cancelled = False\<rparr>],
     m_free_slots := m_free_slots q @ [i]\<rparr>"

record inserted =
  ins_id :: TimerId
  unpark :: bool
  ins_closed :: bool

definition tq_insert :: "int \<Rightarrow> waker \<Rightarrow> tqueue \<Rightarrow> inserted \<times> tqueue" where
  "tq_insert d w q =
     (if m_closed q then (\<lparr>ins_id = 0, unpark = False, ins_closed = True\<rparr>, q)
      else (let earliest = (m_heap q = [] \<or> d < deadline (hd (m_heap q)));
                (i, q) = take_slot q;
                q = q\<lparr>m_slots := (m_slots q)[unat i := (slot_at q i)\<lparr>s_waker := Some w\<rparr>]\<rparr>;
                q = q\<lparr>m_heap := push_heap key (m_heap q @ [\<lparr>deadline = d, seq = m_next_seq q, slot = i\<rparr>]),
                      m_next_seq := m_next_seq q + 1\<rparr>
            in (\<lparr>ins_id = make_id i (generation (slot_at q i)), unpark = (m_waiting q \<and> earliest),
                 ins_closed = False\<rparr>, q)))"

text \<open>\<^verbatim>\<open>std::erase_if\<close> over the heap's array, freeing the slots of the entries it erases.\<close>

fun sweep_entries :: "entry list \<Rightarrow> tqueue \<Rightarrow> entry list \<times> tqueue" where
  "sweep_entries [] q = ([], q)"
| "sweep_entries (e # es) q =
     (if \<not> cancelled (slot_at q (slot e))
      then (let (r, q) = sweep_entries es q in (e # r, q))
      else sweep_entries es (free_slot (slot e) q))"

definition sweep :: "tqueue \<Rightarrow> tqueue" where
  "sweep q = (let (es, q) = sweep_entries (m_heap q) q
     in q\<lparr>m_heap := make_heap key es, m_cancelled := 0\<rparr>)"

definition tq_cancel :: "TimerId \<Rightarrow> tqueue \<Rightarrow> tqueue" where
  "tq_cancel tid q =
     (let i = id_index tid; g = id_generation tid in
      if length (m_slots q) \<le> unat i then q
      else if generation (slot_at q i) \<noteq> g \<or> cancelled (slot_at q i) then q
      else (let q = q\<lparr>m_slots := (m_slots q)[unat i := (slot_at q i)\<lparr>s_waker := None, cancelled := True\<rparr>],
                      m_cancelled := m_cancelled q + 1\<rparr>
            in if kSweepMinCancelled \<le> m_cancelled q \<and> length (m_heap q) - m_cancelled q < m_cancelled q
               then sweep q else q))"

text \<open>\<open>None\<close> is a wait without limit.\<close>

definition begin_wait :: "int \<Rightarrow> int option \<Rightarrow> tqueue \<Rightarrow> int option \<times> tqueue" where
  "begin_wait now max_wait q =
     (if (case max_wait of Some m \<Rightarrow> m \<le> 0 | None \<Rightarrow> False) then (Some 0, q)
      else (let wait =
                (if m_heap q = [] then max_wait
                 else (let d = deadline (hd (m_heap q));
                           until = (if d \<le> now then 0 else d - now)
                       in case max_wait of None \<Rightarrow> Some until
                          | Some m \<Rightarrow> if until < m then Some until else max_wait))
            in (wait, q\<lparr>m_waiting := (case wait of None \<Rightarrow> True | Some x \<Rightarrow> 0 < x)\<rparr>)))"

definition end_wait :: "tqueue \<Rightarrow> tqueue" where
  "end_wait q = q\<lparr>m_waiting := False\<rparr>"

definition kBatch :: nat where
  "kBatch = 32"

text \<open>
  Taking out the front entry, its slot freed: the waker to fire, if the timer is not cancelled and
  its task can be locked.
\<close>

definition pop_front :: "(waker \<Rightarrow> bool) \<Rightarrow> tqueue \<Rightarrow> rc_waker \<times> tqueue" where
  "pop_front alive q =
     (let h = pop_heap key (m_heap q); i = slot (last h); q = q\<lparr>m_heap := butlast h\<rparr>; sl = slot_at q i in
      if cancelled sl then (None, free_slot i (q\<lparr>m_cancelled := m_cancelled q - 1\<rparr>))
      else (case s_waker sl of
          None \<Rightarrow> (None, free_slot i q)
        | Some w \<Rightarrow> (if alive w then Some w else None, free_slot i q)))"

lemma free_slot_heap [simp]: "m_heap (free_slot i q) = m_heap q"
  by (simp add: free_slot_def)

lemma pop_front_length: "m_heap q \<noteq> [] \<Longrightarrow> length (m_heap (snd (pop_front alive q))) = length (m_heap q) - 1"
  by (simp add: pop_front_def Let_def pop_heap_length split: option.split)

text \<open>The loop inside the lock: the wakers taken, and whether more is due.\<close>

function fire_due :: "(waker \<Rightarrow> bool) \<Rightarrow> int \<Rightarrow> nat \<Rightarrow> tqueue \<Rightarrow> waker list \<times> bool \<times> tqueue" where
  "fire_due alive now cnt q =
     (if m_heap q \<noteq> [] \<and> deadline (hd (m_heap q)) \<le> now
      then if cnt = kBatch then ([], True, q)
           else (case pop_front alive q of
               (None, q) \<Rightarrow> fire_due alive now cnt q
             | (Some w, q) \<Rightarrow> (let (ws, again, q) = fire_due alive now (cnt + 1) q in (w # ws, again, q)))
      else ([], False, q))"
  by pat_completeness auto
termination
proof (relation "measure (\<lambda>(alive, now, cnt, q). length (m_heap q))", goal_cases)
  case (2 alive now cnt q x y)
  with pop_front_length [of q alive] show ?case by (cases "m_heap q") (auto dest: sym)
next
  case (3 alive now cnt q x y z)
  with pop_front_length [of q alive] show ?case by (cases "m_heap q") (auto dest: sym)
qed simp

declare fire_due.simps [simp del]

lemma fire_due_length:
  "fire_due alive now cnt q = (ws, again, q') \<Longrightarrow> cnt < kBatch \<or> \<not> again \<Longrightarrow> again \<Longrightarrow>
     length (m_heap q') < length (m_heap q)"
proof (induction alive now cnt q arbitrary: ws again q' rule: fire_due.induct)
  case (1 alive now cnt q)
  have c: "m_heap q \<noteq> []" "deadline (hd (m_heap q)) \<le> now" "cnt \<noteq> kBatch"
    using "1.prems" by (auto simp: fire_due.simps [of alive now cnt q] split: if_splits)
  obtain x p where pf: "pop_front alive q = (x, p)" by force
  have len: "length (m_heap p) < length (m_heap q)" using pop_front_length [OF c(1), of alive] c(1) pf by (cases "m_heap q") auto
  show ?case
  proof (cases x)
    case None
    have e: "fire_due alive now cnt p = (ws, again, q')"
      using "1.prems"(1) c pf None by (simp add: fire_due.simps [of alive now cnt q])
    show ?thesis using "1.IH"(1) [OF _ c(3) pf [symmetric] None e "1.prems"(2,3)] c len by auto
  next
    case (Some w)
    then obtain vs where e: "fire_due alive now (cnt + 1) p = (vs, again, q')"
      using "1.prems"(1) c pf by (auto simp: fire_due.simps [of alive now cnt q] Let_def split: prod.splits)
    show ?thesis
    proof (cases "cnt + 1 = kBatch")
      case True
      then have "q' = p" using e "1.prems"(3)
        by (auto simp: fire_due.simps [of alive now kBatch p] split: if_splits)
      with len show ?thesis by simp
    next
      case False
      then show ?thesis using "1.IH"(2) [OF _ c(3) pf [symmetric] Some e _ "1.prems"(3)] c len "1.prems"(2,3) by auto
    qed
  qed
qed

text \<open>
  \<^verbatim>\<open>fire_expired(bool)\<close>, with the readings \<open>clock i\<close> of its iterations: the wakers in the order
  they are woken. The public \<^verbatim>\<open>fire_expired()\<close> and \<^verbatim>\<open>end_wait_and_fire_expired()\<close> call it
  with \<open>ew\<close> false and true.
\<close>

function fire_expired :: "(waker \<Rightarrow> bool) \<Rightarrow> bool \<Rightarrow> (nat \<Rightarrow> int) \<Rightarrow> nat \<Rightarrow> tqueue \<Rightarrow> waker list \<times> tqueue" where
  "fire_expired alive ew clock i q =
     (let q = (if ew then q\<lparr>m_waiting := False\<rparr> else q) in
      if m_heap q = [] then ([], q)
      else (case fire_due alive (clock i) 0 q of
          (ws, True, q) \<Rightarrow> (let (vs, q) = fire_expired alive ew clock (i + 1) q in (ws @ vs, q))
        | (ws, False, q) \<Rightarrow> (ws, q)))"
  by pat_completeness auto
termination
proof (relation "measure (\<lambda>(alive, ew, clock, i, q). length (m_heap q))", goal_cases)
  case (2 alive ew clock i q x xa y xb ya)
  then have "fire_due alive (clock i) 0 x = (xa, True, ya)" by simp
  from fire_due_length [OF this] 2 show ?case by (auto simp: kBatch_def split: if_splits)
qed simp

declare fire_expired.simps [simp del]

fun close_entries :: "(waker \<Rightarrow> bool) \<Rightarrow> entry list \<Rightarrow> tqueue \<Rightarrow> waker list \<times> tqueue" where
  "close_entries alive [] q = ([], q)"
| "close_entries alive (e # es) q =
     (let sl = slot_at q (slot e);
          here = (if cancelled sl then [] else filter alive (wake_opt (s_waker sl)));
          (ws, q) = close_entries alive es (free_slot (slot e) q)
      in (here @ ws, q))"

definition close_and_wake_all :: "(waker \<Rightarrow> bool) \<Rightarrow> tqueue \<Rightarrow> waker list \<times> tqueue" where
  "close_and_wake_all alive q =
     (let (ws, q) = close_entries alive (m_heap q) (q\<lparr>m_closed := True\<rparr>)
      in (ws, q\<lparr>m_heap := [], m_cancelled := 0\<rparr>))"

definition tq_size :: "tqueue \<Rightarrow> nat" where
  "tq_size q = length (m_heap q)"

end
