(* ===== verification/Timer_Queue_Spec.thy ===== *)
theory Timer_Queue_Spec
  imports Timer_Queue
begin

text \<open>
  The timer queue under every sequence of calls, the list of pending timers it stands for, and the
  proof that heap, slots, generations and lazy cancellation implement that list.
\<close>

section \<open>Ids and slots\<close>

lemma later_key: "later a b \<longleftrightarrow> key b < key a"
  by (auto simp: later_def key_def less_prod_def)

lemma id_index_make [simp]: "id_index (make_id i g) = i"
  unfolding id_index_def make_id_def
  by (rule bit_word_eqI) (auto simp: bit_simps dest: bit_imp_le_length)

lemma id_generation_make [simp]: "id_generation (make_id i g) = g"
  unfolding id_generation_def make_id_def
  by (rule bit_word_eqI) (auto simp: bit_simps dest: bit_imp_le_length)

lemma make_id_inverse: "make_id (id_index t) (id_generation t) = t"
  unfolding id_index_def id_generation_def make_id_def
  by (rule bit_word_eqI) (auto simp: bit_simps dest: bit_imp_le_length)

text \<open>
  The slots in use are those of \<open>U\<close>, the others are free. A slot has been freed at most as often as
  timers have been inserted, so while fewer than $2^{32}$ have been its generation does not wrap.
\<close>

definition slots_ok :: "nat \<Rightarrow> 32 word set \<Rightarrow> tqueue \<Rightarrow> bool" where
  "slots_ok N U q \<longleftrightarrow> N < 2 ^ 32 \<and> length (m_slots q) \<le> N
     \<and> distinct (m_free_slots q) \<and> U \<inter> set (m_free_slots q) = {}
     \<and> (\<forall>i. i \<in> U \<union> set (m_free_slots q) \<longleftrightarrow> unat i < length (m_slots q))
     \<and> (\<forall>i\<in>set (m_free_slots q). \<not> cancelled (slot_at q i) \<and> unat (generation (slot_at q i)) \<le> N)
     \<and> (\<forall>i\<in>U. unat (generation (slot_at q i)) < N)"

lemma slots_ok_cong:
  "slots_ok N U q \<Longrightarrow> m_slots p = m_slots q \<Longrightarrow> m_free_slots p = m_free_slots q \<Longrightarrow> slots_ok N U p"
  by (simp add: slots_ok_def slot_at_def)

lemma slots_ok_used: "slots_ok N U q \<Longrightarrow> i \<in> U \<Longrightarrow> unat i < length (m_slots q)"
  by (auto simp: slots_ok_def)

lemma take_slot_ok:
  assumes ok: "slots_ok N U q" and N: "Suc N < 2 ^ 32" and t: "take_slot q = (i, p)"
  shows "slots_ok (Suc N) (insert i U) p \<and> i \<notin> U \<and> unat i < length (m_slots p)
    \<and> \<not> cancelled (slot_at p i) \<and> (\<forall>j. unat j < length (m_slots q) \<longrightarrow> slot_at p j = slot_at q j)
    \<and> length (m_slots q) \<le> length (m_slots p)
    \<and> p = q\<lparr>m_slots := m_slots p, m_free_slots := m_free_slots p\<rparr>"
proof (cases "m_free_slots q = []")
  case False
  then have p: "i = last (m_free_slots q)" "p = q\<lparr>m_free_slots := butlast (m_free_slots q)\<rparr>"
    using t by (auto simp: take_slot_def)
  have f: "m_free_slots q = butlast (m_free_slots q) @ [i]" using False p(1) by simp
  have "i \<notin> set (butlast (m_free_slots q))" "set (m_free_slots q) = insert i (set (butlast (m_free_slots q)))"
    "distinct (butlast (m_free_slots q))"
    using ok unfolding slots_ok_def by (metis distinct.simps(2) distinct1_rotate f rotate1.simps(2) distinct_append)
      (subst f, simp, metis distinct_append f ok slots_ok_def)
  with ok N show ?thesis unfolding p(2) by (auto simp: slots_ok_def slot_at_def)
next
  case True
  let ?n = "length (m_slots q)"
  have p: "i = of_nat ?n" "p = q\<lparr>m_slots := m_slots q @ [\<lparr>s_waker = None, generation = 0, cancelled = False\<rparr>]\<rparr>"
    using t True by (auto simp: take_slot_def)
  have n: "?n < 2 ^ 32" using ok by (auto simp: slots_ok_def)
  then have i: "unat i = ?n" by (simp add: p(1) unat_of_nat)
  have "j \<in> insert i U \<longleftrightarrow> unat j < Suc ?n" for j
    using ok True i by (auto simp: slots_ok_def less_Suc_eq word_unat_eq_iff)
  moreover have "i \<notin> U" using ok True i by (auto simp: slots_ok_def)
  ultimately show ?thesis using ok True i N unfolding p(2)
    by (auto simp: slots_ok_def slot_at_def nth_append)
qed

lemma free_slot_at:
  assumes "unat i < length (m_slots q)"
  shows "slot_at (free_slot i q) j = (if j = i
    then \<lparr>s_waker = None, generation = generation (slot_at q i) + 1, cancelled = False\<rparr> else slot_at q j)"
  using assms by (auto simp: free_slot_def slot_at_def nth_list_update word_unat_eq_iff)

lemma free_slot_fields [simp]:
  "length (m_slots (free_slot i q)) = length (m_slots q)" "m_free_slots (free_slot i q) = m_free_slots q @ [i]"
  by (simp_all add: free_slot_def)

lemma free_slot_ok:
  assumes ok: "slots_ok N U q" and i: "i \<in> U"
  shows "slots_ok N (U - {i}) (free_slot i q)"
    "unat (generation (slot_at (free_slot i q) i)) = unat (generation (slot_at q i)) + 1"
proof -
  have l: "unat i < length (m_slots q)" using ok i by (rule slots_ok_used)
  have "unat (generation (slot_at q i)) < N" "N < 2 ^ 32" using ok i by (auto simp: slots_ok_def)
  then have g: "unat (generation (slot_at q i) + 1) = unat (generation (slot_at q i)) + 1"
    by (subst unat_plus_simple [THEN iffD1]) (auto simp: word_le_nat_alt unat_word_ariths)
  then show "unat (generation (slot_at (free_slot i q) i)) = unat (generation (slot_at q i)) + 1"
    by (simp add: free_slot_at l)
  have "i \<notin> set (m_free_slots q)" using ok i by (auto simp: slots_ok_def)
  with ok i g show "slots_ok N (U - {i}) (free_slot i q)"
    unfolding slots_ok_def by (auto simp: free_slot_at l)
qed

section \<open>The queue's invariant\<close>

abbreviation live :: "tqueue \<Rightarrow> entry \<Rightarrow> bool" where
  "live q e \<equiv> \<not> cancelled (slot_at q (slot e))"

definition tq_ok :: "tqueue \<Rightarrow> bool" where
  "tq_ok q \<longleftrightarrow> slots_ok (m_next_seq q) (slot ` set (m_heap q)) q
     \<and> is_heap key (m_heap q) \<and> distinct (map slot (m_heap q)) \<and> distinct (map seq (m_heap q))
     \<and> (\<forall>e\<in>set (m_heap q). seq e < m_next_seq q \<and> (live q e \<longrightarrow> s_waker (slot_at q (slot e)) \<noteq> None))
     \<and> m_cancelled q = length (filter (\<lambda>e. cancelled (slot_at q (slot e))) (m_heap q))"

text \<open>
  The names \<open>ids\<close> a client holds: each names a slot at a generation no later than the slot's, at the
  slot's own only while the slot is in use, and no two are the same. \<open>who\<close> recovers the name of the
  timer with a given insertion number.
\<close>

definition names_ok :: "entry set \<Rightarrow> tqueue \<Rightarrow> (nat \<rightharpoonup> TimerId) \<Rightarrow> (nat \<Rightarrow> nat) \<Rightarrow> bool" where
  "names_ok E q ids who \<longleftrightarrow>
     (\<forall>k t. ids k = Some t \<longrightarrow> unat (id_index t) < length (m_slots q)
        \<and> (unat (id_generation t) < unat (generation (slot_at q (id_index t)))
           \<or> id_generation t = generation (slot_at q (id_index t)) \<and> id_index t \<in> slot ` E))
   \<and> (\<forall>k l t. ids k = Some t \<longrightarrow> ids l = Some t \<longrightarrow> k = l)
   \<and> (\<forall>e\<in>E. ids (who (seq e)) = Some (make_id (slot e) (generation (slot_at q (slot e)))))"

lemma names_ok_cong:
  "names_ok E q ids who \<Longrightarrow> m_slots p = m_slots q \<Longrightarrow> names_ok E p ids who"
  by (simp add: names_ok_def slot_at_def)

lemma names_get:
  "names_ok E q ids who \<Longrightarrow> ids k = Some t \<Longrightarrow> unat (id_index t) < length (m_slots q)
     \<and> (unat (id_generation t) < unat (generation (slot_at q (id_index t)))
        \<or> id_generation t = generation (slot_at q (id_index t)) \<and> id_index t \<in> slot ` E)"
  by (simp add: names_ok_def)

lemma names_free:
  assumes ok: "slots_ok N U q" and e: "slot e \<in> U" "slot e \<notin> slot ` E"
    and nm: "names_ok (insert e E) q ids who"
  shows "names_ok E (free_slot (slot e) q) ids who"
proof -
  have l: "unat (slot e) < length (m_slots q)" using ok e(1) by (rule slots_ok_used)
  have g: "unat (generation (slot_at q (slot e)) + 1) = unat (generation (slot_at q (slot e))) + 1"
    using free_slot_ok(2) [OF ok e(1)] by (simp add: free_slot_at l)
  have "slot f \<noteq> slot e" if "f \<in> E" for f using e(2) that by (metis imageI)
  moreover have "unat (id_generation t) \<le> unat (generation (slot_at q (slot e)))"
    if "ids k = Some t" "id_index t = slot e" for k t
    using nm that by (auto simp: names_ok_def dest!: spec [of _ k])
  ultimately show ?thesis using nm g by (auto simp: names_ok_def free_slot_at l less_Suc_eq_le)
qed

text \<open>What an entry stands for: its client's name, deadline, insertion number and waker.\<close>

type_synonym timer = "nat \<times> int \<times> nat \<times> waker"

definition tm :: "tqueue \<Rightarrow> (nat \<Rightarrow> nat) \<Rightarrow> entry \<Rightarrow> timer" where
  "tm q who e = (who (seq e), deadline e, seq e, the (s_waker (slot_at q (slot e))))"

definition timers_of :: "tqueue \<Rightarrow> (nat \<Rightarrow> nat) \<Rightarrow> timer list" where
  "timers_of q who = map (tm q who) (sort_key key (filter (live q) (m_heap q)))"

lemma key_inj: "distinct (map seq es) \<Longrightarrow> inj_on key (set es)"
  by (auto simp: inj_on_def key_def distinct_map)

lemma sort_key_perm:
  assumes "mset xs = mset ys" "inj_on f (set xs)"
  shows "sort_key f xs = sort_key f ys"
  using assms by (intro sort_key_inj_key_eq) (auto dest: mset_eq_setD)

lemma timers_of_cong:
  assumes "mset (filter (live p) (m_heap p)) = mset (filter (live q) (m_heap q))" "distinct (map seq (m_heap q))"
    "\<And>e. e \<in> set (m_heap q) \<Longrightarrow> live q e \<Longrightarrow> slot_at p (slot e) = slot_at q (slot e)"
  shows "timers_of p who = timers_of q who"
proof -
  have "inj_on key (set (filter (live q) (m_heap q)))" using key_inj [OF assms(2)] by (auto simp: inj_on_def)
  then have s: "sort_key key (filter (live p) (m_heap p)) = sort_key key (filter (live q) (m_heap q))"
    by (intro sort_key_perm [OF assms(1) [symmetric], symmetric])
  show ?thesis unfolding timers_of_def s using assms(3) by (auto simp: tm_def)
qed

lemma heap_distinct_seq: "tq_ok q \<Longrightarrow> inj_on key (set (filter P (m_heap q)))"
  by (rule inj_on_subset [OF key_inj, of "m_heap q"]) (auto simp: tq_ok_def)

lemma distinct_map_perm: "mset xs = mset ys \<Longrightarrow> distinct (map f xs) = distinct (map f ys)"
  by (intro mset_eq_imp_distinct_iff) simp

text \<open>An operation that touches only the timers themselves.\<close>

lemma tqueue_frame:
  "p1 = q\<lparr>m_heap := h1, m_slots := s1, m_free_slots := f1, m_cancelled := c1\<rparr> \<Longrightarrow>
   p = p1\<lparr>m_heap := h, m_slots := s, m_free_slots := f, m_cancelled := c\<rparr> \<Longrightarrow>
   p = q\<lparr>m_heap := h, m_slots := s, m_free_slots := f, m_cancelled := c\<rparr>"
  by simp

section \<open>Taking out the front\<close>

lemma pop_front_heap:
  assumes "is_heap key (m_heap q)" "m_heap q \<noteq> []" "pop_front alive q = (x, p)"
  shows "set (m_heap p) \<subseteq> set (m_heap q)"
proof -
  have "m_heap p = butlast (pop_heap key (m_heap q))"
    using assms(3) by (auto simp: pop_front_def Let_def split: if_splits option.splits)
  moreover have "set (butlast (pop_heap key (m_heap q))) = set (tl (m_heap q))"
    using pop_heap_ok(4) [OF assms(1,2)] by (rule mset_eq_setD)
  ultimately show ?thesis using assms(2) by (cases "m_heap q") auto
qed

lemma pop_front_ok:
  assumes ok: "tq_ok q" and ne: "m_heap q \<noteq> []" and nm: "names_ok (set (m_heap q)) q ids who"
    and pf: "pop_front alive q = (x, p)"
  defines "e \<equiv> hd (m_heap q)"
  shows "tq_ok p \<and> names_ok (set (m_heap p)) p ids who
    \<and> timers_of q who = (if live q e then [tm q who e] else []) @ timers_of p who
    \<and> x = (if live q e \<and> alive (the (s_waker (slot_at q (slot e)))) then s_waker (slot_at q (slot e)) else None)
    \<and> p = q\<lparr>m_heap := m_heap p, m_slots := m_slots p, m_free_slots := m_free_slots p, m_cancelled := m_cancelled p\<rparr>"
proof -
  let ?h = "m_heap q" and ?h' = "butlast (pop_heap key (m_heap q))" and ?N = "m_next_seq q"
  define c where "c = (if live q e then m_cancelled q else m_cancelled q - 1)"
  note D = ok [unfolded tq_ok_def]
  have heap: "is_heap key ?h" "distinct (map slot ?h)" "distinct (map seq ?h)" using D by auto
  have pop: "last (pop_heap key ?h) = e" "is_heap key ?h'" "mset ?h' = mset (tl ?h)"
    using pop_heap_ok [OF heap(1) ne] by (auto simp: e_def)
  have h: "?h = e # tl ?h" using ne by (simp add: e_def)
  have set': "set ?h' = set (tl ?h)" using pop(3) by (rule mset_eq_setD)
  have seth: "set ?h = insert e (set ?h')" using h set' by (metis list.simps(15))
  have e_in: "e \<in> set ?h" using seth by simp
  have sl: "slot e \<notin> slot ` set ?h'" unfolding set' using heap(2) by (subst (asm) h) simp
  have sl': "slot f \<noteq> slot e" if "f \<in> set ?h'" for f using sl that by (metis imageI)
  have d': "distinct (map slot ?h')" "distinct (map seq ?h')"
    using distinct_map_perm [OF pop(3), of slot] distinct_map_perm [OF pop(3), of seq] distinct_tl [OF heap(2)] distinct_tl [OF heap(3)]
    by (simp_all add: map_tl)
  have us: "slot e \<in> slot ` set ?h" using e_in by simp
  have S: "slots_ok ?N (slot ` set ?h) q" using D by simp
  have l: "unat (slot e) < length (m_slots q)" using S us by (rule slots_ok_used)
  have wk: "live q e \<Longrightarrow> s_waker (slot_at q (slot e)) \<noteq> None" using D e_in by auto
  have p: "p = free_slot (slot e) (q\<lparr>m_heap := ?h', m_cancelled := c\<rparr>)"
    and x: "x = (if live q e \<and> alive (the (s_waker (slot_at q (slot e)))) then s_waker (slot_at q (slot e)) else None)"
    using pf wk by (auto simp: pop_front_def pop(1) slot_at_def c_def Let_def split: option.splits if_splits)
  let ?q = "q\<lparr>m_heap := ?h', m_cancelled := c\<rparr>"
  have at: "slot_at p (slot f) = slot_at q (slot f)" if "f \<in> set ?h'" for f
    using sl' [OF that] l unfolding p by (subst free_slot_at) (simp_all add: slot_at_def)
  have heap_p: "m_heap p = ?h'" by (simp add: p)
  have liv: "filter (live p) ?h' = filter (live q) ?h'" "filter (\<lambda>f. cancelled (slot_at p (slot f))) ?h' = filter (\<lambda>f. cancelled (slot_at q (slot f))) ?h'"
    using at by (auto intro: filter_cong)
  have "slots_ok ?N (slot ` set ?h) ?q" using S by (rule slots_ok_cong) simp_all
  then have "slots_ok ?N (slot ` set ?h - {slot e}) p" unfolding p using us by (rule free_slot_ok)
  moreover have "slot ` set ?h - {slot e} = slot ` set ?h'" using seth sl by auto
  ultimately have S': "slots_ok ?N (slot ` set ?h') p" by simp
  have "length (filter (\<lambda>f. cancelled (slot_at q (slot f))) ?h) = (if live q e then 0 else 1) + length (filter (\<lambda>f. cancelled (slot_at q (slot f))) (tl ?h))"
    by (subst h) simp
  also have "length (filter (\<lambda>f. cancelled (slot_at q (slot f))) (tl ?h)) = length (filter (\<lambda>f. cancelled (slot_at q (slot f))) ?h')"
    using pop(3) by (metis mset_filter size_mset)
  finally have c': "c = length (filter (\<lambda>f. cancelled (slot_at p (slot f))) ?h')" using D by (auto simp: c_def liv)
  have nx: "m_next_seq p = ?N" "m_cancelled p = c" by (simp_all add: p free_slot_def)
  have P: "tq_ok p" unfolding tq_ok_def heap_p nx
    using S' pop(2) d' D at c' seth by auto
  have "names_ok (insert e (set ?h')) ?q ids who" using nm unfolding seth by (rule names_ok_cong) simp
  then have N': "names_ok (set ?h') p ids who"
    unfolding p using \<open>slots_ok ?N (slot ` set ?h) ?q\<close> us sl by (intro names_free)
  have least: "key e \<le> key f" if "f \<in> set ?h" for f
    using heap_hd_least [OF heap(1) that] by (simp add: e_def)
  have so: "sort_key key (filter (live q) ?h)
      = (if live q e then [e] else []) @ sort_key key (filter (live q) ?h')" (is "?L = ?R")
  proof (rule sort_key_inj_key_eq)
    show "mset (filter (live q) ?h) = mset ?R"
      using pop(3) by (subst h) (simp add: mset_filter [symmetric] del: mset_filter, simp)
    show "inj_on key (set (filter (live q) ?h))" by (rule heap_distinct_seq [OF ok])
    show "sorted (map key ?R)" using least seth by auto
  qed
  have "timers_of q who = (if live q e then [tm q who e] else []) @ timers_of p who"
    unfolding timers_of_def so heap_p liv using at by (auto simp: tm_def)
  moreover have "p = q\<lparr>m_heap := m_heap p, m_slots := m_slots p, m_free_slots := m_free_slots p, m_cancelled := m_cancelled p\<rparr>"
    by (simp add: p free_slot_def)
  ultimately show ?thesis using P N' x heap_p by simp
qed

section \<open>Firing\<close>

text \<open>
  Firing from a list of timers sorted by deadline and insertion: the timers due are taken from the
  front, until \<^verbatim>\<open>kBatch\<close> wakers have been taken.
\<close>

fun s_fire :: "(waker \<Rightarrow> bool) \<Rightarrow> int \<Rightarrow> nat \<Rightarrow> timer list \<Rightarrow> waker list \<times> timer list" where
  "s_fire alive now c [] = ([], [])"
| "s_fire alive now c ((k, d, n, w) # ts) =
     (if d \<le> now \<and> c \<noteq> kBatch
      then (let (ws, r) = s_fire alive now (if alive w then c + 1 else c) ts in (if alive w then w # ws else ws, r))
      else ([], (k, d, n, w) # ts))"

lemma s_fire_stop: "(\<forall>(k, d, n, w)\<in>set ts. now < d) \<or> c = kBatch \<Longrightarrow> s_fire alive now c ts = ([], ts)"
  by (cases ts) auto

lemma timers_of_set: "t \<in> set (timers_of q who) \<Longrightarrow> \<exists>e\<in>set (m_heap q). live q e \<and> t = tm q who e"
  by (auto simp: timers_of_def)

lemma fire_due_ok:
  assumes "tq_ok q" "names_ok (set (m_heap q)) q ids who" "fire_due alive now c q = (ws, again, p)"
  shows "tq_ok p \<and> names_ok (set (m_heap p)) p ids who
    \<and> s_fire alive now c (timers_of q who) = (ws, timers_of p who)
    \<and> (\<not> again \<longrightarrow> (\<forall>e\<in>set (m_heap p). now < deadline e)) \<and> set (m_heap p) \<subseteq> set (m_heap q)
    \<and> p = q\<lparr>m_heap := m_heap p, m_slots := m_slots p, m_free_slots := m_free_slots p, m_cancelled := m_cancelled p\<rparr>"
  using assms
proof (induction alive now c q arbitrary: ws again p rule: fire_due.induct)
  case (1 alive now c q)
  let ?e = "hd (m_heap q)"
  note eq = fire_due.simps [of alive now c q]
  show ?case
  proof (cases "m_heap q \<noteq> [] \<and> deadline ?e \<le> now")
    case False
    have "now < deadline e" if "e \<in> set (m_heap q)" for e
      using heap_hd_least [of key "m_heap q" e] "1.prems"(1) that False
      by (cases "m_heap q") (auto simp: tq_ok_def key_def less_eq_prod_def)
    then have "s_fire alive now c (timers_of q who) = ([], timers_of q who)"
      by (intro s_fire_stop) (auto dest!: timers_of_set simp: tm_def)
    with False "1.prems" \<open>\<And>e. e \<in> set (m_heap q) \<Longrightarrow> now < deadline e\<close> show ?thesis by (auto simp: eq)
  next
    case due: True
    show ?thesis
    proof (cases "c = kBatch")
      case True
      then have "ws = []" "again" "p = q" using "1.prems"(3) due unfolding eq by auto
      with True "1.prems"(1,2) show ?thesis by (simp add: s_fire_stop)
    next
      case False
      obtain x p1 where pf: "pop_front alive q = (x, p1)" by force
      have P: "tq_ok p1" "names_ok (set (m_heap p1)) p1 ids who"
        "timers_of q who = (if live q ?e then [tm q who ?e] else []) @ timers_of p1 who"
        "x = (if live q ?e \<and> alive (the (s_waker (slot_at q (slot ?e)))) then s_waker (slot_at q (slot ?e)) else None)"
        "p1 = q\<lparr>m_heap := m_heap p1, m_slots := m_slots p1, m_free_slots := m_free_slots p1, m_cancelled := m_cancelled p1\<rparr>"
        using pop_front_ok [OF "1.prems"(1) _ "1.prems"(2) pf] due by auto
      have "?e \<in> set (m_heap q)" using due by simp
      then have wk: "live q ?e \<Longrightarrow> s_waker (slot_at q (slot ?e)) \<noteq> None"
        using "1.prems"(1) by (auto simp: tq_ok_def)
      have sub: "set (m_heap p1) \<subseteq> set (m_heap q)" using pop_front_heap [OF _ _ pf] due "1.prems"(1) by (auto simp: tq_ok_def)
      show ?thesis
      proof (cases x)
        case None
        have f: "fire_due alive now c p1 = (ws, again, p)" using "1.prems"(3) due False pf None by (simp add: eq)
        have IH: "tq_ok p \<and> names_ok (set (m_heap p)) p ids who
          \<and> s_fire alive now c (timers_of p1 who) = (ws, timers_of p who)
          \<and> (\<not> again \<longrightarrow> (\<forall>e\<in>set (m_heap p). now < deadline e)) \<and> set (m_heap p) \<subseteq> set (m_heap p1)
          \<and> p = p1\<lparr>m_heap := m_heap p, m_slots := m_slots p, m_free_slots := m_free_slots p, m_cancelled := m_cancelled p\<rparr>"
          using "1.IH"(1) [OF due False pf [symmetric] None P(1,2) f] .
        have "s_fire alive now c (timers_of q who) = (ws, timers_of p who)"
          using IH P(3,4) None due False wk by (auto simp: tm_def)
        moreover have "p = q\<lparr>m_heap := m_heap p, m_slots := m_slots p, m_free_slots := m_free_slots p, m_cancelled := m_cancelled p\<rparr>"
          by (rule tqueue_frame [OF P(5)]) (use IH in simp)
        moreover have "set (m_heap p) \<subseteq> set (m_heap q)" using IH sub by blast
        ultimately show ?thesis using IH by simp
      next
        case (Some w)
        then obtain vs where f: "fire_due alive now (c + 1) p1 = (vs, again, p)" and ws: "ws = w # vs"
          using "1.prems"(3) due False pf by (auto simp: eq Let_def split: prod.splits)
        have IH: "tq_ok p \<and> names_ok (set (m_heap p)) p ids who
          \<and> s_fire alive now (c + 1) (timers_of p1 who) = (vs, timers_of p who)
          \<and> (\<not> again \<longrightarrow> (\<forall>e\<in>set (m_heap p). now < deadline e)) \<and> set (m_heap p) \<subseteq> set (m_heap p1)
          \<and> p = p1\<lparr>m_heap := m_heap p, m_slots := m_slots p, m_free_slots := m_free_slots p, m_cancelled := m_cancelled p\<rparr>"
          using "1.IH"(2) [OF due False pf [symmetric] Some P(1,2) f] .
        have "live q ?e" "s_waker (slot_at q (slot ?e)) = Some w" "alive w"
          using P(4) Some by (metis option.distinct(1) option.sel)+
        then have "s_fire alive now c (timers_of q who) = (ws, timers_of p who)"
          using IH P(3) due False ws by (simp add: tm_def)
        moreover have "p = q\<lparr>m_heap := m_heap p, m_slots := m_slots p, m_free_slots := m_free_slots p, m_cancelled := m_cancelled p\<rparr>"
          by (rule tqueue_frame [OF P(5)]) (use IH in simp)
        moreover have "set (m_heap p) \<subseteq> set (m_heap q)" using IH sub by blast
        ultimately show ?thesis using IH by simp
      qed
    qed
  qed
qed

section \<open>Inserting\<close>

definition tkey :: "timer \<Rightarrow> int \<times> nat" where
  "tkey t = (case t of (k, d, n, w) \<Rightarrow> (d, n))"

lemma tkey_tm: "tkey (tm q who e) = key e"
  by (simp add: tkey_def tm_def key_def)

lemma map_insort_tm: "map (tm q who) (insort_key key e es) = insort_key tkey (tm q who e) (map (tm q who) es)"
  by (induction es) (auto simp: tkey_tm)

text \<open>Setting the waker of a slot changes nothing that the slots' invariant speaks of.\<close>

lemma insert_ok:
  assumes ok: "tq_ok q" and open': "\<not> m_closed q" and N: "Suc (m_next_seq q) < 2 ^ 32"
    and nm: "names_ok (set (m_heap q)) q ids who" and new: "ids k = None"
    and ins: "tq_insert d w q = (r, p)"
  defines "who' \<equiv> who(m_next_seq q := k)"
  shows "tq_ok p \<and> names_ok (set (m_heap p)) p (ids(k \<mapsto> ins_id r)) who'
    \<and> timers_of p who' = insort_key tkey (k, d, m_next_seq q, w) (timers_of q who)
    \<and> \<not> ins_closed r \<and> unpark r = (m_waiting q \<and> (m_heap q = [] \<or> d < deadline (hd (m_heap q))))
    \<and> m_next_seq p = Suc (m_next_seq q) \<and> m_waiting p = m_waiting q \<and> m_closed p = m_closed q
    \<and> set (m_heap p) = insert \<lparr>deadline = d, seq = m_next_seq q, slot = id_index (ins_id r)\<rparr> (set (m_heap q))"
proof -
  let ?N = "m_next_seq q" and ?U = "slot ` set (m_heap q)"
  note D = ok [unfolded tq_ok_def]
  obtain i p1 where t: "take_slot q = (i, p1)" by force
  have S: "slots_ok (Suc ?N) (insert i ?U) p1" "i \<notin> ?U" "unat i < length (m_slots p1)"
    "\<not> cancelled (slot_at p1 i)" "\<And>j. unat j < length (m_slots q) \<Longrightarrow> slot_at p1 j = slot_at q j"
    "length (m_slots q) \<le> length (m_slots p1)"
    "p1 = q\<lparr>m_slots := m_slots p1, m_free_slots := m_free_slots p1\<rparr>"
    using take_slot_ok [OF _ N t] D by auto
  have p1: "m_heap p1 = m_heap q" "m_next_seq p1 = ?N" "m_waiting p1 = m_waiting q" "m_closed p1 = m_closed q"
    "m_cancelled p1 = m_cancelled q" by (subst S(7), simp)+
  define e where "e = \<lparr>deadline = d, seq = ?N, slot = i\<rparr>"
  have p: "p = p1\<lparr>m_slots := (m_slots p1)[unat i := (slot_at p1 i)\<lparr>s_waker := Some w\<rparr>],
      m_heap := push_heap key (m_heap q @ [e]), m_next_seq := Suc ?N\<rparr>"
    and r: "r = \<lparr>ins_id = make_id i (generation (slot_at p i)),
      unpark = (m_waiting q \<and> (m_heap q = [] \<or> d < deadline (hd (m_heap q)))), ins_closed = False\<rparr>"
    using ins open' t p1 by (auto simp: tq_insert_def Let_def e_def)
  have at: "slot_at p j = (if j = i then (slot_at p1 i)\<lparr>s_waker := Some w\<rparr> else slot_at p1 j)" for j
    using S(3) by (simp add: p slot_at_def nth_list_update word_unat_eq_iff)
  have pf: "m_next_seq p = Suc ?N" "m_cancelled p = m_cancelled q" "m_waiting p = m_waiting q"
    "m_closed p = m_closed q" "length (m_slots p) = length (m_slots p1)" "m_free_slots p = m_free_slots p1"
    by (simp_all add: p p1)
  have heap: "is_heap key (m_heap p)" "mset (m_heap p) = add_mset e (mset (m_heap q))"
    using push_heap_ok [of key "m_heap q" e] D by (simp_all add: p)
  have seth: "set (m_heap p) = insert e (set (m_heap q))" using heap(2) by (metis set_mset_add_mset_insert set_mset_mset)
  have used: "unat (slot f) < length (m_slots q)" "slot f \<noteq> i" if "f \<in> set (m_heap q)" for f
    using slots_ok_used [of ?N ?U q "slot f"] D that S(2) by auto
  have old: "slot_at p (slot f) = slot_at q (slot f)" if "f \<in> set (m_heap q)" for f
    using used [OF that] by (simp add: at S(5))
  have sl: "slot e = i" "seq e = ?N" by (simp_all add: e_def)
  have "slots_ok (Suc ?N) (slot ` set (m_heap p)) p"
    using S(1) unfolding seth slots_ok_def by (auto simp: at sl pf)
  moreover have "distinct (map slot (m_heap p))" "distinct (map seq (m_heap p))"
    using distinct_map_perm [of "m_heap p" "e # m_heap q" slot] distinct_map_perm [of "m_heap p" "e # m_heap q" seq]
      heap(2) D S(2) by (auto simp: sl)
  moreover have "length (filter (\<lambda>f. cancelled (slot_at p (slot f))) (m_heap p))
      = length (filter (\<lambda>f. cancelled (slot_at p (slot f))) (e # m_heap q))"
    using heap(2) by (metis mset.simps(2) mset_filter size_mset)
  then have "m_cancelled p = length (filter (\<lambda>f. cancelled (slot_at p (slot f))) (m_heap p))"
    using D old S(4) by (simp add: pf at sl cong: filter_cong)
  ultimately have P: "tq_ok p" unfolding tq_ok_def using heap(1) D old by (auto simp: pf seth at sl less_SucI)
  have gens: "generation (slot_at p j) = generation (slot_at q j)" if "unat j < length (m_slots q)" for j
    using S(5) [OF that] by (auto simp: at)
  have fresh: "t \<noteq> ins_id r" if "ids l = Some t" for l t
  proof
    assume "t = ins_id r"
    then have "id_index t = i" "id_generation t = generation (slot_at p i)" by (simp_all add: r)
    with names_get [OF nm that] S(2) gens [of i] show False by auto
  qed
  have "names_ok (set (m_heap p)) p (ids(k \<mapsto> ins_id r)) who'"
    unfolding names_ok_def
  proof (intro conjI allI impI ballI)
    fix l t assume l: "(ids(k \<mapsto> ins_id r)) l = Some t"
    show "unat (id_index t) < length (m_slots p)"
      using l nm S(3,6) by (auto simp: names_ok_def r pf split: if_splits dest!: spec [of _ l])
    show "unat (id_generation t) < unat (generation (slot_at p (id_index t)))
      \<or> id_generation t = generation (slot_at p (id_index t)) \<and> id_index t \<in> slot ` set (m_heap p)"
      using l nm gens by (fastforce simp: names_ok_def r seth sl split: if_splits)
  next
    fix l m t assume "(ids(k \<mapsto> ins_id r)) l = Some t" "(ids(k \<mapsto> ins_id r)) m = Some t"
    then show "l = m" using nm fresh by (auto simp: names_ok_def split: if_splits)
  next
    fix f assume f: "f \<in> set (m_heap p)"
    show "(ids(k \<mapsto> ins_id r)) (who' (seq f)) = Some (make_id (slot f) (generation (slot_at p (slot f))))"
    proof (cases "f = e")
      case True
      then show ?thesis by (simp add: who'_def sl r)
    next
      case False
      with f seth have f: "f \<in> set (m_heap q)" by auto
      then have "seq f \<noteq> ?N" "ids (who (seq f)) = Some (make_id (slot f) (generation (slot_at q (slot f))))"
        using D nm by (auto simp: names_ok_def)
      with new old [OF f] show ?thesis by (auto simp: who'_def)
    qed
  qed
  moreover have "timers_of p who' = insort_key tkey (k, d, ?N, w) (timers_of q who)"
  proof -
    have "live p e" using S(4) by (simp add: at sl)
    then have "filter (live p) (e # m_heap q) = e # filter (live q) (m_heap q)"
      using old by (auto intro: filter_cong)
    moreover have "mset (filter (live p) (m_heap p)) = mset (filter (live p) (e # m_heap q))"
      using heap(2) by (simp only: mset_filter mset.simps)
    ultimately have "mset (filter (live p) (m_heap p)) = mset (e # filter (live q) (m_heap q))" by simp
    then have s: "sort_key key (filter (live p) (m_heap p)) = insort_key key e (sort_key key (filter (live q) (m_heap q)))"
      using sort_key_perm [of "filter (live p) (m_heap p)" "e # filter (live q) (m_heap q)" key,
          OF _ heap_distinct_seq [OF P]] by simp
    have "tm p who' f = tm q who f" if "f \<in> set (m_heap q)" for f
      using old [OF that] D that by (auto simp: tm_def who'_def)
    then have m: "map (tm p who') (sort_key key (filter (live q) (m_heap q))) = timers_of q who"
      by (simp add: timers_of_def)
    have "tm p who' e = (k, d, ?N, w)" by (simp add: tm_def who'_def at sl) (simp add: e_def)
    then show ?thesis unfolding timers_of_def [of p] s map_insort_tm m by simp
  qed
  ultimately show ?thesis using P seth by (simp add: r pf e_def)
qed

section \<open>Cancelling\<close>

lemma sweep_entries_ok:
  assumes "slots_ok N (slot ` set (K @ es)) q" "distinct (map slot (K @ es))"
    "names_ok (set (K @ es)) q ids who" "sweep_entries es q = (r, p)"
  shows "r = filter (live q) es \<and> slots_ok N (slot ` set (K @ r)) p \<and> names_ok (set (K @ r)) p ids who
    \<and> (\<forall>e\<in>set (K @ r). slot_at p (slot e) = slot_at q (slot e))
    \<and> p = q\<lparr>m_slots := m_slots p, m_free_slots := m_free_slots p\<rparr>"
  using assms
proof (induction es arbitrary: K q r)
  case (Cons e es)
  show ?case
  proof (cases "live q e")
    case True
    obtain r' where r: "sweep_entries es q = (r', p)" "r = e # r'" using Cons.prems(4) True by (auto split: prod.splits)
    from Cons.IH [of "K @ [e]" q r'] Cons.prems(1-3) r show ?thesis using True by auto
  next
    case False
    let ?q = "free_slot (slot e) q" and ?U = "slot ` set (K @ e # es)"
    have sl: "slot e \<in> ?U" "slot e \<notin> slot ` set (K @ es)" using Cons.prems(2) by auto
    have l: "unat (slot e) < length (m_slots q)" using Cons.prems(1) sl(1) by (rule slots_ok_used)
    have "slots_ok N (?U - {slot e}) ?q" using Cons.prems(1) sl(1) by (rule free_slot_ok)
    moreover have "?U - {slot e} = slot ` set (K @ es)" using sl by auto
    ultimately have S: "slots_ok N (slot ` set (K @ es)) ?q" by simp
    have N: "names_ok (set (K @ es)) ?q ids who"
      by (rule names_free [OF Cons.prems(1) sl]) (use Cons.prems(3) in \<open>simp add: insert_commute\<close>)
    have at: "slot_at ?q (slot f) = slot_at q (slot f)" if "f \<in> set (K @ es)" for f
      using sl(2) that l by (simp add: free_slot_at) (metis Un_iff image_eqI)
    have f: "filter (live ?q) es = filter (live q) es" using at by (auto intro: filter_cong)
    have "sweep_entries es ?q = (r, p)" using Cons.prems(4) False by simp
    from Cons.IH [OF S _ N this] Cons.prems(2) False at f show ?thesis by (auto simp: free_slot_def)
  qed
qed simp

lemma sweep_ok:
  assumes ok: "tq_ok q" and nm: "names_ok (set (m_heap q)) q ids who"
  shows "tq_ok (sweep q) \<and> names_ok (set (m_heap (sweep q))) (sweep q) ids who
    \<and> timers_of (sweep q) who = timers_of q who \<and> set (m_heap (sweep q)) \<subseteq> set (m_heap q) \<and> m_cancelled (sweep q) = 0
    \<and> sweep q = q\<lparr>m_heap := m_heap (sweep q), m_slots := m_slots (sweep q), m_free_slots := m_free_slots (sweep q),
        m_cancelled := m_cancelled (sweep q)\<rparr>"
proof -
  note D = ok [unfolded tq_ok_def]
  obtain r p where sw: "sweep_entries (m_heap q) q = (r, p)" by force
  have E: "r = filter (live q) (m_heap q)" "slots_ok (m_next_seq q) (slot ` set r) p" "names_ok (set r) p ids who"
    "\<And>e. e \<in> set r \<Longrightarrow> slot_at p (slot e) = slot_at q (slot e)"
    "p = q\<lparr>m_slots := m_slots p, m_free_slots := m_free_slots p\<rparr>"
    using sweep_entries_ok [of "m_next_seq q" "[]" "m_heap q" q ids who r p] D nm sw by auto
  let ?p = "p\<lparr>m_heap := make_heap key r, m_cancelled := 0\<rparr>"
  have s: "sweep q = ?p" using sw by (simp add: sweep_def)
  have mh: "is_heap key (make_heap key r)" "mset (make_heap key r) = mset r" by (rule make_heap_ok)+
  have sr: "set (make_heap key r) = set r" using mh(2) by (rule mset_eq_setD)
  have at: "slot_at ?p (slot e) = slot_at q (slot e)" if "e \<in> set r" for e
    using E(4) [OF that] by (simp add: slot_at_def)
  have "m_next_seq ?p = m_next_seq q" by (subst E(5)) simp
  moreover have "distinct (map slot r)" "distinct (map seq r)" using D E(1) by (auto simp: distinct_map_filter)
  moreover have "slots_ok (m_next_seq q) (slot ` set r) ?p" using E(2) by (rule slots_ok_cong) simp_all
  moreover have lr: "e \<in> set (m_heap q)" "live q e" if "e \<in> set r" for e using that E(1) by auto
  moreover have "filter (\<lambda>e. cancelled (slot_at ?p (slot e))) (make_heap key r) = []"
    using at lr sr by (auto simp: filter_empty_conv)
  ultimately have P: "tq_ok ?p"
    unfolding tq_ok_def using mh D at distinct_map_perm [OF mh(2), of slot] distinct_map_perm [OF mh(2), of seq]
    by (auto simp: sr)
  have "names_ok (set r) ?p ids who" using E(3) by (rule names_ok_cong) simp
  moreover have "timers_of ?p who = timers_of q who"
  proof (rule timers_of_cong)
    have "filter (live ?p) (make_heap key r) = make_heap key r" using at E(1) sr by (auto simp: filter_id_conv)
    then show "mset (filter (live ?p) (m_heap ?p)) = mset (filter (live q) (m_heap q))"
      using mh(2) E(1) by simp
  qed (use D at E(1) in auto)
  moreover have "?p = q\<lparr>m_heap := m_heap ?p, m_slots := m_slots ?p, m_free_slots := m_free_slots ?p, m_cancelled := m_cancelled ?p\<rparr>"
    by (subst E(5)) simp
  ultimately show ?thesis unfolding s using P sr E(1) by auto
qed

lemma mark_ok:
  assumes ok: "tq_ok q" and nm: "names_ok (set (m_heap q)) q ids who" and e: "e \<in> set (m_heap q)" "live q e"
  defines "p \<equiv> q\<lparr>m_slots := (m_slots q)[unat (slot e) := (slot_at q (slot e))\<lparr>s_waker := None, cancelled := True\<rparr>],
    m_cancelled := m_cancelled q + 1\<rparr>"
  shows "tq_ok p \<and> names_ok (set (m_heap p)) p ids who
    \<and> timers_of p who = filter (\<lambda>t. fst t \<noteq> who (seq e)) (timers_of q who)"
proof -
  note D = ok [unfolded tq_ok_def]
  have S: "slots_ok (m_next_seq q) (slot ` set (m_heap q)) q" using D by simp
  have l: "unat (slot e) < length (m_slots q)" using slots_ok_used [OF S] e(1) by simp
  have at: "slot_at p j = (if j = slot e then (slot_at q (slot e))\<lparr>s_waker := None, cancelled := True\<rparr> else slot_at q j)" for j
    using l by (simp add: p_def slot_at_def nth_list_update word_unat_eq_iff)
  have same: "slot f = slot e \<longleftrightarrow> f = e" if "f \<in> set (m_heap q)" for f
    using D e(1) that by (auto simp: distinct_map inj_on_def)
  have h: "m_heap p = m_heap q" "m_next_seq p = m_next_seq q" "m_free_slots p = m_free_slots q"
    "length (m_slots p) = length (m_slots q)" "m_cancelled p = m_cancelled q + 1" by (simp_all add: p_def)
  have "slot e \<notin> set (m_free_slots q)" using S e(1) by (auto simp: slots_ok_def)
  then have "slots_ok (m_next_seq q) (slot ` set (m_heap q)) p"
    using S by (auto simp: slots_ok_def h at)
  moreover have "length (filter (\<lambda>f. cancelled (slot_at p (slot f))) (m_heap q))
      = length (filter (\<lambda>f. cancelled (slot_at q (slot f))) (m_heap q)) + 1"
  proof -
    obtain xs ys where q: "m_heap q = xs @ e # ys" using e(1) by (meson split_list)
    have "distinct (m_heap q)" using D by (auto simp: distinct_map)
    then have ne: "slot f \<noteq> slot e" if "f \<in> set (xs @ ys)" for f using same [of f] that q by auto
    then have "filter (\<lambda>f. cancelled (slot_at p (slot f))) xs = filter (\<lambda>f. cancelled (slot_at q (slot f))) xs"
      "filter (\<lambda>f. cancelled (slot_at p (slot f))) ys = filter (\<lambda>f. cancelled (slot_at q (slot f))) ys"
      by (auto intro: filter_cong simp: at)
    then show ?thesis using e(2) unfolding q by (simp add: at)
  qed
  ultimately have P: "tq_ok p" unfolding tq_ok_def h using D by (auto simp: at)
  have gen: "generation (slot_at p j) = generation (slot_at q j)" for j by (simp add: at)
  have N: "names_ok (set (m_heap p)) p ids who" using nm unfolding names_ok_def h gen .
  have nme: "who (seq f) = who (seq e) \<longleftrightarrow> f = e" if "f \<in> set (m_heap q)" for f
  proof
    assume "who (seq f) = who (seq e)"
    then have "make_id (slot f) (generation (slot_at q (slot f))) = make_id (slot e) (generation (slot_at q (slot e)))"
      using nm that e(1) unfolding names_ok_def by (metis option.inject)
    then have "slot f = slot e" by (metis id_index_make)
    with same [OF that] show "f = e" by simp
  qed simp
  have "filter (live p) (m_heap q) = filter (\<lambda>f. f \<noteq> e) (filter (live q) (m_heap q))"
    using same by (auto simp: at intro!: filter_cong)
  then have s: "sort_key key (filter (live p) (m_heap q)) = filter (\<lambda>f. f \<noteq> e) (sort_key key (filter (live q) (m_heap q)))"
    by (simp only: filter_sort)
  have "map (tm p who) (filter (\<lambda>f. f \<noteq> e) es) = filter (\<lambda>t. fst t \<noteq> who (seq e)) (map (tm q who) es)"
    if "set es \<subseteq> set (m_heap q)" for es
    using that
  proof (induction es)
    case (Cons f es)
    then show ?case using nme [of f] same [of f] by (auto simp: tm_def at)
  qed simp
  then have "timers_of p who = filter (\<lambda>t. fst t \<noteq> who (seq e)) (timers_of q who)"
    unfolding timers_of_def h s by simp
  with P N show ?thesis by simp
qed

lemma cancel_ok:
  assumes ok: "tq_ok q" and nm: "names_ok (set (m_heap q)) q ids who" and t: "ids k = Some t"
  shows "tq_ok (tq_cancel t q) \<and> names_ok (set (m_heap (tq_cancel t q))) (tq_cancel t q) ids who
    \<and> timers_of (tq_cancel t q) who = filter (\<lambda>x. fst x \<noteq> k) (timers_of q who)
    \<and> set (m_heap (tq_cancel t q)) \<subseteq> set (m_heap q)
    \<and> m_next_seq (tq_cancel t q) = m_next_seq q \<and> m_waiting (tq_cancel t q) = m_waiting q
    \<and> m_closed (tq_cancel t q) = m_closed q
    \<and> (k \<in> fst ` set (timers_of q who) \<longrightarrow> m_cancelled (tq_cancel t q) < kSweepMinCancelled
        \<or> 2 * m_cancelled (tq_cancel t q) \<le> length (m_heap (tq_cancel t q)))"
proof (cases "\<exists>e\<in>set (m_heap q). live q e \<and> who (seq e) = k")
  case True
  then obtain e where e: "e \<in> set (m_heap q)" "live q e" "who (seq e) = k" by blast
  have t': "t = make_id (slot e) (generation (slot_at q (slot e)))" using nm t e by (auto simp: names_ok_def)
  have l: "unat (slot e) < length (m_slots q)" using slots_ok_used [of _ _ q "slot e"] ok e(1) by (auto simp: tq_ok_def)
  define p where "p = q\<lparr>m_slots := (m_slots q)[unat (slot e) := (slot_at q (slot e))\<lparr>s_waker := None, cancelled := True\<rparr>],
    m_cancelled := m_cancelled q + 1\<rparr>"
  have c: "tq_cancel t q = (if kSweepMinCancelled \<le> m_cancelled p \<and> length (m_heap p) - m_cancelled p < m_cancelled p
      then sweep p else p)"
    using l e(2) by (simp add: tq_cancel_def t' Let_def p_def)
  have P: "tq_ok p" "names_ok (set (m_heap p)) p ids who" "timers_of p who = filter (\<lambda>x. fst x \<noteq> k) (timers_of q who)"
    using mark_ok [OF ok nm e(1,2)] e(3) by (auto simp: p_def)
  have S: "tq_ok (sweep p)" "names_ok (set (m_heap (sweep p))) (sweep p) ids who" "timers_of (sweep p) who = timers_of p who"
    "set (m_heap (sweep p)) \<subseteq> set (m_heap p)" "m_cancelled (sweep p) = 0"
    "sweep p = p\<lparr>m_heap := m_heap (sweep p), m_slots := m_slots (sweep p), m_free_slots := m_free_slots (sweep p),
        m_cancelled := m_cancelled (sweep p)\<rparr>"
    using sweep_ok [OF P(1,2)] by auto
  have f: "m_next_seq (sweep p) = m_next_seq p" "m_waiting (sweep p) = m_waiting p" "m_closed (sweep p) = m_closed p"
    by (subst S(6), simp)+
  have pf: "m_heap p = m_heap q" "m_next_seq p = m_next_seq q" "m_waiting p = m_waiting q" "m_closed p = m_closed q"
    by (simp_all add: p_def)
  show ?thesis
  proof (cases "kSweepMinCancelled \<le> m_cancelled p \<and> length (m_heap p) - m_cancelled p < m_cancelled p")
    case True
    then have "tq_cancel t q = sweep p" by (simp add: c)
    then show ?thesis using P(3) S(1-5) f pf by (simp add: kSweepMinCancelled_def)
  next
    case False
    then have "tq_cancel t q = p" unfolding c by auto
    then show ?thesis using P False pf by auto
  qed
next
  case False
  have no: "k \<noteq> fst x" if "x \<in> set (timers_of q who)" for x
    using timers_of_set [OF that] False by (auto simp: tm_def)
  have "tq_cancel t q = q"
  proof (rule ccontr)
    assume ne: "tq_cancel t q \<noteq> q"
    let ?i = "id_index t"
    have g: "generation (slot_at q ?i) = id_generation t" "\<not> cancelled (slot_at q ?i)"
      using ne by (auto simp: tq_cancel_def Let_def split: if_splits)
    with names_get [OF nm t] obtain e where e: "e \<in> set (m_heap q)" "slot e = ?i" by auto
    then have "ids (who (seq e)) = Some (make_id ?i (id_generation t))" using nm g by (auto simp: names_ok_def)
    moreover have "make_id ?i (id_generation t) = t" by (rule make_id_inverse)
    ultimately have "who (seq e) = k" using nm t by (auto simp: names_ok_def)
    with e g False show False by auto
  qed
  moreover have "filter (\<lambda>x. fst x \<noteq> k) (timers_of q who) = timers_of q who" using no by (auto simp: filter_id_conv)
  moreover have "k \<notin> fst ` set (timers_of q who)" using no by blast
  ultimately show ?thesis using ok nm by simp
qed

section \<open>Closing\<close>

definition t_waker :: "timer \<Rightarrow> waker" where
  "t_waker t = snd (snd (snd t))"

lemma close_entries_ok:
  assumes "slots_ok N (slot ` set es) q" "distinct (map slot es)" "names_ok (set es) q ids who"
    "\<forall>e\<in>set es. live q e \<longrightarrow> s_waker (slot_at q (slot e)) \<noteq> None" "close_entries alive es q = (ws, p)"
  shows "ws = filter alive (map (\<lambda>e. the (s_waker (slot_at q (slot e)))) (filter (live q) es))
    \<and> slots_ok N {} p \<and> names_ok {} p ids who \<and> p = q\<lparr>m_slots := m_slots p, m_free_slots := m_free_slots p\<rparr>"
  using assms
proof (induction es arbitrary: q ws)
  case (Cons e es)
  let ?q = "free_slot (slot e) q" and ?U = "slot ` set (e # es)"
  have sl: "slot e \<in> ?U" "slot e \<notin> slot ` set es" using Cons.prems(2) by auto
  have l: "unat (slot e) < length (m_slots q)" using Cons.prems(1) sl(1) by (rule slots_ok_used)
  have "slots_ok N (?U - {slot e}) ?q" using Cons.prems(1) sl(1) by (rule free_slot_ok)
  moreover have "?U - {slot e} = slot ` set es" using sl by auto
  ultimately have S: "slots_ok N (slot ` set es) ?q" by simp
  have N: "names_ok (set es) ?q ids who"
    by (rule names_free [OF Cons.prems(1) sl]) (use Cons.prems(3) in simp)
  have at: "slot_at ?q (slot f) = slot_at q (slot f)" if "f \<in> set es" for f
    using sl(2) that l by (simp add: free_slot_at) (metis image_eqI)
  obtain vs where c: "close_entries alive es ?q = (vs, p)"
    "ws = (if live q e then filter alive (wake_opt (s_waker (slot_at q (slot e)))) else []) @ vs"
    using Cons.prems(5) by (auto simp: Let_def split: prod.splits if_splits)
  have m: "map (\<lambda>e. the (s_waker (slot_at ?q (slot e)))) (filter (live ?q) es)
      = map (\<lambda>e. the (s_waker (slot_at q (slot e)))) (filter (live q) es)"
    using at by (auto intro!: map_cong filter_cong)
  have "vs = filter alive (map (\<lambda>e. the (s_waker (slot_at ?q (slot e)))) (filter (live ?q) es))
    \<and> slots_ok N {} p \<and> names_ok {} p ids who \<and> p = ?q\<lparr>m_slots := m_slots p, m_free_slots := m_free_slots p\<rparr>"
    using Cons.prems(2,4) at by (intro Cons.IH [OF S _ N _ c(1)]) auto
  then show ?case using c(2) Cons.prems(4) m by (auto simp: free_slot_def)
qed (auto simp: slots_ok_def)

lemma close_ok:
  assumes ok: "tq_ok q" and nm: "names_ok (set (m_heap q)) q ids who"
    and c: "close_and_wake_all alive q = (ws, p)"
  shows "tq_ok p \<and> names_ok (set (m_heap p)) p ids who \<and> m_heap p = [] \<and> m_closed p
    \<and> mset ws = mset (filter alive (map t_waker (timers_of q who)))
    \<and> m_next_seq p = m_next_seq q \<and> m_waiting p = m_waiting q"
proof -
  note D = ok [unfolded tq_ok_def]
  let ?q = "q\<lparr>m_closed := True\<rparr>"
  obtain p1 where e: "close_entries alive (m_heap q) ?q = (ws, p1)" "p = p1\<lparr>m_heap := [], m_cancelled := 0\<rparr>"
    using c by (auto simp: close_and_wake_all_def split: prod.splits)
  have at: "slot_at ?q i = slot_at q i" for i by (simp add: slot_at_def)
  have "ws = filter alive (map (\<lambda>e. the (s_waker (slot_at q (slot e)))) (filter (live q) (m_heap q)))"
    and P: "slots_ok (m_next_seq q) {} p1" "names_ok {} p1 ids who"
      "p1 = ?q\<lparr>m_slots := m_slots p1, m_free_slots := m_free_slots p1\<rparr>"
    using close_entries_ok [of "m_next_seq q" "m_heap q" ?q ids who alive ws p1] D nm e(1)
      slots_ok_cong [of "m_next_seq q" _ q ?q] names_ok_cong [of _ q ids who ?q] by (auto simp: at)
  moreover have "map (\<lambda>e. the (s_waker (slot_at q (slot e)))) es = map t_waker (map (tm q who) es)" for es
    by (simp add: t_waker_def tm_def)
  ultimately have "mset ws = mset (filter alive (map t_waker (timers_of q who)))"
    by (simp add: timers_of_def)
  moreover have "slots_ok (m_next_seq q) {} p" "names_ok {} p ids who"
    using slots_ok_cong [OF P(1), of p] names_ok_cong [OF P(2), of p] by (simp_all add: e(2))
  moreover have "m_next_seq p = m_next_seq q" "m_waiting p = m_waiting q" "m_closed p" "m_heap p = []" "m_cancelled p = 0"
    by (subst e(2), subst P(3), simp)+
  ultimately show ?thesis by (simp add: tq_ok_def heap_from_def)
qed

section \<open>Sequences of calls\<close>

datatype t_op =
    TInsert nat int waker          \<comment> \<open>the client keeps the id under a name of its own\<close>
  | TCancel nat
  | TBeginWait int "int option"
  | TEndWait
  | TFire "waker \<Rightarrow> bool" bool int  \<comment> \<open>one critical section of \<^verbatim>\<open>fire_expired\<close>\<close>
  | TClose "waker \<Rightarrow> bool"

datatype t_out =
    TSkip | TDone
  | TInserted bool bool             \<comment> \<open>unpark, closed\<close>
  | TWait "int option"
  | TFired "waker list"
  | TClosed "waker list"

text \<open>
  \<open>promise\<close> is what the thread between \<^verbatim>\<open>begin_wait\<close> and \<^verbatim>\<open>end_wait\<close> relies on: the instant
  its wait ends, \<open>None\<close> if it never does; \<open>told\<close> whether an insert has asked to unpark it since.
\<close>

record t_sys =
  tq :: tqueue
  ids :: "nat \<rightharpoonup> TimerId"
  who :: "nat \<Rightarrow> nat"
  promise :: "int option"
  told :: bool

definition t_init :: t_sys where
  "t_init = \<lparr>tq = tq_new, ids = Map.empty, who = (\<lambda>_. 0), promise = None, told = False\<rparr>"

text \<open>A client makes fewer than $2^{32} - 1$ timers, each under a new name.\<close>

fun t_exec :: "t_op \<Rightarrow> t_sys \<Rightarrow> t_out \<times> t_sys" where
  "t_exec (TInsert k d w) s =
     (if ids s k \<noteq> None \<or> 2 ^ 32 \<le> m_next_seq (tq s) + 1 then (TSkip, s)
      else (let (r, q) = tq_insert d w (tq s) in
        (TInserted (unpark r) (ins_closed r),
         if ins_closed r then s
         else s\<lparr>tq := q, ids := (ids s)(k \<mapsto> ins_id r), who := (who s)(m_next_seq (tq s) := k),
                told := (told s \<or> unpark r)\<rparr>)))"
| "t_exec (TCancel k) s =
     (case ids s k of None \<Rightarrow> (TSkip, s) | Some t \<Rightarrow> (TDone, s\<lparr>tq := tq_cancel t (tq s)\<rparr>))"
| "t_exec (TBeginWait now mw) s =
     (let (r, q) = begin_wait now mw (tq s) in
      (TWait r, if r = Some 0 then s\<lparr>tq := q\<rparr>
        else s\<lparr>tq := q, promise := map_option (\<lambda>x. now + x) r, told := False\<rparr>))"
| "t_exec TEndWait s = (TDone, s\<lparr>tq := end_wait (tq s)\<rparr>)"
| "t_exec (TFire alive ew now) s =
     (let q = (if ew then end_wait (tq s) else tq s) in
      if m_heap q = [] then (TFired [], s\<lparr>tq := q\<rparr>)
      else (let (ws, again, q) = fire_due alive now 0 q in (TFired ws, s\<lparr>tq := q\<rparr>)))"
| "t_exec (TClose alive) s =
     (let (ws, q) = close_and_wake_all alive (tq s) in (TClosed ws, s\<lparr>tq := q\<rparr>))"

text \<open>
  What the client is promised: a list of the timers pending, by deadline and, for equal deadlines,
  by insertion. How long to wait and when to unpark is the matter of a property of its own.
\<close>

datatype t_obs = OSkip | ODone | OInserted bool | OWait | OFired "waker list" | OClosed "waker multiset"

fun observe :: "t_out \<Rightarrow> t_obs" where
  "observe TSkip = OSkip"
| "observe TDone = ODone"
| "observe (TInserted u c) = OInserted c"
| "observe (TWait x) = OWait"
| "observe (TFired ws) = OFired ws"
| "observe (TClosed ws) = OClosed (mset ws)"

record t_spec =
  pending :: "timer list"
  made :: nat
  names :: "nat set"
  shut :: bool

definition ts_init :: t_spec where
  "ts_init = \<lparr>pending = [], made = 0, names = {}, shut = False\<rparr>"

fun ts_exec :: "t_op \<Rightarrow> t_spec \<Rightarrow> t_obs \<times> t_spec" where
  "ts_exec (TInsert k d w) a =
     (if k \<in> names a \<or> 2 ^ 32 \<le> made a + 1 then (OSkip, a)
      else if shut a then (OInserted True, a)
      else (OInserted False, a\<lparr>pending := insort_key tkey (k, d, made a, w) (pending a), made := made a + 1,
              names := insert k (names a)\<rparr>))"
| "ts_exec (TCancel k) a =
     (if k \<notin> names a then (OSkip, a)
      else (ODone, a\<lparr>pending := filter (\<lambda>t. fst t \<noteq> k) (pending a)\<rparr>))"
| "ts_exec (TBeginWait now mw) a = (OWait, a)"
| "ts_exec TEndWait a = (ODone, a)"
| "ts_exec (TFire alive ew now) a =
     (let (ws, ts) = s_fire alive now 0 (pending a) in (OFired ws, a\<lparr>pending := ts\<rparr>))"
| "ts_exec (TClose alive) a =
     (OClosed (mset (filter alive (map t_waker (pending a)))), a\<lparr>pending := [], shut := True\<rparr>)"

definition t_abs :: "t_sys \<Rightarrow> t_spec" where
  "t_abs s = \<lparr>pending = timers_of (tq s) (who s), made = m_next_seq (tq s), names = dom (ids s), shut = m_closed (tq s)\<rparr>"

text \<open>
  A waiter that has not been told to unpark sleeps no longer than to the earliest deadline, the
  cancelled ones included.
\<close>

definition t_inv :: "t_sys \<Rightarrow> bool" where
  "t_inv s \<longleftrightarrow> tq_ok (tq s) \<and> names_ok (set (m_heap (tq s))) (tq s) (ids s) (who s)
     \<and> (m_waiting (tq s) \<and> \<not> told s \<longrightarrow>
          (\<forall>e\<in>set (m_heap (tq s)). \<exists>T. promise s = Some T \<and> T \<le> deadline e))"

definition t_good :: "t_op \<Rightarrow> t_sys \<Rightarrow> bool" where
  "t_good op s \<longleftrightarrow> t_inv (snd (t_exec op s))
     \<and> ts_exec op (t_abs s) = (observe (fst (t_exec op s)), t_abs (snd (t_exec op s)))"

lemma good_insert:
  assumes inv: "t_inv s"
  shows "t_good (TInsert k d w) s"
proof (cases "ids s k \<noteq> None \<or> 2 ^ 32 \<le> m_next_seq (tq s) + 1 \<or> m_closed (tq s)")
  case True
  with inv show ?thesis by (auto simp: t_good_def t_abs_def tq_insert_def)
next
  case False
  let ?q = "tq s"
  obtain r p where i: "tq_insert d w ?q = (r, p)" by force
  have I: "tq_ok p" "names_ok (set (m_heap p)) p ((ids s)(k \<mapsto> ins_id r)) ((who s)(m_next_seq ?q := k))"
    "timers_of p ((who s)(m_next_seq ?q := k)) = insort_key tkey (k, d, m_next_seq ?q, w) (timers_of ?q (who s))"
    "\<not> ins_closed r" "unpark r = (m_waiting ?q \<and> (m_heap ?q = [] \<or> d < deadline (hd (m_heap ?q))))"
    "m_next_seq p = Suc (m_next_seq ?q)" "m_waiting p = m_waiting ?q" "m_closed p = m_closed ?q"
    "set (m_heap p) = insert \<lparr>deadline = d, seq = m_next_seq ?q, slot = id_index (ins_id r)\<rparr> (set (m_heap ?q))"
    using insert_ok [OF _ _ _ _ _ i, of "ids s" "who s" k] inv False by (auto simp: t_inv_def)
  have e: "t_exec (TInsert k d w) s = (TInserted (unpark r) False,
      s\<lparr>tq := p, ids := (ids s)(k \<mapsto> ins_id r), who := (who s)(m_next_seq ?q := k), told := (told s \<or> unpark r)\<rparr>)"
    using False I(4) i by simp
  have "\<exists>T. promise s = Some T \<and> T \<le> deadline f" if f: "m_waiting p" "\<not> told s" "\<not> unpark r" "f \<in> set (m_heap p)" for f
  proof -
    have h: "m_heap ?q \<noteq> []" "deadline (hd (m_heap ?q)) \<le> d" using I(5,7) f by auto
    have w: "\<exists>T. promise s = Some T \<and> T \<le> deadline g" if "g \<in> set (m_heap ?q)" for g
      using inv that I(7) f(1,2) by (auto simp: t_inv_def)
    from w [OF hd_in_set [OF h(1)]] h(2) I(9) f(4) w [of f] show ?thesis by auto
  qed
  then have "t_inv (snd (t_exec (TInsert k d w) s))" unfolding e using I(1,2) by (simp add: t_inv_def)
  moreover have "ts_exec (TInsert k d w) (t_abs s) = (observe (fst (t_exec (TInsert k d w) s)), t_abs (snd (t_exec (TInsert k d w) s)))"
    unfolding e using False I(3,6,8) by (auto simp: t_abs_def)
  ultimately show ?thesis by (simp only: t_good_def)
qed

lemma good_cancel:
  assumes inv: "t_inv s"
  shows "t_good (TCancel k) s"
proof (cases "ids s k")
  case (Some t)
  have C: "tq_ok (tq_cancel t (tq s))" "names_ok (set (m_heap (tq_cancel t (tq s)))) (tq_cancel t (tq s)) (ids s) (who s)"
    "timers_of (tq_cancel t (tq s)) (who s) = filter (\<lambda>x. fst x \<noteq> k) (timers_of (tq s) (who s))"
    "set (m_heap (tq_cancel t (tq s))) \<subseteq> set (m_heap (tq s))" "m_next_seq (tq_cancel t (tq s)) = m_next_seq (tq s)"
    "m_waiting (tq_cancel t (tq s)) = m_waiting (tq s)" "m_closed (tq_cancel t (tq s)) = m_closed (tq s)"
    using cancel_ok [of "tq s" "ids s" "who s" k t] inv Some by (auto simp: t_inv_def)
  then show ?thesis using inv Some by (auto simp: t_good_def t_inv_def t_abs_def)
qed (use inv in \<open>auto simp: t_good_def t_abs_def\<close>)

lemma waiting_only:
  "tq_ok q \<Longrightarrow> tq_ok (q\<lparr>m_waiting := b\<rparr>)" "names_ok E q is wh \<Longrightarrow> names_ok E (q\<lparr>m_waiting := b\<rparr>) is wh"
  "timers_of (q\<lparr>m_waiting := b\<rparr>) wh = timers_of q wh"
  by (auto simp: tq_ok_def slots_ok_def names_ok_def timers_of_def slot_at_def tm_def)

lemma good_wait:
  assumes inv: "t_inv s"
  shows "t_good (TBeginWait now mw) s" "t_good TEndWait s"
proof -
  show "t_good TEndWait s" using inv by (simp add: t_good_def t_inv_def t_abs_def end_wait_def waiting_only)
  have least: "deadline (hd (m_heap (tq s))) \<le> deadline e" if "e \<in> set (m_heap (tq s))" for e
    using heap_hd_least [of key "m_heap (tq s)" e] inv that by (auto simp: t_inv_def tq_ok_def key_def less_eq_prod_def)
  show "t_good (TBeginWait now mw) s"
  proof (cases "case mw of Some m \<Rightarrow> m \<le> 0 | None \<Rightarrow> False")
    case True
    then have "begin_wait now mw (tq s) = (Some 0, tq s)" by (simp add: begin_wait_def)
    with inv show ?thesis by (simp add: t_good_def t_abs_def)
  next
    case False
    obtain r p where b: "begin_wait now mw (tq s) = (r, p)" by force
    with False have p: "p = (tq s)\<lparr>m_waiting := (r \<noteq> Some 0)\<rparr>"
      by (auto simp: begin_wait_def Let_def split: option.splits if_splits)
    have "\<exists>T. map_option (\<lambda>x. now + x) r = Some T \<and> T \<le> deadline e" if "r \<noteq> Some 0" "e \<in> set (m_heap (tq s))" for e
      using b False least [OF that(2)] that
      by (cases "m_heap (tq s)") (auto simp: begin_wait_def Let_def split: option.splits if_splits)
    then show ?thesis using inv b by (auto simp: t_good_def t_inv_def t_abs_def p waiting_only)
  qed
qed

lemma good_fire:
  assumes inv: "t_inv s"
  shows "t_good (TFire alive ew now) s"
proof -
  define q where "q = (if ew then end_wait (tq s) else tq s)"
  have Q: "tq_ok q" "names_ok (set (m_heap q)) q (ids s) (who s)" "timers_of q (who s) = timers_of (tq s) (who s)"
    "m_heap q = m_heap (tq s)" "m_next_seq q = m_next_seq (tq s)" "m_closed q = m_closed (tq s)" "m_waiting q \<Longrightarrow> m_waiting (tq s)"
    using inv by (auto simp: q_def t_inv_def end_wait_def waiting_only split: if_splits)
  show ?thesis
  proof (cases "m_heap q = []")
    case True
    have e: "t_exec (TFire alive ew now) s = (TFired [], s\<lparr>tq := q\<rparr>)" using True by (simp add: q_def Let_def)
    have "timers_of (tq s) (who s) = []" using True Q(4) by (simp add: timers_of_def)
    then show ?thesis unfolding t_good_def e using Q True by (auto simp: t_inv_def t_abs_def)
  next
    case False
    obtain ws again p where f: "fire_due alive now 0 q = (ws, again, p)" by (metis prod_cases3)
    have e: "t_exec (TFire alive ew now) s = (TFired ws, s\<lparr>tq := p\<rparr>)" using False f by (simp add: q_def Let_def)
    have F: "tq_ok p" "names_ok (set (m_heap p)) p (ids s) (who s)"
      "s_fire alive now 0 (timers_of q (who s)) = (ws, timers_of p (who s))" "set (m_heap p) \<subseteq> set (m_heap q)"
      "p = q\<lparr>m_heap := m_heap p, m_slots := m_slots p, m_free_slots := m_free_slots p, m_cancelled := m_cancelled p\<rparr>"
      using fire_due_ok [OF Q(1,2) f] by auto
    have "m_next_seq p = m_next_seq q" "m_closed p = m_closed q" "m_waiting p = m_waiting q" by (subst F(5), simp)+
    then show ?thesis unfolding t_good_def e using F(1-4) Q inv by (auto simp: t_inv_def t_abs_def)
  qed
qed

lemma good_close:
  assumes inv: "t_inv s"
  shows "t_good (TClose alive) s"
proof -
  obtain ws p where c: "close_and_wake_all alive (tq s) = (ws, p)" by force
  have "tq_ok p" "names_ok (set (m_heap p)) p (ids s) (who s)" "m_heap p = []" "m_closed p"
    "mset ws = mset (filter alive (map t_waker (timers_of (tq s) (who s))))" "m_next_seq p = m_next_seq (tq s)"
    using close_ok [OF _ _ c] inv by (auto simp: t_inv_def)
  then show ?thesis using c by (auto simp: t_good_def t_inv_def t_abs_def timers_of_def)
qed

lemma t_exec_good: "t_inv s \<Longrightarrow> t_good op s"
  by (cases op) (simp_all only: good_insert good_cancel good_wait good_fire good_close)

lemma t_init_inv: "t_inv t_init" "t_abs t_init = ts_init"
  by (auto simp: t_init_def t_inv_def tq_new_def tq_ok_def slots_ok_def heap_from_def names_ok_def
      t_abs_def ts_init_def timers_of_def)

interpretation tms: op_refinement t_init t_exec t_inv ts_init ts_exec t_abs observe
  by unfold_locales (simp_all add: t_init_inv t_exec_good [unfolded t_good_def])

section \<open>The whole loop of \<^verbatim>\<open>fire_expired\<close>\<close>

lemma t_waker_simp: "t_waker (k, d, n, w) = w"
  by (simp add: t_waker_def)

lemma s_fire_due:
  "s_fire alive now c ts = (ws, r) \<Longrightarrow> \<exists>us. ts = us @ r \<and> ws = filter alive (map t_waker us)
     \<and> (\<forall>(k, d, n, w)\<in>set us. d \<le> now)"
proof (induction alive now c ts arbitrary: ws r rule: s_fire.induct)
  case (2 alive now c k d n w ts)
  show ?case
  proof (cases "d \<le> now \<and> c \<noteq> kBatch")
    case True
    obtain vs r' where f: "s_fire alive now (if alive w then c + 1 else c) ts = (vs, r')" by force
    obtain us where "ts = us @ r'" "vs = filter alive (map t_waker us)" "\<forall>(k, d, n, w)\<in>set us. d \<le> now"
      using "2.IH" [OF True f] by blast
    then show ?thesis using "2.prems" True f
      by (intro exI [of _ "(k, d, n, w) # us"]) (auto simp: t_waker_simp split: if_splits)
  qed (use "2.prems" in auto)
qed simp

lemma fire_expired_ok:
  assumes "tq_ok q" "names_ok (set (m_heap q)) q is wh" "mono clock" "fire_expired alive ew clock i q = (ws, p)"
  shows "tq_ok p \<and> (\<exists>j\<ge>i. \<exists>us. timers_of q wh = us @ timers_of p wh \<and> ws = filter alive (map t_waker us)
    \<and> (\<forall>(k, d, n, w)\<in>set us. d \<le> clock j) \<and> (\<forall>e\<in>set (m_heap p). clock j < deadline e))"
  using assms
proof (induction alive ew clock i q arbitrary: ws rule: fire_expired.induct)
  case (1 alive ew clock i q)
  define q' where "q' = (if ew then q\<lparr>m_waiting := False\<rparr> else q)"
  note eq = fire_expired.simps [of alive ew clock i q, folded q'_def]
  have Q: "tq_ok q'" "names_ok (set (m_heap q')) q' is wh" "timers_of q' wh = timers_of q wh"
    using "1.prems"(1,2) by (auto simp: q'_def waiting_only)
  show ?case
  proof (cases "m_heap q' = []")
    case True
    then have "ws = []" "p = q'" using "1.prems"(4) by (auto simp: eq)
    then show ?thesis using True Q by (auto simp: timers_of_def intro!: exI [of _ i])
  next
    case False
    obtain vs again p1 where f: "fire_due alive (clock i) 0 q' = (vs, again, p1)" by (metis prod_cases3)
    have F: "tq_ok p1" "names_ok (set (m_heap p1)) p1 is wh"
      "s_fire alive (clock i) 0 (timers_of q wh) = (vs, timers_of p1 wh)"
      "\<not> again \<Longrightarrow> \<forall>e\<in>set (m_heap p1). clock i < deadline e"
      using fire_due_ok [OF Q(1,2) f] Q(3) by auto
    obtain us where us: "timers_of q wh = us @ timers_of p1 wh" "vs = filter alive (map t_waker us)"
      "\<forall>(k, d, n, w)\<in>set us. d \<le> clock i" using s_fire_due [OF F(3)] by blast
    show ?thesis
    proof (cases again)
      case True
      obtain xs where x: "fire_expired alive ew clock (i + 1) p1 = (xs, p)" "ws = vs @ xs"
        using "1.prems"(4) False f True by (auto simp: eq Let_def split: prod.splits)
      obtain j us' where j: "tq_ok p" "i + 1 \<le> j" "timers_of p1 wh = us' @ timers_of p wh"
        "xs = filter alive (map t_waker us')" "\<forall>(k, d, n, w)\<in>set us'. d \<le> clock j"
        "\<forall>e\<in>set (m_heap p). clock j < deadline e"
        using "1.IH" [OF q'_def False f [symmetric] refl _ F(1,2) "1.prems"(3) x(1)] True by blast
      have "clock i \<le> clock j" using "1.prems"(3) j(2) by (simp add: mono_def)
      then show ?thesis using j us x(2)
        by (intro conjI exI [of _ j] exI [of _ "us @ us'"]) (force dest: order_trans)+
    next
      case no: False
      then have "ws = vs" "p = p1" using "1.prems"(4) False f by (auto simp: eq Let_def)
      then show ?thesis using F us no by blast
    qed
  qed
qed

section \<open>Properties\<close>

definition t_demo :: t_sys where
  "t_demo = snd (run_ops t_exec [TInsert 1 5 7, TBeginWait 0 None] t_init)"

lemma t_demo_eq:
  "m_heap (tq t_demo) = [\<lparr>deadline = 5, seq = 0, slot = 0\<rparr>]" "m_waiting (tq t_demo)" "\<not> told t_demo"
  "ids t_demo 1 = Some (make_id 0 0)" "timers_of (tq t_demo) (who t_demo) = [(1, 5, 0, 7)]"
  by (simp_all add: t_demo_def t_init_def tq_new_def tq_insert_def take_slot_def slot_at_def push_heap_def
      sift_up.simps begin_wait_def Let_def timers_of_def tm_def)

text \<open>
  C17. The queue is the list of its pending timers: every sequence of inserts, cancels, waits, firing
  sections and closes gives what the list gives, sorted by deadline and insertion. A timer's id
  cancels that timer and no other, however often its slot is used again; cancelled timers never
  fire, and closing wakes exactly those still pending.
\<close>
theorem timer_queue_refines_list:
  "run_ops ts_exec ops ts_init = (map observe (fst (run_ops t_exec ops t_init)), t_abs (snd (run_ops t_exec ops t_init)))"
  by (rule tms.run_abst)

text \<open>
  C18. \<^verbatim>\<open>fire_expired\<close> returns, for any readings of a monotonic clock, and then no timer due at its
  last reading is left: it has woken, in the order of the list, the tasks still alive of a first part
  of the list, all due, and the heap holds only later deadlines.
\<close>
theorem fire_expired_complete:
  assumes "s = snd (run_ops t_exec ops t_init)" "mono clock"
  shows "\<exists>ws p j us. fire_expired alive ew clock 0 (tq s) = (ws, p)
    \<and> timers_of (tq s) (who s) = us @ timers_of p (who s) \<and> ws = filter alive (map t_waker us)
    \<and> (\<forall>(k, d, n, w)\<in>set us. d \<le> clock j) \<and> (\<forall>e\<in>set (m_heap p). clock j < deadline e)"
proof -
  have inv: "t_inv s" unfolding assms(1) by (rule tms.run_inv)
  obtain ws p where f: "fire_expired alive ew clock 0 (tq s) = (ws, p)" by force
  show ?thesis using fire_expired_ok [OF _ _ assms(2) f] inv f unfolding t_inv_def by blast
qed

theorem fire_expired_complete_witness:
  "mono (\<lambda>_ :: nat. 6 :: int) \<and> (\<exists>ws p us. fire_expired (\<lambda>_. True) False (\<lambda>_. 6) 0 (tq t_demo) = (ws, p)
    \<and> [(1, 5, 0, 7)] = us @ timers_of p (who t_demo) \<and> ws = map t_waker us)"
proof -
  have m: "mono (\<lambda>_ :: nat. 6 :: int)" by (simp add: mono_def)
  from fire_expired_complete [OF t_demo_def m, of "\<lambda>_. True" False] obtain ws p us where
    "fire_expired (\<lambda>_. True) False (\<lambda>_. 6) 0 (tq t_demo) = (ws, p)"
    "timers_of (tq t_demo) (who t_demo) = us @ timers_of p (who t_demo)" "ws = map t_waker us" by auto
  with m show ?thesis unfolding t_demo_eq(5) by blast
qed

text \<open>
  C19. A thread that sleeps between \<^verbatim>\<open>begin_wait\<close> and \<^verbatim>\<open>end_wait\<close> never sleeps past a timer:
  after any sequence of calls, if no insert has reported \<^verbatim>\<open>unpark\<close> since, its wait is bounded and
  ends no later than every deadline in the queue.
\<close>
theorem timer_waiter_not_late:
  assumes "s = snd (run_ops t_exec ops t_init)" "m_waiting (tq s)" "\<not> told s" "e \<in> set (m_heap (tq s))"
  shows "\<exists>T. promise s = Some T \<and> T \<le> deadline e"
proof -
  have "t_inv s" unfolding assms(1) by (rule tms.run_inv)
  then show ?thesis using assms(2-4) by (simp add: t_inv_def)
qed

theorem timer_waiter_not_late_witness:
  "m_waiting (tq t_demo) \<and> (\<exists>T. promise t_demo = Some T \<and> T \<le> 5)"
  using timer_waiter_not_late [OF t_demo_def t_demo_eq(2,3), of "\<lparr>deadline = 5, seq = 0, slot = 0\<rparr>"] t_demo_eq(1,2) by simp



end
