(* ===== verification/Ring_Buffer.thy ===== *)
theory Ring_Buffer
  imports Prelude
begin

text \<open>
  \<^verbatim>\<open>include/coro/io/ring_buffer.h\<close>: the bounded queue of decoded packets. A ring is read as the
  list of its elements from the read position on; the ring lemmas are shared with the ring of raw
  bytes in \<^verbatim>\<open>Byte_Source\<close>. The buffer refines a bounded first-in first-out list.
\<close>

section \<open>Rings\<close>

definition ring_view :: "'a list \<Rightarrow> nat \<Rightarrow> nat \<Rightarrow> 'a list" where
  "ring_view b r n = map (\<lambda>i. b ! ((r + i) mod length b)) [0..<n]"

named_theorems ring_simps \<open>facts on the view of a ring as a list\<close>

lemma length_ring_view [simp, ring_simps]: "length (ring_view b r n) = n"
  by (simp add: ring_view_def)

lemma ring_view_0 [simp]: "ring_view b r 0 = []"
  by (simp add: ring_view_def)

lemma ring_view_Suc: "ring_view b r (Suc n) = ring_view b r n @ [b ! ((r + n) mod length b)]"
  by (simp add: ring_view_def)

lemma ring_view_add: "ring_view b r (m + n) = ring_view b r m @ ring_view b (r + m) n"
  by (rule nth_equalityI) (auto simp: ring_view_def nth_append add.assoc)

lemma ring_view_mod [ring_simps]: "ring_view b (r mod length b) n = ring_view b r n"
  by (simp add: ring_view_def mod_add_left_eq)

lemma ring_view_shift: "0 < n \<Longrightarrow> ring_view b r n = b ! (r mod length b) # ring_view b (Suc r) (n - 1)"
  using ring_view_add [of b r 1 "n - 1"] by (simp add: ring_view_def)

lemma ring_view_contiguous:
  assumes "r + n \<le> length b"
  shows "ring_view b r n = take n (drop r b)"
  using assms by (intro nth_equalityI) (auto simp: ring_view_def)

text \<open>A write to a slot outside the view leaves the view as it was.\<close>

lemma ring_view_update:
  assumes "\<And>i. i < n \<Longrightarrow> (r + i) mod length b \<noteq> j"
  shows "ring_view (b[j := x]) r n = ring_view b r n"
proof -
  have "b[j := x] ! ((r + i) mod length b) = b ! ((r + i) mod length b)" if "i < n" for i
    using assms [OF that] by (metis nth_list_update_neq)
  then show ?thesis by (simp add: ring_view_def)
qed

lemma slots_apart:
  fixes r i j c :: nat
  assumes "i < j" "j < c"
  shows "(r + i) mod c \<noteq> (r + j) mod c"
proof
  assume "(r + i) mod c = (r + j) mod c"
  then have "c dvd (r + j) - (r + i)" using assms by (metis mod_eq_dvd_iff_nat nat_add_left_cancel_le less_imp_le)
  with assms show False by (auto dest: dvd_imp_le)
qed

section \<open>The ring buffer of packets\<close>

record 'a ring_buffer =
  m_buffer :: "'a option list"
  m_read_pos :: nat
  m_write_pos :: nat
  m_size :: nat

definition rb_new :: "nat \<Rightarrow> 'a ring_buffer" where
  "rb_new capacity = \<lparr>m_buffer = replicate capacity None, m_read_pos = 0, m_write_pos = 0, m_size = 0\<rparr>"

definition rb_push :: "'a \<Rightarrow> 'a ring_buffer \<Rightarrow> bool \<times> 'a ring_buffer" where
  "rb_push item b =
     (if m_size b = length (m_buffer b) then (False, b)
      else (True, b\<lparr>m_buffer := (m_buffer b)[m_write_pos b := Some item],
             m_write_pos := (m_write_pos b + 1) mod length (m_buffer b), m_size := m_size b + 1\<rparr>))"

definition rb_pop :: "'a ring_buffer \<Rightarrow> 'a option \<times> 'a ring_buffer" where
  "rb_pop b =
     (if m_size b = 0 then (None, b)
      else (m_buffer b ! m_read_pos b,
            b\<lparr>m_buffer := (m_buffer b)[m_read_pos b := None],
              m_read_pos := (m_read_pos b + 1) mod length (m_buffer b), m_size := m_size b - 1\<rparr>))"

definition rb_full :: "'a ring_buffer \<Rightarrow> bool" where
  "rb_full b \<longleftrightarrow> m_size b = length (m_buffer b)"

definition rb_empty :: "'a ring_buffer \<Rightarrow> bool" where
  "rb_empty b \<longleftrightarrow> m_size b = 0"

definition rb_size :: "'a ring_buffer \<Rightarrow> nat" where
  "rb_size b = m_size b"

definition rb_capacity :: "'a ring_buffer \<Rightarrow> nat" where
  "rb_capacity b = length (m_buffer b)"

definition rb_clear :: "'a ring_buffer \<Rightarrow> 'a ring_buffer" where
  "rb_clear b = b\<lparr>m_buffer := map (\<lambda>_. None) (m_buffer b), m_read_pos := 0, m_write_pos := 0, m_size := 0\<rparr>"

text \<open>The slots of the view hold values and every other slot is empty.\<close>

definition rb_view :: "'a ring_buffer \<Rightarrow> 'a option list" where
  "rb_view b = ring_view (m_buffer b) (m_read_pos b) (m_size b)"

definition rb_ok :: "'a ring_buffer \<Rightarrow> bool" where
  "rb_ok b \<longleftrightarrow> m_size b \<le> length (m_buffer b) \<and> None \<notin> set (rb_view b)
     \<and> (m_buffer b = [] \<and> m_read_pos b = 0 \<and> m_write_pos b = 0 \<or> m_read_pos b < length (m_buffer b)
        \<and> m_write_pos b = (m_read_pos b + m_size b) mod length (m_buffer b)
        \<and> (\<forall>i. m_size b \<le> i \<longrightarrow> i < length (m_buffer b) \<longrightarrow>
             m_buffer b ! ((m_read_pos b + i) mod length (m_buffer b)) = None))"

datatype 'a rb_op = RPush 'a | RPop | RClear | RAsk

datatype 'a rb_out = RPushed bool | RPopped "'a option" | RCleared | RAnswer bool bool nat nat

fun rb_exec :: "'a rb_op \<Rightarrow> 'a ring_buffer \<Rightarrow> 'a rb_out \<times> 'a ring_buffer" where
  "rb_exec (RPush x) b = (let (r, b) = rb_push x b in (RPushed r, b))"
| "rb_exec RPop b = (let (r, b) = rb_pop b in (RPopped r, b))"
| "rb_exec RClear b = (RCleared, rb_clear b)"
| "rb_exec RAsk b = (RAnswer (rb_full b) (rb_empty b) (rb_size b) (rb_capacity b), b)"

text \<open>The reference: a list of at most \<open>cap\<close> elements.\<close>

fun fifo_exec :: "'a rb_op \<Rightarrow> nat \<times> 'a list \<Rightarrow> 'a rb_out \<times> nat \<times> 'a list" where
  "fifo_exec (RPush x) (cap, xs) =
     (if length xs = cap then (RPushed False, cap, xs) else (RPushed True, cap, xs @ [x]))"
| "fifo_exec RPop (cap, xs) = (case xs of [] \<Rightarrow> (RPopped None, cap, []) | x # xs \<Rightarrow> (RPopped (Some x), cap, xs))"
| "fifo_exec RClear (cap, xs) = (RCleared, cap, [])"
| "fifo_exec RAsk (cap, xs) = (RAnswer (length xs = cap) (xs = []) (length xs) cap, cap, xs)"

definition rb_abs :: "'a ring_buffer \<Rightarrow> nat \<times> 'a list" where
  "rb_abs b = (length (m_buffer b), map the (rb_view b))"

lemma rb_push_ok:
  assumes ok: "rb_ok b" and room: "m_size b < length (m_buffer b)"
  shows "rb_ok (snd (rb_push x b)) \<and> rb_view (snd (rb_push x b)) = rb_view b @ [Some x]"
proof -
  let ?c = "length (m_buffer b)" and ?r = "m_read_pos b" and ?n = "m_size b"
  let ?j = "(?r + ?n) mod ?c"
  have b: "?r < ?c" "m_write_pos b = ?j" "None \<notin> set (rb_view b)"
    "\<And>i. ?n \<le> i \<Longrightarrow> i < ?c \<Longrightarrow> m_buffer b ! ((?r + i) mod ?c) = None"
    using ok room by (auto simp: rb_ok_def)
  have j: "?j < ?c" using room by (intro mod_less_divisor) linarith
  have "ring_view ((m_buffer b)[?j := Some x]) ?r ?n = rb_view b"
    unfolding rb_view_def by (rule ring_view_update) (use slots_apart [of _ ?n ?c ?r] room in auto)
  then have v: "rb_view (snd (rb_push x b)) = rb_view b @ [Some x]"
    using room b(2) j by (simp add: rb_push_def rb_view_def ring_view_Suc)
  have "(m_buffer b)[?j := Some x] ! ((?r + i) mod ?c) = None" if "Suc ?n \<le> i" "i < ?c" for i
    using that b(4) [of i] slots_apart [of ?n i ?c ?r] by auto
  with ok room b v show ?thesis by (auto simp: rb_ok_def rb_push_def mod_Suc_eq)
qed

lemma rb_pop_ok:
  assumes ok: "rb_ok b" and some: "0 < m_size b"
  shows "rb_ok (snd (rb_pop b)) \<and> rb_view b = fst (rb_pop b) # rb_view (snd (rb_pop b))"
proof -
  let ?c = "length (m_buffer b)" and ?r = "m_read_pos b" and ?n = "m_size b"
  have b: "?r < ?c" "m_write_pos b = (?r + ?n) mod ?c" "None \<notin> set (rb_view b)" "?n \<le> ?c"
    "\<And>i. ?n \<le> i \<Longrightarrow> i < ?c \<Longrightarrow> m_buffer b ! ((?r + i) mod ?c) = None"
    using ok some by (auto simp: rb_ok_def)
  have "(Suc ?r + i) mod ?c \<noteq> ?r" if "i < ?n - 1" for i
  proof -
    have "Suc i < ?c" using that b(4) by linarith
    from slots_apart [OF _ this, of 0 ?r] b(1) show ?thesis by simp
  qed
  then have "ring_view ((m_buffer b)[?r := None]) (Suc ?r) (?n - 1) = ring_view (m_buffer b) (Suc ?r) (?n - 1)"
    by (intro ring_view_update) auto
  moreover have "ring_view ((m_buffer b)[?r := None]) (Suc ?r mod ?c) (?n - 1) = ring_view ((m_buffer b)[?r := None]) (Suc ?r) (?n - 1)"
    using ring_view_mod [of "(m_buffer b)[?r := None]" "Suc ?r" "?n - 1"] by simp
  ultimately have v: "rb_view b = fst (rb_pop b) # rb_view (snd (rb_pop b))"
    using ring_view_shift [OF some, of "m_buffer b" ?r] some b(1) by (simp add: rb_pop_def rb_view_def)
  have "(m_buffer b)[?r := None] ! ((Suc ?r mod ?c + i) mod ?c) = None" if "?n - 1 \<le> i" "i < ?c" for i
  proof (cases "Suc i = ?c")
    case True
    then have "(Suc ?r mod ?c + i) mod ?c = ?r" using b(1) by (metis add_Suc add_Suc_shift mod_add_left_eq mod_add_self2 mod_less)
    with b(1) show ?thesis by simp
  next
    case False
    have "(Suc ?r mod ?c + i) mod ?c = (?r + Suc i) mod ?c" by (simp add: mod_add_left_eq)
    with b(5) [of "Suc i"] slots_apart [of 0 "Suc i" ?c ?r] that False b(1) some show ?thesis by auto
  qed
  moreover have "(Suc ?r mod ?c + (?n - 1)) mod ?c = (?r + ?n) mod ?c"
  proof -
    have "(Suc ?r mod ?c + (?n - 1)) mod ?c = (Suc ?r + (?n - 1)) mod ?c" by (rule mod_add_left_eq)
    also have "Suc ?r + (?n - 1) = ?r + ?n" using some by simp
    finally show ?thesis .
  qed
  moreover have "None \<notin> set (rb_view (snd (rb_pop b)))" using b(3) v by (metis list.set_intros(2))
  moreover have "Suc ?r mod ?c < ?c" using b(1) by (intro mod_less_divisor) linarith
  ultimately show ?thesis using v b(1,2,4) some by (simp add: rb_ok_def rb_pop_def)
qed

lemma rb_fresh:
  assumes "m_buffer b = replicate c None" "m_read_pos b = 0" "m_write_pos b = 0" "m_size b = 0"
  shows "rb_ok b \<and> rb_abs b = (c, [])"
  using assms by (auto simp: rb_ok_def rb_view_def rb_abs_def)

lemma rb_exec_ok:
  assumes "rb_ok b"
  shows "rb_ok (snd (rb_exec op b)) \<and> fifo_exec op (rb_abs b) = (fst (rb_exec op b), rb_abs (snd (rb_exec op b)))"
proof (cases op)
  case (RPush x)
  have len: "length (rb_view b) = m_size b" by (simp add: rb_view_def)
  show ?thesis
  proof (cases "m_size b = length (m_buffer b)")
    case True
    with RPush assms len show ?thesis by (simp add: rb_push_def rb_abs_def)
  next
    case False
    then have "m_size b < length (m_buffer b)" using assms by (simp add: rb_ok_def)
    from rb_push_ok [OF assms this, of x] False RPush len show ?thesis
      by (auto simp: rb_abs_def rb_push_def split: prod.splits)
  qed
next
  case RPop
  show ?thesis
  proof (cases "m_size b = 0")
    case True
    with RPop assms show ?thesis by (simp add: rb_pop_def rb_abs_def rb_view_def)
  next
    case False
    have P: "rb_ok (snd (rb_pop b))" "rb_view b = fst (rb_pop b) # rb_view (snd (rb_pop b))"
      using rb_pop_ok [OF assms] False by auto
    have "None \<notin> set (rb_view b)" using assms by (simp add: rb_ok_def)
    then obtain y where "fst (rb_pop b) = Some y" using P(2) by (cases "fst (rb_pop b)") auto
    moreover have "length (m_buffer (snd (rb_pop b))) = length (m_buffer b)" by (simp add: rb_pop_def)
    ultimately show ?thesis using P RPop by (auto simp: rb_abs_def split: prod.splits)
  qed
next
  case RClear
  have "rb_ok (rb_clear b) \<and> rb_abs (rb_clear b) = (length (m_buffer b), [])"
    by (rule rb_fresh) (simp_all add: rb_clear_def map_replicate_const)
  with RClear show ?thesis by (simp add: rb_abs_def)
next
  case RAsk
  have "length (rb_view b) = m_size b" by (simp add: rb_view_def)
  then show ?thesis using assms RAsk by (auto simp: rb_full_def rb_empty_def rb_size_def rb_capacity_def rb_abs_def)
qed

lemma rb_new_ok: "rb_ok (rb_new cap :: 'a ring_buffer) \<and> rb_abs (rb_new cap :: 'a ring_buffer) = (cap, [])"
  by (rule rb_fresh) (simp_all add: rb_new_def)

interpretation rbq: op_refinement "rb_new cap" rb_exec rb_ok "(cap, [])" fifo_exec rb_abs "\<lambda>x. x" for cap
  by unfold_locales (simp_all add: rb_new_ok rb_exec_ok)

text \<open>
  C25. The ring buffer is a bounded queue: every sequence of \<^verbatim>\<open>push\<close>, \<^verbatim>\<open>pop\<close>,
  \<^verbatim>\<open>clear\<close>, \<^verbatim>\<open>full\<close>, \<^verbatim>\<open>empty\<close>, \<^verbatim>\<open>size\<close> and
  \<^verbatim>\<open>capacity\<close> on a new buffer answers exactly as a list of at most \<open>cap\<close> elements does,
  a capacity of zero included, and afterwards holds the elements of that list in order with every
  other slot emptied.
\<close>

theorem ring_buffer_is_fifo:
  "run_ops fifo_exec ops (cap, []) =
     (fst (run_ops rb_exec ops (rb_new cap)), rb_abs (snd (run_ops rb_exec ops (rb_new cap))))
   \<and> rb_ok (snd (run_ops rb_exec ops (rb_new cap)))"
  using rbq.run_abst [of ops cap] rbq.run_inv [of ops cap] by simp

end
