(* ===== verification/Byte_Source.thy ===== *)
theory Byte_Source
  imports Ring_Buffer "HOL-Library.Word"
begin

text \<open>
  The ring of raw bytes of \<^verbatim>\<open>include/coro/io/circular_byte_buffer.h\<close> and
  \<^verbatim>\<open>src/io/circular_byte_buffer.cpp\<close>, written and read through contiguous spans; the loops
  \<^verbatim>\<open>ring_write\<close> and \<^verbatim>\<open>ring_read\<close> of \<^verbatim>\<open>src/detail/sys/lwip/io_object.h\<close> that fill and
  drain it across the wrap; and \<^verbatim>\<open>include/coro/io/byte_source.h\<close>, whose futures a decoder awaits.
  A span is its offset and length in the ring's storage; the failed assertions of the code and its
  division by the capacity are faults. A loop that may run for ever is a partial function, so that
  not returning is the value \<^term>\<open>None\<close>.
\<close>

type_synonym byte = "8 word"

section \<open>The circular byte buffer\<close>

record circular_byte_buffer =
  c_buffer :: "byte list"
  c_read_pos :: nat
  c_write_pos :: nat
  c_size :: nat

type_synonym span = "nat \<times> nat"

definition cb_new :: "nat \<Rightarrow> circular_byte_buffer" where
  "cb_new capacity = \<lparr>c_buffer = replicate capacity 0, c_read_pos = 0, c_write_pos = 0, c_size = 0\<rparr>"

definition cb_writable_span :: "circular_byte_buffer \<Rightarrow> span" where
  "cb_writable_span b =
     (if c_size b = length (c_buffer b) then (0, 0)
      else (c_write_pos b, min (length (c_buffer b) - c_size b) (length (c_buffer b) - c_write_pos b)))"

definition cb_commit_write :: "nat \<Rightarrow> circular_byte_buffer \<Rightarrow> fault + circular_byte_buffer" where
  "cb_commit_write n b =
     (if \<not> n \<le> length (c_buffer b) - c_size b then Inl Assert_Failed
      else if \<not> n \<le> length (c_buffer b) - c_write_pos b then Inl Assert_Failed
      else if length (c_buffer b) = 0 then Inl Div_By_Zero
      else Inr (b\<lparr>c_write_pos := (c_write_pos b + n) mod length (c_buffer b), c_size := c_size b + n\<rparr>))"

definition cb_readable_span :: "circular_byte_buffer \<Rightarrow> span" where
  "cb_readable_span b =
     (if c_size b = 0 then (0, 0) else (c_read_pos b, min (c_size b) (length (c_buffer b) - c_read_pos b)))"

definition cb_consume :: "nat \<Rightarrow> circular_byte_buffer \<Rightarrow> fault + circular_byte_buffer" where
  "cb_consume n b =
     (if \<not> n \<le> c_size b then Inl Assert_Failed
      else if \<not> n \<le> length (c_buffer b) - c_read_pos b then Inl Assert_Failed
      else if length (c_buffer b) = 0 then Inl Div_By_Zero
      else Inr (b\<lparr>c_read_pos := (c_read_pos b + n) mod length (c_buffer b), c_size := c_size b - n\<rparr>))"

definition cb_readable_bytes :: "circular_byte_buffer \<Rightarrow> nat" where
  "cb_readable_bytes b = c_size b"

definition cb_writable_bytes :: "circular_byte_buffer \<Rightarrow> nat" where
  "cb_writable_bytes b = length (c_buffer b) - c_size b"

definition cb_capacity :: "circular_byte_buffer \<Rightarrow> nat" where
  "cb_capacity b = length (c_buffer b)"

definition cb_clear :: "circular_byte_buffer \<Rightarrow> circular_byte_buffer" where
  "cb_clear b = b\<lparr>c_read_pos := 0, c_write_pos := 0, c_size := 0\<rparr>"

text \<open>What \<^verbatim>\<open>memcpy\<close> does to a span's storage, and the bytes a span shows.\<close>

definition store :: "nat \<Rightarrow> 'a list \<Rightarrow> 'a list \<Rightarrow> 'a list" where
  "store off xs l = take off l @ xs @ drop (off + length xs) l"

definition cb_store :: "nat \<Rightarrow> byte list \<Rightarrow> circular_byte_buffer \<Rightarrow> circular_byte_buffer" where
  "cb_store off xs b = b\<lparr>c_buffer := store off xs (c_buffer b)\<rparr>"

definition span_bytes :: "span \<Rightarrow> circular_byte_buffer \<Rightarrow> byte list" where
  "span_bytes sp b = take (snd sp) (drop (fst sp) (c_buffer b))"

definition contents :: "circular_byte_buffer \<Rightarrow> byte list" where
  "contents b = ring_view (c_buffer b) (c_read_pos b) (c_size b)"

definition cb_ok :: "circular_byte_buffer \<Rightarrow> bool" where
  "cb_ok b \<longleftrightarrow> c_size b \<le> length (c_buffer b) \<and>
     (c_buffer b = [] \<and> c_read_pos b = 0 \<and> c_write_pos b = 0 \<or>
      c_read_pos b < length (c_buffer b) \<and> c_write_pos b = (c_read_pos b + c_size b) mod length (c_buffer b))"

section \<open>Filling and draining a ring\<close>

partial_function (option) ring_write ::
    "byte list \<Rightarrow> circular_byte_buffer \<Rightarrow> (fault + circular_byte_buffer) option" where
  "ring_write src ring =
     (if length src > 0 then
        (let sp = cb_writable_span ring; n = min (length src) (snd sp) in
         case cb_commit_write n (cb_store (fst sp) (take n src) ring) of
           Inl f \<Rightarrow> Some (Inl f)
         | Inr ring \<Rightarrow> ring_write (drop n src) ring)
      else Some (Inr ring))"

text \<open>A \<^verbatim>\<open>pbuf\<close> chain is the list of its payloads.\<close>

fun ring_write_pbuf :: "byte list list \<Rightarrow> circular_byte_buffer \<Rightarrow> (fault + circular_byte_buffer) option" where
  "ring_write_pbuf [] ring = Some (Inr ring)"
| "ring_write_pbuf (q # p) ring =
     (case ring_write q ring of Some (Inr ring) \<Rightarrow> ring_write_pbuf p ring | r \<Rightarrow> r)"

text \<open>The bytes moved out so far are \<open>dst\<close>; without a destination they are discarded.\<close>

partial_function (option) ring_read ::
    "bool \<Rightarrow> byte list \<Rightarrow> nat \<Rightarrow> circular_byte_buffer \<Rightarrow> (fault + byte list \<times> circular_byte_buffer) option" where
  "ring_read keep dst sz ring =
     (if sz > 0 then
        (let sp = cb_readable_span ring; n = min sz (snd sp);
             dst = (if keep then dst @ take n (span_bytes sp ring) else dst) in
         case cb_consume n ring of
           Inl f \<Rightarrow> Some (Inl f)
         | Inr ring \<Rightarrow> ring_read keep dst (sz - n) ring)
      else Some (Inr (dst, ring)))"

section \<open>The byte source and its futures\<close>

record byte_source =
  bs_buffer :: circular_byte_buffer
  bs_eof :: bool
  bs_error :: "exn option"

definition bs_new :: "nat \<Rightarrow> byte_source" where
  "bs_new capacity = \<lparr>bs_buffer = cb_new capacity, bs_eof = False, bs_error = None\<rparr>"

definition bs_consume :: "nat \<Rightarrow> byte_source \<Rightarrow> fault + byte_source" where
  "bs_consume n s = map_sum (\<lambda>f. f) (\<lambda>b. s\<lparr>bs_buffer := b\<rparr>) (cb_consume n (bs_buffer s))"

definition bs_commit_write :: "nat \<Rightarrow> byte_source \<Rightarrow> fault + byte_source" where
  "bs_commit_write n s = map_sum (\<lambda>f. f) (\<lambda>b. s\<lparr>bs_buffer := b\<rparr>) (cb_commit_write n (bs_buffer s))"

definition set_eof :: "byte_source \<Rightarrow> byte_source" where
  "set_eof s = s\<lparr>bs_eof := True\<rparr>"

definition set_error :: "exn option \<Rightarrow> byte_source \<Rightarrow> byte_source" where
  "set_error e s = s\<lparr>bs_error := e\<rparr>"

definition fd_eof :: "byte_source \<Rightarrow> bool" where
  "fd_eof s = bs_eof s"

definition has_error :: "byte_source \<Rightarrow> bool" where
  "has_error s \<longleftrightarrow> bs_error s \<noteq> None"

definition unexpected_eof :: exn where
  "unexpected_eof = User_Exn 0"

record memcpy_future =
  m_dst :: "byte list"
  m_n :: nat
  m_copied :: nat

definition memcpy_future :: "byte list \<Rightarrow> nat \<Rightarrow> memcpy_future" where
  "memcpy_future dst n = \<lparr>m_dst = dst, m_n = n, m_copied = 0\<rparr>"

function memcpy_poll :: "memcpy_future \<Rightarrow> byte_source \<Rightarrow> fault + nat poll_result \<times> memcpy_future \<times> byte_source" where
  "memcpy_poll f s =
     (if m_copied f < m_n f then
        (case bs_error s of Some e \<Rightarrow> Inr (HasResult (Inl e), f, s)
         | None \<Rightarrow>
            (let chunk = cb_readable_span (bs_buffer s) in
             if snd chunk = 0 then
               (if bs_eof s then
                  (if m_copied f = 0 then Inr (HasResult (Inr 0), f, s)
                   else Inr (HasResult (Inl unexpected_eof), f, s))
                else Inr (PollPending, f, s))
             else
               (let n = min (snd chunk) (m_n f - m_copied f) in
                if length (m_dst f) < m_copied f + n then Inl Out_Of_Range
                else case cb_consume n (bs_buffer s) of
                    Inl e \<Rightarrow> Inl e
                  | Inr b \<Rightarrow>
                      memcpy_poll
                        (f\<lparr>m_dst := store (m_copied f) (take n (span_bytes chunk (bs_buffer s))) (m_dst f),
                           m_copied := m_copied f + n\<rparr>)
                        (s\<lparr>bs_buffer := b\<rparr>))))
      else Inr (HasResult (Inr (m_n f)), f, s))"
  by pat_completeness auto
termination
  by (relation "measure (\<lambda>(f, s). m_n f - m_copied f)") auto

definition read_poll :: "nat \<Rightarrow> byte_source \<Rightarrow> span poll_result" where
  "read_poll mx s =
     (case bs_error s of Some e \<Rightarrow> HasResult (Inl e)
      | None \<Rightarrow>
         (let chunk = cb_readable_span (bs_buffer s) in
          if snd chunk = 0 then (if bs_eof s then HasResult (Inr (0, 0)) else PollPending)
          else HasResult (Inr (fst chunk, min (snd chunk) mx))))"

declare memcpy_poll.simps [simp del]

section \<open>Spans and contents\<close>

lemma length_store [simp]: "off + length xs \<le> length l \<Longrightarrow> length (store off xs l) = length l"
  by (simp add: store_def)

lemma nth_store:
  assumes "off + length xs \<le> length l" "i < length l"
  shows "store off xs l ! i = (if off \<le> i \<and> i < off + length xs then xs ! (i - off) else l ! i)"
  using assms by (auto simp: store_def nth_append min_def)

lemma take_drop_store: "off + length xs \<le> length l \<Longrightarrow> take (length xs) (drop off (store off xs l)) = xs"
  by (simp add: store_def min_def)

lemma ring_view_cong:
  assumes "length a = length b" "\<And>i. i < n \<Longrightarrow> a ! ((r + i) mod length b) = b ! ((r + i) mod length b)"
  shows "ring_view a r n = ring_view b r n"
  using assms by (simp add: ring_view_def)

lemma mod_lt: "m < c \<Longrightarrow> k mod c < (c :: nat)"
  by simp

lemma length_contents [simp]: "length (contents b) = c_size b"
  by (simp add: contents_def)

lemma cb_ok_bounds:
  assumes "cb_ok b"
  shows "c_size b \<le> length (c_buffer b)" "c_read_pos b \<le> length (c_buffer b)" "c_write_pos b \<le> length (c_buffer b)"
    and "c_size b < length (c_buffer b) \<Longrightarrow> c_write_pos b < length (c_buffer b)"
    and "0 < c_size b \<Longrightarrow> c_read_pos b < length (c_buffer b)"
  using assms by (auto simp: cb_ok_def mod_lt less_imp_le)

text \<open>A producer that fills part of the writable span and commits it appends to the contents.\<close>

lemma cb_produce:
  assumes ok: "cb_ok b" and sp: "cb_writable_span b = (off, len)" and xs: "length xs \<le> len" "0 < length (c_buffer b)"
  shows "\<exists>b'. cb_commit_write (length xs) (cb_store off xs b) = Inr b' \<and> cb_ok b'
           \<and> contents b' = contents b @ xs \<and> cb_capacity b' = cb_capacity b"
proof (cases "c_size b = length (c_buffer b)")
  case True
  with sp xs have "xs = []" "off = 0" by (auto simp: cb_writable_span_def)
  moreover have "c_write_pos b < length (c_buffer b)" "c_write_pos b = (c_read_pos b + c_size b) mod length (c_buffer b)"
    using ok xs by (auto simp: cb_ok_def)
  ultimately show ?thesis using ok
    by (auto simp: cb_commit_write_def cb_store_def store_def contents_def cb_capacity_def cb_ok_def)
next
  case False
  let ?c = "length (c_buffer b)" and ?r = "c_read_pos b" and ?n = "c_size b" and ?w = "c_write_pos b"
  let ?k = "length xs" and ?s = "store ?w xs (c_buffer b)"
  have lt: "?n < ?c" "?w < ?c" "?r < ?c" "?w = (?r + ?n) mod ?c"
    using ok False xs cb_ok_bounds [OF ok] by (auto simp: cb_ok_def)
  have off: "off = ?w" "?k \<le> ?c - ?n" "?k \<le> ?c - ?w" using sp xs False by (auto simp: cb_writable_span_def)
  then have fits: "?w + ?k \<le> ?c" using lt by linarith
  have "ring_view ?s ?r ?n = contents b" unfolding contents_def
  proof (rule ring_view_cong)
    fix i assume i: "i < ?n"
    have m: "(?r + i) mod ?c < ?c" using lt by (intro mod_less_divisor) linarith
    have "\<not> (?w \<le> (?r + i) mod ?c \<and> (?r + i) mod ?c < ?w + ?k)"
    proof
      assume a: "?w \<le> (?r + i) mod ?c \<and> (?r + i) mod ?c < ?w + ?k"
      define d where "d = (?r + i) mod ?c - ?w"
      have d: "(?r + i) mod ?c = ?w + d" "d < ?k" using a by (auto simp: d_def)
      have "(?r + (?n + d)) mod ?c = (?w + d) mod ?c"
        unfolding lt(4) by (simp add: mod_add_left_eq add.assoc)
      also have "\<dots> = ?w + d" using d fits by simp
      finally have "(?r + i) mod ?c = (?r + (?n + d)) mod ?c" using d by simp
      moreover have "i < ?n + d" "?n + d < ?c" using i d off by auto
      ultimately show False using slots_apart by blast
    qed
    then show "?s ! ((?r + i) mod ?c) = c_buffer b ! ((?r + i) mod ?c)"
      unfolding nth_store [OF fits m] by (rule if_not_P)
  qed (simp add: fits)
  moreover have "ring_view ?s (?r + ?n) ?k = xs"
  proof -
    have "ring_view ?s (?r + ?n) ?k = ring_view ?s ?w ?k"
      using ring_view_mod [of ?s "?r + ?n" ?k] lt(4) fits by simp
    also have "\<dots> = take ?k (drop ?w ?s)" using fits by (intro ring_view_contiguous) simp
    finally show ?thesis using take_drop_store [OF fits] by simp
  qed
  ultimately have "ring_view ?s ?r (?n + ?k) = contents b @ xs" by (simp add: ring_view_add)
  moreover have "(?w + ?k) mod ?c = (?r + (?n + ?k)) mod ?c"
    unfolding lt(4) by (simp add: mod_add_left_eq add.assoc)
  ultimately show ?thesis using off fits lt
    by (auto simp: cb_commit_write_def cb_store_def cb_ok_def contents_def cb_capacity_def)
qed

lemma readable_span_cases:
  assumes "cb_ok b"
  shows "c_size b = 0 \<and> cb_readable_span b = (0, 0) \<and> contents b = []
    \<or> 0 < c_size b \<and> (\<exists>len. cb_readable_span b = (c_read_pos b, len) \<and> 0 < len \<and> len \<le> c_size b
         \<and> len \<le> length (c_buffer b) - c_read_pos b \<and> span_bytes (cb_readable_span b) b = take len (contents b))"
proof (cases "c_size b = 0")
  case True
  then show ?thesis by (simp add: cb_readable_span_def contents_def)
next
  case False
  let ?c = "length (c_buffer b)" and ?r = "c_read_pos b"
  define len where "len = min (c_size b) (?c - ?r)"
  have r: "?r < ?c" using cb_ok_bounds(5) [OF assms] False by simp
  have "c_size b = len + (c_size b - len)" by (simp add: len_def)
  then have "contents b = ring_view (c_buffer b) ?r len @ ring_view (c_buffer b) (?r + len) (c_size b - len)"
    unfolding contents_def by (metis ring_view_add)
  then have "take len (contents b) = ring_view (c_buffer b) ?r len" by simp
  also have "\<dots> = take len (drop ?r (c_buffer b))" using r by (intro ring_view_contiguous) (simp add: len_def)
  finally show ?thesis using False r by (auto simp: cb_readable_span_def span_bytes_def len_def)
qed

lemma cb_consume_ok:
  assumes ok: "cb_ok b" and n: "n \<le> snd (cb_readable_span b)" "0 < length (c_buffer b)"
  shows "\<exists>b'. cb_consume n b = Inr b' \<and> cb_ok b' \<and> contents b' = drop n (contents b) \<and> cb_capacity b' = cb_capacity b"
proof -
  let ?c = "length (c_buffer b)" and ?r = "c_read_pos b"
  have n: "n \<le> c_size b" "n \<le> ?c - ?r" "0 < ?c"
    using n readable_span_cases [OF ok] by auto
  have b: "?r < ?c" "c_write_pos b = (?r + c_size b) mod ?c" "c_size b \<le> ?c" using ok n by (auto simp: cb_ok_def)
  have "c_size b = n + (c_size b - n)" using n by simp
  then have "contents b = ring_view (c_buffer b) ?r n @ ring_view (c_buffer b) (?r + n) (c_size b - n)"
    unfolding contents_def by (metis ring_view_add)
  moreover have "(?r + c_size b) mod ?c = ((?r + n) mod ?c + (c_size b - n)) mod ?c"
  proof -
    have "((?r + n) mod ?c + (c_size b - n)) mod ?c = (?r + n + (c_size b - n)) mod ?c" by (rule mod_add_left_eq)
    also have "?r + n + (c_size b - n) = ?r + c_size b" using n by simp
    finally show ?thesis by simp
  qed
  ultimately show ?thesis using n b
    by (auto simp: cb_consume_def cb_ok_def contents_def cb_capacity_def ring_view_mod)
qed

section \<open>The loops across the wrap\<close>

lemma writable_span_pos:
  "cb_ok b \<Longrightarrow> 0 < cb_writable_bytes b \<Longrightarrow> 0 < snd (cb_writable_span b)"
  using cb_ok_bounds(4) [of b] by (auto simp: cb_writable_span_def cb_writable_bytes_def)

lemma writable_bytes_contents: "cb_writable_bytes b = cb_capacity b - length (contents b)"
  by (simp add: cb_writable_bytes_def cb_capacity_def)

lemma ring_write_ok:
  assumes "cb_ok b" "length src \<le> cb_writable_bytes b"
  shows "\<exists>b'. ring_write src b = Some (Inr b') \<and> cb_ok b' \<and> contents b' = contents b @ src
           \<and> cb_capacity b' = cb_capacity b"
  using assms
proof (induction "length src" arbitrary: src b rule: less_induct)
  case less
  show ?case
  proof (cases "src = []")
    case True
    then show ?thesis using less.prems by (simp add: ring_write.simps)
  next
    case False
    obtain off len where sp: "cb_writable_span b = (off, len)" by force
    define n where "n = min (length src) len"
    have room: "0 < cb_writable_bytes b" using False less.prems by (cases src) auto
    then have n: "0 < n" using writable_span_pos [OF less.prems(1)] False sp by (simp add: n_def)
    have lt: "length (take n src) = n" "n \<le> len" "0 < length (c_buffer b)"
      using room by (auto simp: n_def cb_writable_bytes_def)
    obtain b1 where b1: "cb_commit_write n (cb_store off (take n src) b) = Inr b1" "cb_ok b1"
        "contents b1 = contents b @ take n src" "cb_capacity b1 = cb_capacity b"
      using cb_produce [OF less.prems(1) sp, of "take n src"] lt by auto
    have rest: "length (drop n src) < length src" "length (drop n src) \<le> cb_writable_bytes b1"
      using less.prems(2) n lt False unfolding writable_bytes_contents b1(3,4) by auto
    from less.hyps [OF rest(1) b1(2) rest(2)] b1 obtain b' where
      "ring_write (drop n src) b1 = Some (Inr b')" "cb_ok b'" "contents b' = contents b @ src"
      "cb_capacity b' = cb_capacity b" by auto
    then show ?thesis using False b1(1) sp by (subst ring_write.simps) (simp add: n_def [symmetric] Let_def)
  qed
qed

lemma ring_write_pbuf_ok:
  assumes "cb_ok b" "length (concat p) \<le> cb_writable_bytes b"
  shows "\<exists>b'. ring_write_pbuf p b = Some (Inr b') \<and> cb_ok b' \<and> contents b' = contents b @ concat p
           \<and> cb_capacity b' = cb_capacity b"
  using assms
proof (induction p arbitrary: b)
  case (Cons q p)
  obtain b1 where b1: "ring_write q b = Some (Inr b1)" "cb_ok b1" "contents b1 = contents b @ q"
      "cb_capacity b1 = cb_capacity b"
    using ring_write_ok [of b q] Cons.prems by auto
  have "length (concat p) \<le> cb_writable_bytes b1"
    using Cons.prems(2) unfolding writable_bytes_contents b1(3,4) by simp
  from Cons.IH [OF b1(2) this] b1 show ?case by auto
qed simp

lemma ring_read_ok:
  assumes "cb_ok b" "n \<le> cb_readable_bytes b"
  shows "\<exists>b'. ring_read keep dst n b = Some (Inr (if keep then dst @ take n (contents b) else dst, b')) \<and> cb_ok b'
           \<and> contents b' = drop n (contents b) \<and> cb_capacity b' = cb_capacity b"
  using assms
proof (induction n arbitrary: dst b rule: less_induct)
  case (less n)
  show ?case
  proof (cases "n = 0")
    case True
    then show ?thesis using less.prems by (simp add: ring_read.simps)
  next
    case False
    obtain len where sp: "cb_readable_span b = (c_read_pos b, len)" "0 < len" "len \<le> c_size b"
        "span_bytes (cb_readable_span b) b = take len (contents b)"
      using readable_span_cases [OF less.prems(1)] less.prems(2) False by (auto simp: cb_readable_bytes_def)
    define k where "k = min n len"
    have k: "0 < k" "k \<le> len" "n - k < n" "k \<le> n" using False sp(2) by (auto simp: k_def)
    obtain b1 where b1: "cb_consume k b = Inr b1" "cb_ok b1" "contents b1 = drop k (contents b)"
        "cb_capacity b1 = cb_capacity b"
      using cb_consume_ok [OF less.prems(1), of k] sp k cb_ok_bounds(1) [OF less.prems(1)] by fastforce
    have size: "c_size b1 = c_size b - k" using b1(3) by (metis length_contents length_drop)
    define dst1 where "dst1 = (if keep then dst @ take k (span_bytes (cb_readable_span b) b) else dst)"
    have "n - k \<le> cb_readable_bytes b1" using less.prems(2) by (simp add: cb_readable_bytes_def size)
    from less.IH [OF k(3) b1(2) this, of dst1] obtain b' where
      b': "ring_read keep dst1 (n - k) b1 = Some (Inr (if keep then dst1 @ take (n - k) (contents b1) else dst1, b'))"
      "cb_ok b'" "contents b' = drop (n - k) (contents b1)" "cb_capacity b' = cb_capacity b1" by blast
    have "take k (contents b) @ take (n - k) (drop k (contents b)) = take n (contents b)"
      using k(4) take_add [of k "n - k" "contents b"] by simp
    then have "(if keep then dst1 @ take (n - k) (contents b1) else dst1) = (if keep then dst @ take n (contents b) else dst)"
      using k(2) by (simp add: dst1_def sp(4) b1(3) min_absorb1)
    moreover have "ring_read keep dst n b = ring_read keep dst1 (n - k) b1"
      using False b1(1) sp(1) by (subst ring_read.simps) (simp add: dst1_def k_def [symmetric] Let_def)
    ultimately show ?thesis using b' b1 k(4) by simp
  qed
qed

section \<open>The copying future\<close>

text \<open>
  The reference for \<^verbatim>\<open>MemcpyFuture::poll\<close>: one cut of the list of buffered bytes, with no
  chunks and no wrap.
\<close>

definition memcpy_ref ::
    "memcpy_future \<Rightarrow> bool \<Rightarrow> exn option \<Rightarrow> byte list \<Rightarrow> nat poll_result \<times> memcpy_future \<times> byte list" where
  "memcpy_ref f eof err xs =
     (if m_n f \<le> m_copied f then (HasResult (Inr (m_n f)), f, xs)
      else case err of Some e \<Rightarrow> (HasResult (Inl e), f, xs)
      | None \<Rightarrow>
         (let need = m_n f - m_copied f; got = take need xs;
              g = f\<lparr>m_dst := store (m_copied f) got (m_dst f), m_copied := m_copied f + length got\<rparr> in
          (if need \<le> length xs then HasResult (Inr (m_n f))
           else if eof then (if m_copied g = 0 then HasResult (Inr 0) else HasResult (Inl unexpected_eof))
           else PollPending, g, drop need xs)))"

lemma store_Nil [simp]: "store off [] l = l"
  by (simp add: store_def)

lemma store_store:
  "off + length xs \<le> length l \<Longrightarrow> store (off + length xs) ys (store off xs l) = store off (xs @ ys) l"
  by (simp add: store_def ac_simps)

text \<open>Taking a first chunk by hand does not change what the reference does.\<close>

lemma memcpy_ref_chunk:
  assumes "m_copied f < m_n f" "k \<le> m_n f - m_copied f" "0 < k" "k \<le> length xs" "m_n f \<le> length (m_dst f)"
  shows "memcpy_ref (f\<lparr>m_dst := store (m_copied f) (take k xs) (m_dst f), m_copied := m_copied f + k\<rparr>) eof None (drop k xs)
       = memcpy_ref f eof None xs"
proof -
  have len: "length (take k xs) = k" using assms by simp
  have st: "store (m_copied f + k) ys (store (m_copied f) (take k xs) (m_dst f)) = store (m_copied f) (take k xs @ ys) (m_dst f)" for ys
    using store_store [of "m_copied f" "take k xs" "m_dst f" ys] assms len by simp
  have tk: "take k xs @ take (m_n f - (m_copied f + k)) (drop k xs) = take (m_n f - m_copied f) xs"
    using take_add [of k "m_n f - m_copied f - k" xs] assms by (simp add: diff_diff_left)
  have dr: "drop (m_n f - (m_copied f + k)) (drop k xs) = drop (m_n f - m_copied f) xs" using assms by simp
  show ?thesis
  proof (cases "m_n f - m_copied f = k")
    case True
    then have "take (m_n f - m_copied f) xs = take k xs" "m_n f = m_copied f + k" using assms by auto
    then show ?thesis using assms by (simp add: memcpy_ref_def len)
  next
    case False
    then have "m_copied f + k < m_n f" using assms by simp
    then show ?thesis using assms by (auto simp: memcpy_ref_def Let_def st tk dr min_def)
  qed
qed

lemma memcpy_poll_ref:
  assumes "cb_ok (bs_buffer s)" "m_n f \<le> length (m_dst f)"
  shows "\<exists>b r g. memcpy_poll f s = Inr (r, g, s\<lparr>bs_buffer := b\<rparr>) \<and> cb_ok b \<and> cb_capacity b = cb_capacity (bs_buffer s)
           \<and> memcpy_ref f (bs_eof s) (bs_error s) (contents (bs_buffer s)) = (r, g, contents b)"
  using assms
proof (induction "m_n f - m_copied f" arbitrary: f s rule: less_induct)
  case less
  let ?b = "bs_buffer s"
  have self: "s = s\<lparr>bs_buffer := ?b\<rparr>" by simp
  show ?case
  proof (cases "m_copied f < m_n f \<and> bs_error s = None \<and> 0 < c_size ?b")
    case False
    have "c_size ?b = 0 \<Longrightarrow> contents ?b = [] \<and> cb_readable_span ?b = (0, 0)"
      using readable_span_cases [OF less.prems(1)] by auto
    then show ?thesis using False less.prems
      by (subst memcpy_poll.simps) (auto simp: memcpy_ref_def intro!: exI [of _ ?b] split: option.splits)
  next
    case True
    obtain len where sp: "cb_readable_span ?b = (c_read_pos ?b, len)" "0 < len" "len \<le> c_size ?b"
        "span_bytes (cb_readable_span ?b) ?b = take len (contents ?b)"
      using readable_span_cases [OF less.prems(1)] True by auto
    define k where "k = min len (m_n f - m_copied f)"
    have k: "0 < k" "k \<le> len" "k \<le> m_n f - m_copied f" using True sp(2) by (auto simp: k_def)
    obtain b1 where b1: "cb_consume k ?b = Inr b1" "cb_ok b1" "contents b1 = drop k (contents ?b)"
        "cb_capacity b1 = cb_capacity ?b"
      using cb_consume_ok [OF less.prems(1), of k] sp k cb_ok_bounds(1) [OF less.prems(1)] by fastforce
    define g where "g = f\<lparr>m_dst := store (m_copied f) (take k (contents ?b)) (m_dst f), m_copied := m_copied f + k\<rparr>"
    have g: "m_n g - m_copied g < m_n f - m_copied f" "m_n g \<le> length (m_dst g)"
      using True k sp(3) less.prems(2) by (auto simp: g_def)
    have ref: "memcpy_ref g (bs_eof s) None (contents b1) = memcpy_ref f (bs_eof s) None (contents ?b)"
      unfolding g_def b1(3) by (rule memcpy_ref_chunk) (use True k sp(3) less.prems(2) in auto)
    have fits: "\<not> length (m_dst f) < m_copied f + k" using k True less.prems(2) by linarith
    have chunk: "take k (span_bytes (cb_readable_span ?b) ?b) = take k (contents ?b)"
      unfolding sp(4) take_take using k(2) by (simp add: min_absorb1)
    have "memcpy_poll f s = memcpy_poll g (s\<lparr>bs_buffer := b1\<rparr>)"
      unfolding g_def chunk [symmetric] using True sp(1,2) b1(1) fits
      by (subst memcpy_poll.simps) (simp add: k_def [symmetric])
    with less.hyps [of g "s\<lparr>bs_buffer := b1\<rparr>"] g b1 ref True show ?thesis by simp
  qed
qed

text \<open>
  C23. \<^verbatim>\<open>MemcpyFuture::poll\<close>, which copies chunk by chunk through the contiguous spans of the
  ring and may go round it, is equivalent to one cut of the buffered bytes: on every ring in any
  wrapped position and every partly copied future whose destination holds its \<open>n\<close> bytes it returns,
  fails no assertion, writes and consumes exactly the bytes the reference does, and gives its result:
  the count when enough is there, an error for a signalled error or an end of file mid-read, zero
  for an end of file before the first byte, and pending otherwise.
\<close>

theorem memcpy_poll_equiv:
  assumes "cb_ok (bs_buffer s)" "m_n f \<le> length (m_dst f)"
  shows "\<exists>b. memcpy_poll f s =
           (case memcpy_ref f (bs_eof s) (bs_error s) (contents (bs_buffer s)) of
              (r, g, xs) \<Rightarrow> Inr (r, g, s\<lparr>bs_buffer := b\<rparr>))
         \<and> cb_ok b \<and> cb_capacity b = cb_capacity (bs_buffer s)
         \<and> contents b = snd (snd (memcpy_ref f (bs_eof s) (bs_error s) (contents (bs_buffer s))))"
  using memcpy_poll_ref [OF assms] by auto

definition wrapped_source :: byte_source where
  "wrapped_source =
     \<lparr>bs_buffer = \<lparr>c_buffer = [30, 40, 10, 20], c_read_pos = 2, c_write_pos = 2, c_size = 4\<rparr>,
      bs_eof = False, bs_error = None\<rparr>"

theorem memcpy_poll_equiv_witness:
  "\<exists>b. memcpy_poll (memcpy_future [0, 0, 0] 3) wrapped_source =
         Inr (HasResult (Inr 3), \<lparr>m_dst = [10, 20, 30], m_n = 3, m_copied = 3\<rparr>, wrapped_source\<lparr>bs_buffer := b\<rparr>)
       \<and> contents b = [40]"
proof -
  have upt: "[0..<4] = [0, 1, 2, 3 :: nat]" by (simp add: upt_rec)
  have "cb_ok (bs_buffer wrapped_source)" "m_n (memcpy_future [0, 0, 0] 3) \<le> length (m_dst (memcpy_future [0, 0, 0] 3))"
    by (simp_all add: wrapped_source_def memcpy_future_def cb_ok_def)
  moreover have "memcpy_ref (memcpy_future [0, 0, 0] 3) (bs_eof wrapped_source) (bs_error wrapped_source)
      (contents (bs_buffer wrapped_source)) = (HasResult (Inr 3), \<lparr>m_dst = [10, 20, 30], m_n = 3, m_copied = 3\<rparr>, [40])"
    by (simp add: wrapped_source_def memcpy_future_def memcpy_ref_def contents_def ring_view_def upt store_def)
  ultimately show ?thesis using memcpy_poll_equiv [of wrapped_source "memcpy_future [0, 0, 0] 3"] by auto
qed

section \<open>A producer and a decoder on one source\<close>

text \<open>
  The producer fills a prefix of the writable span with what it has read, or reports the end of the
  file or an error; the decoder, one coroutine, awaits one copying future at a time or reads a span
  and consumes part of it. The bytes fed and the bytes the decoder took are recorded.
\<close>

record stream_sys =
  src :: byte_source
  fut :: "memcpy_future option"
  fed :: "byte list"
  got :: "byte list"
  stream_fault :: "fault option"

datatype stream_op = Feed "byte list" | Feed_Eof | Feed_Error exn | Memcpy nat | Poll_Memcpy | Read_Some nat nat

definition stream_init :: "nat \<Rightarrow> stream_sys" where
  "stream_init cap = \<lparr>src = bs_new cap, fut = None, fed = [], got = [], stream_fault = None\<rparr>"

fun stream_exec :: "stream_op \<Rightarrow> stream_sys \<Rightarrow> (nat poll_result \<times> byte list) option \<times> stream_sys" where
  "stream_exec (Feed xs) \<sigma> =
     (let b = bs_buffer (src \<sigma>); sp = cb_writable_span b; n = min (length xs) (snd sp) in
      case bs_commit_write n ((src \<sigma>)\<lparr>bs_buffer := cb_store (fst sp) (take n xs) b\<rparr>) of
        Inl e \<Rightarrow> (None, \<sigma>\<lparr>stream_fault := Some e\<rparr>)
      | Inr s \<Rightarrow> (None, \<sigma>\<lparr>src := s, fed := fed \<sigma> @ take n xs\<rparr>))"
| "stream_exec Feed_Eof \<sigma> = (None, \<sigma>\<lparr>src := set_eof (src \<sigma>)\<rparr>)"
| "stream_exec (Feed_Error e) \<sigma> = (None, \<sigma>\<lparr>src := set_error (Some e) (src \<sigma>)\<rparr>)"
| "stream_exec (Memcpy n) \<sigma> =
     (None, if fut \<sigma> = None then \<sigma>\<lparr>fut := Some (memcpy_future (replicate n 0) n)\<rparr> else \<sigma>)"
| "stream_exec Poll_Memcpy \<sigma> =
     (case fut \<sigma> of None \<Rightarrow> (None, \<sigma>)
      | Some f \<Rightarrow>
         (case memcpy_poll f (src \<sigma>) of
            Inl e \<Rightarrow> (None, \<sigma>\<lparr>stream_fault := Some e\<rparr>)
          | Inr (r, g, s) \<Rightarrow>
              (Some (r, m_dst g),
               \<sigma>\<lparr>src := s, fut := (if r = PollPending then Some g else None),
                 got := got \<sigma> @ take (m_copied g - m_copied f) (drop (m_copied f) (m_dst g))\<rparr>)))"
| "stream_exec (Read_Some mx used) \<sigma> =
     (case fut \<sigma> of Some f \<Rightarrow> (None, \<sigma>)
      | None \<Rightarrow>
         (case read_poll mx (src \<sigma>) of
            HasResult (Inr sp) \<Rightarrow>
              (let n = min used (snd sp); xs = take n (span_bytes sp (bs_buffer (src \<sigma>))) in
               if n = 0 then (Some (HasResult (Inr (snd sp)), []), \<sigma>)
               else case bs_consume n (src \<sigma>) of
                   Inl e \<Rightarrow> (None, \<sigma>\<lparr>stream_fault := Some e\<rparr>)
                 | Inr s \<Rightarrow> (Some (HasResult (Inr (snd sp)), xs), \<sigma>\<lparr>src := s, got := got \<sigma> @ xs\<rparr>))
          | HasResult (Inl e) \<Rightarrow> (Some (HasResult (Inl e), []), \<sigma>)
          | PollPending \<Rightarrow> (Some (PollPending, []), \<sigma>)
          | PollDropped \<Rightarrow> (Some (PollDropped, []), \<sigma>)))"

definition fut_ok :: "memcpy_future \<Rightarrow> byte list \<Rightarrow> bool" where
  "fut_ok f ys \<longleftrightarrow> m_copied f \<le> m_n f \<and> length (m_dst f) = m_n f \<and> m_copied f \<le> length ys
     \<and> take (m_copied f) (m_dst f) = drop (length ys - m_copied f) ys"

definition stream_inv :: "nat \<Rightarrow> stream_sys \<Rightarrow> bool" where
  "stream_inv cap \<sigma> \<longleftrightarrow> stream_fault \<sigma> = None \<and> cb_ok (bs_buffer (src \<sigma>)) \<and> cb_capacity (bs_buffer (src \<sigma>)) = cap
     \<and> fed \<sigma> = got \<sigma> @ contents (bs_buffer (src \<sigma>))
     \<and> (\<forall>f. fut \<sigma> = Some f \<longrightarrow> fut_ok f (got \<sigma>))"

lemma fut_ok_append:
  assumes "fut_ok f ys" "length xs \<le> m_n f - m_copied f"
  shows "fut_ok (f\<lparr>m_dst := store (m_copied f) xs (m_dst f), m_copied := m_copied f + length xs\<rparr>) (ys @ xs)"
  using assms by (auto simp: fut_ok_def store_def)

lemma memcpy_ref_got:
  assumes "fut_ok f ys" "memcpy_ref f eof err xs = (r, g, zs)"
  shows "let new = take (m_copied g - m_copied f) (drop (m_copied f) (m_dst g)) in
     xs = new @ zs \<and> fut_ok g (ys @ new) \<and> m_n g = m_n f
     \<and> (\<forall>n. r = HasResult (Inr n) \<longrightarrow> n = m_copied g \<and> (0 < n \<longrightarrow> n = m_n f))"
proof (cases "m_n f \<le> m_copied f \<or> err \<noteq> None")
  case True
  then have "(r, g, zs) = (HasResult (Inr (m_n f)), f, xs) \<and> m_n f \<le> m_copied f
      \<or> (\<exists>e. (r, g, zs) = (HasResult (Inl e), f, xs))"
    unfolding assms(2) [symmetric] by (cases "m_n f \<le> m_copied f") (auto simp: memcpy_ref_def)
  moreover have "m_copied f \<le> m_n f" using assms(1) by (simp add: fut_ok_def)
  ultimately show ?thesis using assms(1) by (elim disjE conjE exE) simp_all
next
  case False
  define new where "new = take (m_n f - m_copied f) xs"
  have g: "g = f\<lparr>m_dst := store (m_copied f) new (m_dst f), m_copied := m_copied f + length new\<rparr>"
    "zs = drop (m_n f - m_copied f) xs"
    using False assms(2) by (auto simp: memcpy_ref_def new_def Let_def split: if_splits)
  have len: "length new \<le> m_n f - m_copied f" by (simp add: new_def)
  have "take (m_copied g - m_copied f) (drop (m_copied f) (m_dst g)) = new"
  proof -
    have "m_copied f + length new \<le> length (m_dst f)" using assms(1) len by (auto simp: fut_ok_def)
    from take_drop_store [OF this] show ?thesis by (simp add: g(1))
  qed
  moreover have "xs = new @ zs" by (simp add: new_def g(2))
  moreover have "r = HasResult (Inr n) \<Longrightarrow> n = m_copied g \<and> (0 < n \<longrightarrow> n = m_n f)" for n
    using False assms by (auto simp: memcpy_ref_def fut_ok_def Let_def split: if_splits)
  ultimately show ?thesis using fut_ok_append [OF assms(1) len] by (simp add: g(1) Let_def)
qed

lemma stream_feed_inv:
  assumes inv: "stream_inv cap \<sigma>" and cap: "0 < cap"
  shows "stream_inv cap (snd (stream_exec (Feed xs) \<sigma>))"
proof -
  let ?b = "bs_buffer (src \<sigma>)"
  obtain off len where sp: "cb_writable_span ?b = (off, len)" by force
  define n where "n = min (length xs) len"
  have n: "length (take n xs) = n" "length (take n xs) \<le> len" by (auto simp: n_def)
  have b: "cb_ok ?b" "0 < length (c_buffer ?b)" using inv cap by (auto simp: stream_inv_def cb_capacity_def)
  obtain b1 where b1: "cb_commit_write n (cb_store off (take n xs) ?b) = Inr b1" "cb_ok b1"
      "contents b1 = contents ?b @ take n xs" "cb_capacity b1 = cb_capacity ?b"
    using cb_produce [OF b(1) sp n(2) b(2)] n(1) by auto
  have "snd (stream_exec (Feed xs) \<sigma>) = \<sigma>\<lparr>src := (src \<sigma>)\<lparr>bs_buffer := b1\<rparr>, fed := fed \<sigma> @ take n xs\<rparr>"
    by (simp add: sp n_def [symmetric] bs_commit_write_def b1(1))
  with inv b1 show ?thesis by (simp add: stream_inv_def)
qed

lemma stream_poll_inv:
  assumes inv: "stream_inv cap \<sigma>" and f: "fut \<sigma> = Some f"
  shows "\<exists>r g s. memcpy_poll f (src \<sigma>) = Inr (r, g, s) \<and> stream_inv cap (snd (stream_exec Poll_Memcpy \<sigma>))
           \<and> fut_ok g (got (snd (stream_exec Poll_Memcpy \<sigma>))) \<and> m_n g = m_n f
           \<and> (\<forall>n. r = HasResult (Inr n) \<longrightarrow> n = m_copied g \<and> (0 < n \<longrightarrow> n = m_n f))"
proof -
  let ?s = "src \<sigma>"
  have b: "cb_ok (bs_buffer ?s)" "fut_ok f (got \<sigma>)" "m_n f \<le> length (m_dst f)"
    using inv f by (auto simp: stream_inv_def fut_ok_def)
  obtain b1 r g where p: "memcpy_poll f ?s = Inr (r, g, ?s\<lparr>bs_buffer := b1\<rparr>)" "cb_ok b1"
      "cb_capacity b1 = cb_capacity (bs_buffer ?s)"
      "memcpy_ref f (bs_eof ?s) (bs_error ?s) (contents (bs_buffer ?s)) = (r, g, contents b1)"
    using memcpy_poll_ref [OF b(1,3)] by blast
  from memcpy_ref_got [OF b(2) p(4)] p(1-3) inv f show ?thesis by (auto simp: stream_inv_def Let_def)
qed

lemma stream_read_inv:
  assumes inv: "stream_inv cap \<sigma>"
  shows "stream_inv cap (snd (stream_exec (Read_Some mx used) \<sigma>))"
proof (cases "fut \<sigma> = None \<and> bs_error (src \<sigma>) = None \<and> 0 < c_size (bs_buffer (src \<sigma>)) \<and> 0 < min used mx")
  case True
  let ?b = "bs_buffer (src \<sigma>)"
  have b: "cb_ok ?b" using inv by (simp add: stream_inv_def)
  obtain len where sp: "cb_readable_span ?b = (c_read_pos ?b, len)" "0 < len" "len \<le> c_size ?b"
      "span_bytes (cb_readable_span ?b) ?b = take len (contents ?b)"
    using readable_span_cases [OF b] True by auto
  define n where "n = min used (min len mx)"
  have n: "0 < n" "n \<le> len" "n \<le> snd (cb_readable_span ?b)" using True sp by (auto simp: n_def)
  have "0 < length (c_buffer ?b)" using cb_ok_bounds(1) [OF b] True by linarith
  then obtain b1 where b1: "cb_consume n ?b = Inr b1" "cb_ok b1" "contents b1 = drop n (contents ?b)"
      "cb_capacity b1 = cb_capacity ?b"
    using cb_consume_ok [OF b n(3)] by blast
  have r: "read_poll mx (src \<sigma>) = HasResult (Inr (c_read_pos ?b, min len mx))"
    using True sp by (simp add: read_poll_def)
  have "take n (span_bytes (c_read_pos ?b, min len mx) ?b) = take n (span_bytes (cb_readable_span ?b) ?b)"
    using n by (simp add: span_bytes_def sp(1) n_def ac_simps)
  then have x: "take n (span_bytes (c_read_pos ?b, min len mx) ?b) = take n (contents ?b)"
    unfolding sp(4) take_take using n(2) by (simp add: min_absorb1)
  have "snd (stream_exec (Read_Some mx used) \<sigma>)
      = \<sigma>\<lparr>src := (src \<sigma>)\<lparr>bs_buffer := b1\<rparr>, got := got \<sigma> @ take n (contents ?b)\<rparr>"
    using True n(1) x by (simp add: r n_def [symmetric] bs_consume_def b1(1) Let_def)
  with inv b1 True show ?thesis by (simp add: stream_inv_def)
next
  case False
  have "cb_ok (bs_buffer (src \<sigma>))" using inv by (simp add: stream_inv_def)
  from readable_span_cases [OF this] False have "snd (stream_exec (Read_Some mx used) \<sigma>) = \<sigma>"
    by (auto simp: read_poll_def Let_def split: option.splits)
  with inv show ?thesis by simp
qed

lemma stream_exec_inv:
  assumes "stream_inv cap \<sigma>" "0 < cap"
  shows "stream_inv cap (snd (stream_exec op \<sigma>))"
proof (cases op)
  case Poll_Memcpy
  then show ?thesis using stream_poll_inv [OF assms(1)] assms(1) by (cases "fut \<sigma>") auto
next
  case (Memcpy n)
  then show ?thesis using assms(1) by (auto simp: stream_inv_def fut_ok_def memcpy_future_def)
qed (use assms stream_feed_inv stream_read_inv in \<open>auto simp: stream_inv_def set_eof_def set_error_def\<close>)

lemma stream_init_inv: "stream_inv cap (stream_init cap)"
  by (auto simp: stream_inv_def stream_init_def bs_new_def cb_new_def cb_ok_def cb_capacity_def contents_def)

interpretation stream: op_system "stream_init (Suc cap)" stream_exec "stream_inv (Suc cap)" for cap
  by unfold_locales (simp_all only: stream_init_inv stream_exec_inv zero_less_Suc)

text \<open>
  C24. Bytes pass through a \<^verbatim>\<open>ByteSource\<close> in order, none lost, repeated or invented, whatever
  the interleaving of a producer that fills its spans and a decoder that awaits \<^verbatim>\<open>memcpy\<close> or
  \<^verbatim>\<open>read\<close>: no assertion fails and no index leaves the ring, what was fed is what was taken
  followed by what is buffered, and a \<^verbatim>\<open>memcpy\<close> that next resolves with its full count has put
  the next bytes of the stream into its destination.
\<close>

theorem byte_stream_in_order:
  assumes "(outs, \<sigma>) = run_ops stream_exec ops (stream_init (Suc cap))"
  shows "stream_fault \<sigma> = None \<and> fed \<sigma> = got \<sigma> @ contents (bs_buffer (src \<sigma>))
    \<and> (fst (stream_exec Poll_Memcpy \<sigma>) = Some (HasResult (Inr n), dst) \<and> 0 < n \<longrightarrow>
         (let ys = got (snd (stream_exec Poll_Memcpy \<sigma>)) in dst = drop (length ys - n) ys \<and> length dst = n))"
proof -
  have inv: "stream_inv (Suc cap) \<sigma>" using stream.run_inv [of cap ops] assms by (metis snd_conv)
  have "fst (stream_exec Poll_Memcpy \<sigma>) = Some (HasResult (Inr n), dst) \<and> 0 < n \<longrightarrow>
     (let ys = got (snd (stream_exec Poll_Memcpy \<sigma>)) in dst = drop (length ys - n) ys \<and> length dst = n)"
  proof (cases "fut \<sigma>")
    case (Some f)
    obtain r g s where p: "memcpy_poll f (src \<sigma>) = Inr (r, g, s)" "fut_ok g (got (snd (stream_exec Poll_Memcpy \<sigma>)))"
        "m_n g = m_n f" "\<And>n. r = HasResult (Inr n) \<Longrightarrow> n = m_copied g \<and> (0 < n \<longrightarrow> n = m_n f)"
      using stream_poll_inv [OF inv Some] by blast
    show ?thesis using p(1,3) p(4) [of n] p(2) Some by (auto simp: fut_ok_def Let_def)
  qed simp
  then show ?thesis using inv by (simp add: stream_inv_def)
qed

definition demo_stream_ops :: "stream_op list" where
  "demo_stream_ops = [Feed [1, 2, 3], Memcpy 2, Poll_Memcpy, Feed [4, 5], Feed [5, 6], Memcpy 3]"

theorem byte_stream_in_order_witness:
  "let \<sigma> = snd (run_ops stream_exec demo_stream_ops (stream_init 4)) in
     fst (stream_exec Poll_Memcpy \<sigma>) = Some (HasResult (Inr 3), [3, 4, 5]) \<and> fed \<sigma> = [1, 2, 3, 4, 5, 6]
     \<and> got (snd (stream_exec Poll_Memcpy \<sigma>)) = [1, 2, 3, 4, 5] \<and> fed \<sigma> = got \<sigma> @ contents (bs_buffer (src \<sigma>))
     \<and> [3, 4, 5] = drop (length (got (snd (stream_exec Poll_Memcpy \<sigma>))) - 3) (got (snd (stream_exec Poll_Memcpy \<sigma>)))"
proof -
  define s where s: "s = run_ops stream_exec demo_stream_ops (stream_init 4)"
  have "fed (snd s) = [1, 2, 3, 4, 5, 6]" unfolding s by code_simp
  moreover have "fst (stream_exec Poll_Memcpy (snd s)) = Some (HasResult (Inr 3), [3, 4, 5])" unfolding s by code_simp
  moreover have "got (snd (stream_exec Poll_Memcpy (snd s))) = [1, 2, 3, 4, 5]" unfolding s by code_simp
  moreover have "0 < (3 :: nat)" by simp
  moreover have "(fst s, snd s) = run_ops stream_exec demo_stream_ops (stream_init (Suc 3))" by (simp add: s)
  note byte_stream_in_order [OF this, of 3 "[3, 4, 5]"]
  ultimately show ?thesis unfolding s [symmetric] Let_def by blast
qed

end
