(* ===== verification/Io_Registration.thy ===== *)
theory Io_Registration
  imports Wakers "HOL-Library.Word"
begin

text \<open>
  The readiness state of one registration with the I/O driver, from
  \<^verbatim>\<open>include/coro/runtime/io_driver.h\<close> and \<^verbatim>\<open>src/runtime/io_driver.cpp\<close>:
  \<^verbatim>\<open>ScheduledIo\<close>, \<^verbatim>\<open>IoWaiter\<close>, what \<^verbatim>\<open>IoDriver::dispatch\<close> does to it, and the
  handshake of \<^verbatim>\<open>IoRegistration\<close>. Every operation is one critical section of the
  registration's mutex; the ticks keep their 64 bits. The waiters of the list form are nodes, whose
  state is a function. A weak waker is the waker's identity, and \<open>alive\<close> tells which can be locked.
\<close>

section \<open>State\<close>

datatype IoDirection = Read | Write

record IoReadyEvent =
  direction :: IoDirection
  tick :: "64 word"
  shutdown :: bool

record IoLevelReady =
  l_readable :: bool
  l_writable :: bool
  l_shutdown :: bool

record IoWaiter =
  w_waker :: rc_waker
  w_direction :: IoDirection
  w_linked :: bool
  w_ready :: bool

record ScheduledIo =
  m_level :: bool
  m_readable :: bool
  m_writable :: bool
  m_tick :: "64 word"
  m_reader :: rc_waker
  m_writer :: rc_waker
  m_shutdown :: bool
  m_waiters :: "node list"

type_synonym waiters = "node \<Rightarrow> IoWaiter"

definition new_waiter :: IoWaiter where
  "new_waiter = \<lparr>w_waker = None, w_direction = Read, w_linked = False, w_ready = False\<rparr>"

text \<open>A new registration, as \<^verbatim>\<open>IoDriver::add\<close> leaves it for each trigger.\<close>

definition new_io :: "bool \<Rightarrow> ScheduledIo" where
  "new_io level = \<lparr>m_level = level, m_readable = \<not> level, m_writable = \<not> level, m_tick = 0,
     m_reader = None, m_writer = None, m_shutdown = False, m_waiters = []\<rparr>"

definition ready_in :: "IoDirection \<Rightarrow> ScheduledIo \<Rightarrow> bool" where
  "ready_in d io = (if d = Read then m_readable io else m_writable io)"

definition weak_lock :: "(waker \<Rightarrow> bool) \<Rightarrow> rc_waker \<Rightarrow> rc_waker" where
  "weak_lock alive w = (case w of None \<Rightarrow> None | Some x \<Rightarrow> if alive x then Some x else None)"

section \<open>Waking\<close>

text \<open>
  The scan of \<^verbatim>\<open>take_listed_wakers\<close> from the node \<open>n # ns\<close> on, with \<open>cnt\<close> wakers taken:
  whether it stopped at the limit, the wakers taken, and the nodes left linked.
\<close>

fun take_listed :: "(waker \<Rightarrow> bool) \<Rightarrow> bool \<Rightarrow> bool \<Rightarrow> bool \<Rightarrow> nat \<Rightarrow> nat \<Rightarrow> node list \<Rightarrow> waiters
    \<Rightarrow> bool \<times> waker list \<times> node list \<times> waiters" where
  "take_listed alive readable writable every limit cnt [] ws = (False, [], [], ws)"
| "take_listed alive readable writable every limit cnt (n # ns) ws =
     (if every \<or> (if w_direction (ws n) = Read then readable else writable) then
        (if cnt = limit then (True, [], n # ns, ws)
         else (let w = weak_lock alive (w_waker (ws n));
                   ws = ws(n := (ws n)\<lparr>w_linked := False, w_ready := True, w_waker := None\<rparr>);
                   (again, out, kept, ws) =
                     take_listed alive readable writable every limit (if w = None then cnt else cnt + 1) ns ws
               in (again, wake_opt w @ out, kept, ws)))
      else (let (again, out, kept, ws) = take_listed alive readable writable every limit cnt ns ws
            in (again, out, n # kept, ws)))"

definition take_listed_wakers :: "(waker \<Rightarrow> bool) \<Rightarrow> bool \<Rightarrow> bool \<Rightarrow> bool \<Rightarrow> nat \<Rightarrow> ScheduledIo \<Rightarrow> waiters
    \<Rightarrow> bool \<times> waker list \<times> ScheduledIo \<times> waiters" where
  "take_listed_wakers alive readable writable every limit io ws =
     (let (again, out, kept, ws) = take_listed alive readable writable every limit 0 (m_waiters io) ws
      in (again, out, io\<lparr>m_waiters := kept\<rparr>, ws))"

definition kWakeBatch :: nat where
  "kWakeBatch = 32"

record Event =
  e_readable :: bool
  e_writable :: bool
  e_error :: bool
  e_hup :: bool

definition wants_read :: "Event \<Rightarrow> bool" where
  "wants_read e \<longleftrightarrow> e_readable e \<or> e_error e \<or> e_hup e"

definition wants_write :: "Event \<Rightarrow> bool" where
  "wants_write e \<longleftrightarrow> e_writable e \<or> e_error e \<or> e_hup e"

text \<open>
  The first critical section of \<^verbatim>\<open>dispatch\<close>: the wakers it wakes after the section (reader,
  writer, first batch of listed ones), and whether there are more. Each further round of its loop is
  \<open>dispatch_more\<close>.
\<close>

definition dispatch_first :: "(waker \<Rightarrow> bool) \<Rightarrow> Event \<Rightarrow> ScheduledIo \<Rightarrow> waiters
    \<Rightarrow> bool \<times> waker list \<times> ScheduledIo \<times> waiters" where
  "dispatch_first alive e io ws =
     (let r = wants_read e; w = wants_write e;
          (slots, io) =
            (if m_level io then
               (wake_opt (weak_lock alive (m_reader io)),
                io\<lparr>m_readable := m_readable io \<or> r, m_writable := m_writable io \<or> w\<rparr>)
             else
               (wake_opt (if r then weak_lock alive (m_reader io) else None)
                  @ wake_opt (if w then weak_lock alive (m_writer io) else None),
                io\<lparr>m_readable := m_readable io \<or> r, m_reader := (if r then None else m_reader io),
                   m_writable := m_writable io \<or> w, m_writer := (if w then None else m_writer io)\<rparr>));
          (again, out, io, ws) = take_listed_wakers alive r w False kWakeBatch (io\<lparr>m_tick := m_tick io + 1\<rparr>) ws
      in (again, slots @ out, io, ws))"

definition dispatch_more :: "(waker \<Rightarrow> bool) \<Rightarrow> Event \<Rightarrow> ScheduledIo \<Rightarrow> waiters
    \<Rightarrow> bool \<times> waker list \<times> ScheduledIo \<times> waiters" where
  "dispatch_more alive e io ws = take_listed_wakers alive (wants_read e) (wants_write e) False kWakeBatch io ws"

lemma take_listed_length:
  "take_listed alive r w e limit cnt ns ws = (again, out, kept, ws') \<Longrightarrow>
     length kept + length out \<le> length ns \<and> (again \<longrightarrow> cnt + length out = limit)"
proof (induction ns arbitrary: cnt ws again out kept ws')
  case (Cons n ns)
  define v where "v = weak_lock alive (w_waker (ws n))"
  show ?case
  proof (cases "e \<or> (if w_direction (ws n) = Read then r else w)")
    case False
    then show ?thesis using Cons.prems Cons.IH by (auto simp: Let_def split: prod.splits)
  next
    case m: True
    show ?thesis
    proof (cases "cnt = limit")
      case True
      then show ?thesis using Cons.prems m by auto
    next
      case False
      define cnt' where "cnt' = (if v = None then cnt else cnt + 1)"
      obtain out' vs where t: "take_listed alive r w e limit cnt' ns vs = (again, out', kept, ws')" "out = wake_opt v @ out'"
        using Cons.prems m False by (auto simp: v_def cnt'_def Let_def split: prod.splits)
      from Cons.IH [OF t(1)] show ?thesis by (cases v) (auto simp: t(2) cnt'_def)
    qed
  qed
qed simp

lemma take_listed_wakers_length:
  "take_listed_wakers alive r w e kWakeBatch io ws = (again, out, io', ws') \<Longrightarrow>
     length (m_waiters io') + (if again then 1 else 0) \<le> length (m_waiters io)"
  using take_listed_length [of alive r w e kWakeBatch 0 "m_waiters io" ws]
  by (fastforce simp: take_listed_wakers_def kWakeBatch_def Let_def split: prod.splits)

lemma dispatch_more_length:
  "dispatch_more alive e io ws = (again, out, io', ws') \<Longrightarrow>
     length (m_waiters io') + (if again then 1 else 0) \<le> length (m_waiters io)"
  unfolding dispatch_more_def by (rule take_listed_wakers_length)

text \<open>The loop of \<^verbatim>\<open>dispatch\<close> and the whole of it, when no other section comes between.\<close>

function dispatch_loop :: "(waker \<Rightarrow> bool) \<Rightarrow> Event \<Rightarrow> bool \<Rightarrow> ScheduledIo \<Rightarrow> waiters \<Rightarrow> waker list \<times> ScheduledIo \<times> waiters" where
  "dispatch_loop alive e again io ws =
     (if \<not> again then ([], io, ws)
      else (case dispatch_more alive e io ws of
          (again, out, io, ws) \<Rightarrow> (let (vs, r) = dispatch_loop alive e again io ws in (out @ vs, r))))"
  by pat_completeness auto
termination
proof (relation "measure (\<lambda>(alive, e, again, io, ws). length (m_waiters io) + (if again then 1 else 0))", goal_cases)
  case (2 alive e again io ws x y xa ya xb yb)
  then have "dispatch_more alive e io ws = (x, xa, xb, yb)" by simp
  from dispatch_more_length [OF this] 2(1) show ?case by (cases x) simp_all
qed simp

declare dispatch_loop.simps [simp del]

definition dispatch :: "(waker \<Rightarrow> bool) \<Rightarrow> Event \<Rightarrow> ScheduledIo \<Rightarrow> waiters \<Rightarrow> waker list \<times> ScheduledIo \<times> waiters" where
  "dispatch alive e io ws =
     (case dispatch_first alive e io ws of
        (again, out, io, ws) \<Rightarrow> (let (vs, r) = dispatch_loop alive e again io ws in (out @ vs, r)))"

text \<open>
  What \<^verbatim>\<open>IoDriver::shutdown\<close> does to one registration, with the loop that takes its listed
  waiters batch by batch.
\<close>

function take_all_listed :: "(waker \<Rightarrow> bool) \<Rightarrow> ScheduledIo \<Rightarrow> waiters \<Rightarrow> waker list \<times> ScheduledIo \<times> waiters" where
  "take_all_listed alive io ws =
     (case take_listed_wakers alive True True True kWakeBatch io ws of
        (True, out, io, ws) \<Rightarrow> (let (vs, r) = take_all_listed alive io ws in (out @ vs, r))
      | (False, out, io, ws) \<Rightarrow> (out, io, ws))"
  by pat_completeness auto
termination
proof (relation "measure (\<lambda>(alive, io, ws). length (m_waiters io))", goal_cases)
  case (2 alive io ws x y xa ya xb yb)
  then have "take_listed_wakers alive True True True kWakeBatch io ws = (True, xa, xb, yb)" by simp
  from take_listed_wakers_length [OF this] show ?case by simp
qed simp

declare take_all_listed.simps [simp del]

definition shutdown_io :: "(waker \<Rightarrow> bool) \<Rightarrow> ScheduledIo \<Rightarrow> waiters \<Rightarrow> waker list \<times> ScheduledIo \<times> waiters" where
  "shutdown_io alive io ws =
     (let io = io\<lparr>m_shutdown := True\<rparr> in
      if m_level io then (wake_opt (weak_lock alive (m_reader io)), io, ws)
      else (let slots = wake_opt (weak_lock alive (m_reader io)) @ wake_opt (weak_lock alive (m_writer io));
                (out, r) = take_all_listed alive (io\<lparr>m_reader := None, m_writer := None\<rparr>) ws
            in (slots @ out, r)))"

section \<open>The handshake\<close>

definition poll_ready :: "IoDirection \<Rightarrow> waker \<Rightarrow> ScheduledIo \<Rightarrow> fault + IoReadyEvent option \<times> ScheduledIo" where
  "poll_ready d w io =
     (if m_level io then Inl Assert_Failed
      else if m_shutdown io then Inr (Some \<lparr>direction = d, tick = m_tick io, shutdown = True\<rparr>, io)
      else if ready_in d io then Inr (Some \<lparr>direction = d, tick = m_tick io, shutdown = False\<rparr>, io)
      else Inr (None, if d = Read then io\<lparr>m_reader := Some w\<rparr> else io\<lparr>m_writer := Some w\<rparr>))"

text \<open>The result tells whether the poller is asked to re-arm the direction.\<close>

definition clear_ready :: "IoReadyEvent \<Rightarrow> ScheduledIo \<Rightarrow> bool \<times> ScheduledIo" where
  "clear_ready ev io =
     (if m_tick io \<noteq> tick ev then (False, io)
      else (True, if direction ev = Read then io\<lparr>m_readable := False\<rparr> else io\<lparr>m_writable := False\<rparr>))"

definition poll_ready_listed :: "IoDirection \<Rightarrow> waker \<Rightarrow> node \<Rightarrow> ScheduledIo \<Rightarrow> waiters
    \<Rightarrow> fault + IoReadyEvent option \<times> ScheduledIo \<times> waiters" where
  "poll_ready_listed d w n io ws =
     (if m_level io then Inl Assert_Failed
      else if m_shutdown io then
        (let (io, ws) =
               (if w_linked (ws n)
                then (io\<lparr>m_waiters := remove1 n (m_waiters io)\<rparr>, ws(n := (ws n)\<lparr>w_linked := False, w_waker := None\<rparr>))
                else (io, ws))
         in Inr (Some \<lparr>direction = d, tick = m_tick io, shutdown = True\<rparr>, io, ws(n := (ws n)\<lparr>w_ready := False\<rparr>)))
      else if w_ready (ws n) then
        Inr (Some \<lparr>direction = d, tick = m_tick io, shutdown = False\<rparr>, io, ws(n := (ws n)\<lparr>w_ready := False\<rparr>))
      else if w_linked (ws n) then Inr (None, io, ws(n := (ws n)\<lparr>w_waker := Some w\<rparr>))
      else if ready_in d io then Inr (Some \<lparr>direction = d, tick = m_tick io, shutdown = False\<rparr>, io, ws)
      else Inr (None, io\<lparr>m_waiters := m_waiters io @ [n]\<rparr>,
                ws(n := (ws n)\<lparr>w_direction := d, w_waker := Some w, w_linked := True\<rparr>)))"

definition cancel_wait :: "node \<Rightarrow> ScheduledIo \<Rightarrow> waiters \<Rightarrow> ScheduledIo \<times> waiters" where
  "cancel_wait n io ws =
     (let (io, ws) =
            (if w_linked (ws n)
             then (io\<lparr>m_waiters := remove1 n (m_waiters io)\<rparr>, ws(n := (ws n)\<lparr>w_linked := False\<rparr>))
             else (io, ws))
      in (io, ws(n := (ws n)\<lparr>w_ready := False, w_waker := None\<rparr>)))"

definition set_waker :: "rc_waker \<Rightarrow> ScheduledIo \<Rightarrow> fault + ScheduledIo" where
  "set_waker w io = (if \<not> m_level io then Inl Assert_Failed else Inr (io\<lparr>m_reader := w\<rparr>))"

definition take_ready :: "ScheduledIo \<Rightarrow> fault + IoLevelReady \<times> ScheduledIo" where
  "take_ready io =
     (if \<not> m_level io then Inl Assert_Failed
      else Inr (\<lparr>l_readable = m_readable io, l_writable = m_writable io, l_shutdown = m_shutdown io\<rparr>,
                io\<lparr>m_readable := False, m_writable := False\<rparr>))"

text \<open>
  \<^verbatim>\<open>poll_io\<close> around an operation on the state \<open>'o\<close> of the operating system, when no other
  thread's section comes between. \<^verbatim>\<open>op()\<close> gives a value or an error number.
\<close>

datatype errno = EAGAIN | kDriverShutDown | Other_Errno nat

definition would_block :: "errno \<Rightarrow> bool" where
  "would_block e \<longleftrightarrow> e = EAGAIN"

partial_function (option) poll_io ::
    "IoDirection \<Rightarrow> waker \<Rightarrow> ('o \<Rightarrow> (errno + 'v) \<times> 'o) \<Rightarrow> ScheduledIo \<Rightarrow> 'o
      \<Rightarrow> (fault + (errno + 'v) option \<times> ScheduledIo \<times> 'o) option" where
  "poll_io d w op io os =
     (case poll_ready d w io of
        Inl f \<Rightarrow> Some (Inl f)
      | Inr (None, io) \<Rightarrow> Some (Inr (None, io, os))
      | Inr (Some ready, io) \<Rightarrow>
          (if shutdown ready then Some (Inr (Some (Inl kDriverShutDown), io, os))
           else (case op os of
               (Inr v, os) \<Rightarrow> Some (Inr (Some (Inr v), io, os))
             | (Inl e, os) \<Rightarrow>
                 (if \<not> would_block e then Some (Inr (Some (Inl e), io, os))
                  else poll_io d w op (snd (clear_ready ready io)) os))))"

text \<open>Undisturbed, the loop polls at most twice: \<^verbatim>\<open>clear_ready\<close> then finds the tick it was given.\<close>

lemma poll_io_not_ready:
  assumes "\<not> m_level io" "\<not> m_shutdown io" "\<not> ready_in d io"
  shows "poll_io d w op io os = Some (Inr (None, if d = Read then io\<lparr>m_reader := Some w\<rparr> else io\<lparr>m_writer := Some w\<rparr>, os))"
  using assms by (subst poll_io.simps) (simp add: poll_ready_def)

lemma poll_io_returns: "\<exists>r. poll_io d w op io os = Some r"
proof (cases "\<not> m_level io \<and> \<not> m_shutdown io \<and> ready_in d io")
  case True
  let ?e = "\<lparr>direction = d, tick = m_tick io, shutdown = False\<rparr>"
  have ready: "poll_ready d w io = Inr (Some ?e, io)" using True by (simp add: poll_ready_def)
  have "\<not> ready_in d (snd (clear_ready ?e io))" "\<not> m_level (snd (clear_ready ?e io))" "\<not> m_shutdown (snd (clear_ready ?e io))"
    using True by (simp_all add: clear_ready_def ready_in_def)
  note again = poll_io_not_ready [OF this(2,3,1)]
  obtain r os' where "op os = (r, os')" by fastforce
  then show ?thesis unfolding poll_io.simps [of d w op io os] ready by (cases r) (simp_all add: again)
next
  case False
  then have "\<exists>f. poll_ready d w io = Inl f \<or> (\<exists>io'. poll_ready d w io = Inr (None, io')) \<or> (\<exists>e. poll_ready d w io = Inr (Some e, io) \<and> shutdown e)"
    by (auto simp: poll_ready_def)
  then show ?thesis unfolding poll_io.simps [of d w op io os] by auto
qed

section \<open>What a batch takes\<close>

definition matches :: "bool \<Rightarrow> bool \<Rightarrow> bool \<Rightarrow> IoWaiter \<Rightarrow> bool" where
  "matches readable writable every w \<longleftrightarrow> every \<or> (if w_direction w = Read then readable else writable)"

definition released :: "node set \<Rightarrow> waiters \<Rightarrow> waiters" where
  "released D ws = (\<lambda>n. if n \<in> D then (ws n)\<lparr>w_linked := False, w_ready := True, w_waker := None\<rparr> else ws n)"

lemma take_listed_spec:
  assumes "take_listed alive r w e limit cnt ns ws = (again, out, kept, ws')" "distinct ns" "cnt \<le> limit"
  shows "\<exists>D. D \<subseteq> set ns \<and> (\<forall>n\<in>D. matches r w e (ws n)) \<and> kept = filter (\<lambda>n. n \<notin> D) ns \<and> ws' = released D ws
    \<and> set out = {x. \<exists>n\<in>D. w_waker (ws n) = Some x \<and> alive x} \<and> cnt + length out \<le> limit \<and> length out \<le> card D
    \<and> (again \<longrightarrow> cnt + length out = limit) \<and> (\<not> again \<longrightarrow> (\<forall>n\<in>set ns. matches r w e (ws n) \<longrightarrow> n \<in> D))"
  using assms
proof (induction ns arbitrary: cnt ws again out kept ws')
  case Nil
  then show ?case by (auto simp: released_def intro!: exI [of _ "{}"])
next
  case (Cons n ns)
  show ?case
  proof (cases "matches r w e (ws n)")
    case False
    then obtain kept' where t: "take_listed alive r w e limit cnt ns ws = (again, out, kept', ws')" "kept = n # kept'"
      using Cons.prems(1) by (auto simp: matches_def Let_def split: if_splits prod.splits)
    from Cons.IH [OF t(1)] Cons.prems obtain D where D: "D \<subseteq> set ns" "\<forall>n\<in>D. matches r w e (ws n)"
      "kept' = filter (\<lambda>n. n \<notin> D) ns" "ws' = released D ws"
      "set out = {x. \<exists>n\<in>D. w_waker (ws n) = Some x \<and> alive x}" "cnt + length out \<le> limit" "length out \<le> card D"
      "again \<longrightarrow> cnt + length out = limit" "\<not> again \<longrightarrow> (\<forall>n\<in>set ns. matches r w e (ws n) \<longrightarrow> n \<in> D)" by auto
    moreover have "n \<notin> D" using D(1) Cons.prems(2) by auto
    ultimately show ?thesis using t(2) False by (intro exI [of _ D]) auto
  next
    case m: True
    show ?thesis
    proof (cases "cnt = limit")
      case True
      then show ?thesis using m Cons.prems(1)
        by (intro exI [of _ "{}"]) (auto simp: matches_def released_def split: if_splits)
    next
      case False
      define v where "v = weak_lock alive (w_waker (ws n))"
      define cnt' where "cnt' = (if v = None then cnt else cnt + 1)"
      define vs where "vs = ws(n := (ws n)\<lparr>w_linked := False, w_ready := True, w_waker := None\<rparr>)"
      obtain out' where t: "take_listed alive r w e limit cnt' ns vs = (again, out', kept, ws')" "out = wake_opt v @ out'"
        using Cons.prems(1) m False by (auto simp: matches_def v_def cnt'_def vs_def Let_def split: if_splits prod.splits)
      have lim: "cnt' \<le> limit" using False Cons.prems(3) by (simp add: cnt'_def)
      from Cons.IH [OF t(1) _ lim] Cons.prems(2) obtain D where D: "D \<subseteq> set ns" "\<forall>n\<in>D. matches r w e (vs n)"
        "kept = filter (\<lambda>n. n \<notin> D) ns" "ws' = released D vs"
        "set out' = {x. \<exists>n\<in>D. w_waker (vs n) = Some x \<and> alive x}" "cnt' + length out' \<le> limit" "length out' \<le> card D"
        "again \<longrightarrow> cnt' + length out' = limit" "\<not> again \<longrightarrow> (\<forall>n\<in>set ns. matches r w e (vs n) \<longrightarrow> n \<in> D)" by auto
      have n: "n \<notin> D" "n \<notin> set ns" "finite D" using D(1) Cons.prems(2) finite_subset by auto
      have vs: "k \<noteq> n \<Longrightarrow> vs k = ws k" for k by (simp add: vs_def)
      have vsD: "k \<in> set ns \<Longrightarrow> vs k = ws k" for k using n(2) vs [of k] by auto
      then have vsD': "k \<in> D \<Longrightarrow> vs k = ws k" for k using D(1) by auto
      have len: "cnt + length out = cnt' + length out'" by (cases v) (auto simp: t(2) cnt'_def)
      show ?thesis
      proof (intro exI [of _ "insert n D"] conjI)
        show "ws' = released (insert n D) ws" using D(4) n by (auto simp: released_def vs_def fun_eq_iff)
        show "set out = {x. \<exists>k\<in>insert n D. w_waker (ws k) = Some x \<and> alive x}"
          using D(5) vsD' by (auto simp: t(2) v_def weak_lock_def split: option.splits)
        show "length out \<le> card (insert n D)" using D(7) n by (cases v) (auto simp: t(2))
        show "kept = filter (\<lambda>k. k \<notin> insert n D) (n # ns)" using D(3) n(2) by (auto intro: filter_cong)
      qed (use D vsD vsD' m len in auto)
    qed
  qed
qed


end
