(* ===== verification/Io_Handshake.thy ===== *)
theory Io_Handshake
  imports Io_Registration
begin

text \<open>
  Tasks, the operating system and the driver around one edge-triggered registration. A task goes
  through the rounds of \<^verbatim>\<open>poll_io\<close> one critical section at a time, so every interleaving of the
  sections of different threads is a sequence of steps. The result is the no-lost-wake property of
  the handshake: its ticks keep a readiness that arrives between a failed operation and its
  \<^verbatim>\<open>clear_ready\<close>, and the batches of \<^verbatim>\<open>dispatch\<close> reach every listed waiter.
\<close>

section \<open>The system\<close>

text \<open>
  A task awaits through the slot of a direction or, where \<open>listed\<close>, through a waiter of its own. It
  is idle, has observed readiness and is about to run its operation, has seen it would block and is
  about to clear, or is parked. The number of events dispatched so far is recorded beside the event.
\<close>

datatype pc = Idle | Observed IoReadyEvent nat | Would_Block IoReadyEvent nat | Parked IoDirection

record hs_sys =
  io :: ScheduledIo
  wt :: waiters
  pcs :: "waker \<Rightarrow> pc"
  listed :: "waker \<Rightarrow> bool"
  living :: "waker \<Rightarrow> bool"
  notified :: "waker set"
  nonblocking :: "IoDirection \<Rightarrow> bool"
  events :: "Event list"
  dispatching :: "Event option"
  epoch :: nat

datatype hs_op = Arrive Event bool | Dispatch | Dispatch_More | Poll waker IoDirection | Operate waker bool
  | Clear waker | Drop waker bool | Shut_Down

definition hs_init :: "(waker \<Rightarrow> bool) \<Rightarrow> hs_sys" where
  "hs_init l = \<lparr>io = new_io False, wt = (\<lambda>_. new_waiter), pcs = (\<lambda>_. Idle), listed = l, living = (\<lambda>_. True),
     notified = {}, nonblocking = (\<lambda>_. False), events = [], dispatching = None, epoch = 0\<rparr>"

definition wants :: "IoDirection \<Rightarrow> Event \<Rightarrow> bool" where
  "wants d e = (if d = Read then wants_read e else wants_write e)"

definition merge_event :: "Event \<Rightarrow> Event \<Rightarrow> Event" where
  "merge_event a b = \<lparr>e_readable = (e_readable a \<or> e_readable b), e_writable = (e_writable a \<or> e_writable b),
     e_error = (e_error a \<or> e_error b), e_hup = (e_hup a \<or> e_hup b)\<rparr>"

text \<open>The poller may coalesce an event with the last one it has not reported yet.\<close>

definition arrive :: "Event \<Rightarrow> bool \<Rightarrow> Event list \<Rightarrow> Event list" where
  "arrive e coalesce es =
     (if coalesce \<and> es \<noteq> [] then butlast es @ [merge_event (last es) e] else es @ [e])"

definition slot_in :: "IoDirection \<Rightarrow> ScheduledIo \<Rightarrow> rc_waker" where
  "slot_in d i = (if d = Read then m_reader i else m_writer i)"

text \<open>
  A registration has one slot per direction: a task polls through it only while no other task is
  parked there.
\<close>

definition may_poll :: "waker \<Rightarrow> IoDirection \<Rightarrow> hs_sys \<Rightarrow> bool" where
  "may_poll t d \<sigma> \<longleftrightarrow> living \<sigma> t \<and> (pcs \<sigma> t = Idle \<or> pcs \<sigma> t = Parked d)
     \<and> (listed \<sigma> t \<or> (case slot_in d (io \<sigma>) of None \<Rightarrow> True | Some u \<Rightarrow> u = t \<or> pcs \<sigma> u \<noteq> Parked d))"

definition polled :: "waker \<Rightarrow> IoDirection \<Rightarrow> IoReadyEvent option \<Rightarrow> hs_sys \<Rightarrow> hs_sys" where
  "polled t d r \<sigma> =
     (case r of
        None \<Rightarrow> \<sigma>\<lparr>pcs := (pcs \<sigma>)(t := Parked d), notified := notified \<sigma> - {t}\<rparr>
      | Some ev \<Rightarrow> \<sigma>\<lparr>pcs := (pcs \<sigma>)(t := (if shutdown ev then Idle else Observed ev (epoch \<sigma>)))\<rparr>)"

fun hs_exec :: "hs_op \<Rightarrow> hs_sys \<Rightarrow> waker list \<times> hs_sys" where
  "hs_exec (Arrive e coalesce) \<sigma> =
     ([], \<sigma>\<lparr>nonblocking := (\<lambda>d. nonblocking \<sigma> d \<or> wants d e), events := arrive e coalesce (events \<sigma>)\<rparr>)"
| "hs_exec Dispatch \<sigma> =
     (case (dispatching \<sigma>, events \<sigma>) of
        (None, e # es) \<Rightarrow>
          (let (again, out, i, ws) = dispatch_first (living \<sigma>) e (io \<sigma>) (wt \<sigma>)
           in (out, \<sigma>\<lparr>io := i, wt := ws, notified := notified \<sigma> \<union> set out, events := es,
                     dispatching := (if again then Some e else None), epoch := epoch \<sigma> + 1\<rparr>))
      | _ \<Rightarrow> ([], \<sigma>))"
| "hs_exec Dispatch_More \<sigma> =
     (case dispatching \<sigma> of
        None \<Rightarrow> ([], \<sigma>)
      | Some e \<Rightarrow>
          (let (again, out, i, ws) = dispatch_more (living \<sigma>) e (io \<sigma>) (wt \<sigma>)
           in (out, \<sigma>\<lparr>io := i, wt := ws, notified := notified \<sigma> \<union> set out,
                     dispatching := (if again then Some e else None)\<rparr>)))"
| "hs_exec (Poll t d) \<sigma> =
     (if \<not> may_poll t d \<sigma> then ([], \<sigma>)
      else if listed \<sigma> t then
        (case poll_ready_listed d t t (io \<sigma>) (wt \<sigma>) of
           Inl f \<Rightarrow> ([], \<sigma>)
         | Inr (r, i, ws) \<Rightarrow> ([], polled t d r (\<sigma>\<lparr>io := i, wt := ws\<rparr>)))
      else
        (case poll_ready d t (io \<sigma>) of
           Inl f \<Rightarrow> ([], \<sigma>)
         | Inr (r, i) \<Rightarrow> ([], polled t d r (\<sigma>\<lparr>io := i\<rparr>))))"
| "hs_exec (Operate t leaves) \<sigma> =
     (case pcs \<sigma> t of
        Observed ev k \<Rightarrow>
          (if nonblocking \<sigma> (direction ev)
           then ([], \<sigma>\<lparr>nonblocking := (nonblocking \<sigma>)(direction ev := leaves), pcs := (pcs \<sigma>)(t := Idle)\<rparr>)
           else ([], \<sigma>\<lparr>pcs := (pcs \<sigma>)(t := Would_Block ev k)\<rparr>))
      | _ \<Rightarrow> ([], \<sigma>))"
| "hs_exec (Clear t) \<sigma> =
     (case pcs \<sigma> t of
        Would_Block ev k \<Rightarrow> ([], \<sigma>\<lparr>io := snd (clear_ready ev (io \<sigma>)), pcs := (pcs \<sigma>)(t := Idle)\<rparr>)
      | _ \<Rightarrow> ([], \<sigma>))"
| "hs_exec (Drop t stays) \<sigma> =
     (let (i, ws) = (if listed \<sigma> t then cancel_wait t (io \<sigma>) (wt \<sigma>) else (io \<sigma>, wt \<sigma>))
      in ([], \<sigma>\<lparr>io := i, wt := ws, pcs := (pcs \<sigma>)(t := Idle), living := (living \<sigma>)(t := living \<sigma> t \<and> stays)\<rparr>))"
| "hs_exec Shut_Down \<sigma> =
     (let (out, i, ws) = shutdown_io (living \<sigma>) (io \<sigma>) (wt \<sigma>)
      in (out, \<sigma>\<lparr>io := i, wt := ws, notified := notified \<sigma> \<union> set out\<rparr>))"

section \<open>The invariant\<close>

definition pending :: "hs_sys \<Rightarrow> IoDirection \<Rightarrow> bool" where
  "pending \<sigma> d \<longleftrightarrow> (\<exists>e\<in>set (events \<sigma>). wants d e)"

text \<open>The waiters' links, and where each listed task stands.\<close>

definition links_ok :: "hs_sys \<Rightarrow> bool" where
  "links_ok \<sigma> \<longleftrightarrow> distinct (m_waiters (io \<sigma>)) \<and> (\<forall>n. w_linked (wt \<sigma> n) \<longleftrightarrow> n \<in> set (m_waiters (io \<sigma>)))
     \<and> (\<forall>n\<in>set (m_waiters (io \<sigma>)). listed \<sigma> n \<and> w_waker (wt \<sigma> n) = Some n \<and> \<not> w_ready (wt \<sigma> n)
          \<and> pcs \<sigma> n = Parked (w_direction (wt \<sigma> n)))"

definition tasks_ok :: "hs_sys \<Rightarrow> bool" where
  "tasks_ok \<sigma> \<longleftrightarrow>
     (\<forall>t d. pcs \<sigma> t = Parked d \<longrightarrow> living \<sigma> t \<longrightarrow> t \<notin> notified \<sigma> \<longrightarrow>
        (if listed \<sigma> t then t \<in> set (m_waiters (io \<sigma>)) else slot_in d (io \<sigma>) = Some t))
   \<and> (\<forall>t. listed \<sigma> t \<longrightarrow> w_ready (wt \<sigma> t) \<longrightarrow> (\<exists>d. pcs \<sigma> t = Parked d))
   \<and> (\<forall>d t. slot_in d (io \<sigma>) = Some t \<longrightarrow> \<not> listed \<sigma> t)"

text \<open>Readiness: what would not block is flagged or about to be reported.\<close>

definition ready_ok :: "hs_sys \<Rightarrow> bool" where
  "ready_ok \<sigma> \<longleftrightarrow> \<not> m_level (io \<sigma>) \<and> m_tick (io \<sigma>) = of_nat (epoch \<sigma>)
     \<and> (\<forall>d. nonblocking \<sigma> d \<longrightarrow> \<not> ready_in d (io \<sigma>) \<longrightarrow> pending \<sigma> d)
     \<and> (\<forall>d. ready_in d (io \<sigma>) \<longrightarrow> slot_in d (io \<sigma>) = None)
     \<and> (\<forall>n\<in>set (m_waiters (io \<sigma>)). ready_in (w_direction (wt \<sigma> n)) (io \<sigma>) \<longrightarrow>
          (\<exists>e. dispatching \<sigma> = Some e \<and> wants (w_direction (wt \<sigma> n)) e))
     \<and> (m_shutdown (io \<sigma>) \<longrightarrow> m_waiters (io \<sigma>) = [] \<and> m_reader (io \<sigma>) = None \<and> m_writer (io \<sigma>) = None)"

definition ticks_ok :: "hs_sys \<Rightarrow> bool" where
  "ticks_ok \<sigma> \<longleftrightarrow>
     (\<forall>t ev k. pcs \<sigma> t = Observed ev k \<longrightarrow> k \<le> epoch \<sigma> \<and> tick ev = of_nat k)
   \<and> (\<forall>t ev k. pcs \<sigma> t = Would_Block ev k \<longrightarrow> k \<le> epoch \<sigma> \<and> tick ev = of_nat k
        \<and> (k = epoch \<sigma> \<longrightarrow> nonblocking \<sigma> (direction ev) \<longrightarrow> pending \<sigma> (direction ev)))"

definition hs_inv :: "hs_sys \<Rightarrow> bool" where
  "hs_inv \<sigma> \<longleftrightarrow> links_ok \<sigma> \<and> tasks_ok \<sigma> \<and> ready_ok \<sigma> \<and> ticks_ok \<sigma>"

lemmas hs_inv_defs = hs_inv_def links_ok_def tasks_ok_def ready_ok_def ticks_ok_def

lemma hs_invD:
  assumes "hs_inv \<sigma>"
  shows links: "distinct (m_waiters (io \<sigma>))"
    and linked: "\<And>n. w_linked (wt \<sigma> n) \<longleftrightarrow> n \<in> set (m_waiters (io \<sigma>))"
    and waiter: "\<And>n. n \<in> set (m_waiters (io \<sigma>)) \<Longrightarrow> listed \<sigma> n \<and> w_waker (wt \<sigma> n) = Some n \<and> \<not> w_ready (wt \<sigma> n) \<and> pcs \<sigma> n = Parked (w_direction (wt \<sigma> n))"
    and parked: "\<And>t d. pcs \<sigma> t = Parked d \<Longrightarrow> living \<sigma> t \<Longrightarrow> t \<notin> notified \<sigma> \<Longrightarrow> (if listed \<sigma> t then t \<in> set (m_waiters (io \<sigma>)) else slot_in d (io \<sigma>) = Some t)"
    and woken: "\<And>t. listed \<sigma> t \<Longrightarrow> w_ready (wt \<sigma> t) \<Longrightarrow> \<exists>d. pcs \<sigma> t = Parked d"
    and slots: "\<And>d t. slot_in d (io \<sigma>) = Some t \<Longrightarrow> \<not> listed \<sigma> t"
    and edge: "\<not> m_level (io \<sigma>)"
    and tick: "m_tick (io \<sigma>) = of_nat (epoch \<sigma>)"
    and flag: "\<And>d. nonblocking \<sigma> d \<Longrightarrow> \<not> ready_in d (io \<sigma>) \<Longrightarrow> pending \<sigma> d"
    and free: "\<And>d. ready_in d (io \<sigma>) \<Longrightarrow> slot_in d (io \<sigma>) = None"
    and batch: "\<And>n. n \<in> set (m_waiters (io \<sigma>)) \<Longrightarrow> ready_in (w_direction (wt \<sigma> n)) (io \<sigma>) \<Longrightarrow> \<exists>e. dispatching \<sigma> = Some e \<and> wants (w_direction (wt \<sigma> n)) e"
    and closed: "m_shutdown (io \<sigma>) \<Longrightarrow> m_waiters (io \<sigma>) = [] \<and> m_reader (io \<sigma>) = None \<and> m_writer (io \<sigma>) = None"
    and obs: "\<And>t ev k. pcs \<sigma> t = Observed ev k \<Longrightarrow> k \<le> epoch \<sigma> \<and> tick ev = of_nat k"
    and block: "\<And>t ev k. pcs \<sigma> t = Would_Block ev k \<Longrightarrow> k \<le> epoch \<sigma> \<and> tick ev = of_nat k \<and> (k = epoch \<sigma> \<longrightarrow> nonblocking \<sigma> (direction ev) \<longrightarrow> pending \<sigma> (direction ev))"
  using assms unfolding hs_inv_defs by blast+

lemma hs_invI:
  assumes "distinct (m_waiters (io \<sigma>))"
    and "\<And>n. w_linked (wt \<sigma> n) \<longleftrightarrow> n \<in> set (m_waiters (io \<sigma>))"
    and "\<And>n. n \<in> set (m_waiters (io \<sigma>)) \<Longrightarrow> listed \<sigma> n \<and> w_waker (wt \<sigma> n) = Some n \<and> \<not> w_ready (wt \<sigma> n) \<and> pcs \<sigma> n = Parked (w_direction (wt \<sigma> n))"
    and "\<And>t d. pcs \<sigma> t = Parked d \<Longrightarrow> living \<sigma> t \<Longrightarrow> t \<notin> notified \<sigma> \<Longrightarrow> (if listed \<sigma> t then t \<in> set (m_waiters (io \<sigma>)) else slot_in d (io \<sigma>) = Some t)"
    and "\<And>t. listed \<sigma> t \<Longrightarrow> w_ready (wt \<sigma> t) \<Longrightarrow> \<exists>d. pcs \<sigma> t = Parked d"
    and "\<And>d t. slot_in d (io \<sigma>) = Some t \<Longrightarrow> \<not> listed \<sigma> t"
    and "\<not> m_level (io \<sigma>)"
    and "m_tick (io \<sigma>) = of_nat (epoch \<sigma>)"
    and "\<And>d. nonblocking \<sigma> d \<Longrightarrow> \<not> ready_in d (io \<sigma>) \<Longrightarrow> pending \<sigma> d"
    and "\<And>d. ready_in d (io \<sigma>) \<Longrightarrow> slot_in d (io \<sigma>) = None"
    and "\<And>n. n \<in> set (m_waiters (io \<sigma>)) \<Longrightarrow> ready_in (w_direction (wt \<sigma> n)) (io \<sigma>) \<Longrightarrow> \<exists>e. dispatching \<sigma> = Some e \<and> wants (w_direction (wt \<sigma> n)) e"
    and "m_shutdown (io \<sigma>) \<Longrightarrow> m_waiters (io \<sigma>) = [] \<and> m_reader (io \<sigma>) = None \<and> m_writer (io \<sigma>) = None"
    and "\<And>t ev k. pcs \<sigma> t = Observed ev k \<Longrightarrow> k \<le> epoch \<sigma> \<and> tick ev = of_nat k"
    and "\<And>t ev k. pcs \<sigma> t = Would_Block ev k \<Longrightarrow> k \<le> epoch \<sigma> \<and> tick ev = of_nat k \<and> (k = epoch \<sigma> \<longrightarrow> nonblocking \<sigma> (direction ev) \<longrightarrow> pending \<sigma> (direction ev))"
  shows "hs_inv \<sigma>"
  unfolding hs_inv_defs using assms by blast

lemma hs_init_inv: "hs_inv (hs_init l)"
  by (auto simp: hs_inv_defs hs_init_def new_io_def new_waiter_def slot_in_def ready_in_def)

section \<open>Every step keeps it\<close>

lemma wants_merge: "wants d (merge_event a b) \<longleftrightarrow> wants d a \<or> wants d b"
  by (auto simp: wants_def merge_event_def wants_read_def wants_write_def)

lemma arrive_wants: "(\<exists>x\<in>set (arrive e c es). wants d x) \<longleftrightarrow> wants d e \<or> (\<exists>x\<in>set es. wants d x)"
proof (cases "c \<and> es \<noteq> []")
  case True
  then have "set es = insert (last es) (set (butlast es))" by (metis append_butlast_last_id list.set(2) set_append Un_commute insert_is_Un empty_set list.simps(15))
  then show ?thesis using True by (auto simp: arrive_def wants_merge)
qed (auto simp: arrive_def)

lemma arrive_inv:
  assumes "hs_inv \<sigma>"
  shows "hs_inv (snd (hs_exec (Arrive e c) \<sigma>))"
proof -
  note inv = hs_invD [OF assms]
  let ?t = "snd (hs_exec (Arrive e c) \<sigma>)"
  have p: "pending ?t d \<longleftrightarrow> wants d e \<or> pending \<sigma> d" for d by (simp add: pending_def arrive_wants)
  have f: "io ?t = io \<sigma>" "wt ?t = wt \<sigma>" "listed ?t = listed \<sigma>" "pcs ?t = pcs \<sigma>" "living ?t = living \<sigma>"
    "notified ?t = notified \<sigma>" "dispatching ?t = dispatching \<sigma>" "epoch ?t = epoch \<sigma>"
    "nonblocking ?t d \<longleftrightarrow> nonblocking \<sigma> d \<or> wants d e" for d by simp_all
  show ?thesis by (rule hs_invI; unfold f p) (use inv in blast)+
qed

text \<open>A step in which the task \<open>t\<close>, unlinked if it was linked, goes to a place other than parked.\<close>

lemma leave_inv:
  assumes "hs_inv \<sigma>" and w: "\<not> w_linked w" "listed \<sigma> t \<Longrightarrow> \<not> w_ready w"
    and obs: "\<And>ev k. p = Observed ev k \<Longrightarrow> k \<le> epoch \<sigma> \<and> tick ev = of_nat k"
    and block: "\<And>ev k. p = Would_Block ev k \<Longrightarrow> k \<le> epoch \<sigma> \<and> tick ev = of_nat k
      \<and> (k = epoch \<sigma> \<longrightarrow> nonblocking \<sigma> (direction ev) \<longrightarrow> pending \<sigma> (direction ev))"
    and np: "\<And>d. p \<noteq> Parked d"
  shows "hs_inv (\<sigma>\<lparr>io := (io \<sigma>)\<lparr>m_waiters := remove1 t (m_waiters (io \<sigma>))\<rparr>, wt := (wt \<sigma>)(t := w),
    pcs := (pcs \<sigma>)(t := p), living := (living \<sigma>)(t := b)\<rparr>)"
proof -
  note inv = hs_invD [OF assms(1)]
  let ?t = "\<sigma>\<lparr>io := (io \<sigma>)\<lparr>m_waiters := remove1 t (m_waiters (io \<sigma>))\<rparr>, wt := (wt \<sigma>)(t := w),
    pcs := (pcs \<sigma>)(t := p), living := (living \<sigma>)(t := b)\<rparr>"
  let ?i = "(io \<sigma>)\<lparr>m_waiters := remove1 t (m_waiters (io \<sigma>))\<rparr>"
  have f: "io ?t = ?i" "wt ?t u = (if u = t then w else wt \<sigma> u)" "listed ?t = listed \<sigma>"
    "pcs ?t u = (if u = t then p else pcs \<sigma> u)" "living ?t u = (if u = t then b else living \<sigma> u)"
    "notified ?t = notified \<sigma>" "dispatching ?t = dispatching \<sigma>" "epoch ?t = epoch \<sigma>"
    "nonblocking ?t = nonblocking \<sigma>" "pending ?t = pending \<sigma>" for u by (simp_all add: fun_eq_iff pending_def)
  have g: "slot_in d ?i = slot_in d (io \<sigma>)" "ready_in d ?i = ready_in d (io \<sigma>)" "m_level ?i = m_level (io \<sigma>)"
    "m_tick ?i = m_tick (io \<sigma>)" "m_shutdown ?i = m_shutdown (io \<sigma>)" "m_reader ?i = m_reader (io \<sigma>)"
    "m_writer ?i = m_writer (io \<sigma>)" "m_waiters ?i = remove1 t (m_waiters (io \<sigma>))" for d
    by (simp_all add: slot_in_def ready_in_def)
  have ws: "n \<in> set (remove1 t (m_waiters (io \<sigma>))) \<longleftrightarrow> n \<in> set (m_waiters (io \<sigma>)) \<and> n \<noteq> t" for n
    using inv(1) by (simp add: set_remove1_eq)
  show ?thesis
  proof (rule hs_invI; unfold f g ws)
    show "distinct (remove1 t (m_waiters (io \<sigma>)))" using inv(1) by (rule distinct_remove1)
    show "w_linked (if n = t then w else wt \<sigma> n) \<longleftrightarrow> n \<in> set (m_waiters (io \<sigma>)) \<and> n \<noteq> t" for n
      using w(1) inv(2) [of n] by (cases "n = t") auto
    show "listed \<sigma> n \<and> w_waker (if n = t then w else wt \<sigma> n) = Some n \<and> \<not> w_ready (if n = t then w else wt \<sigma> n)
        \<and> (if n = t then p else pcs \<sigma> n) = Parked (w_direction (if n = t then w else wt \<sigma> n))"
      if "n \<in> set (m_waiters (io \<sigma>)) \<and> n \<noteq> t" for n
      using that inv(3) [of n] by simp
    show "\<exists>d. (if u = t then p else pcs \<sigma> u) = Parked d"
      if "listed \<sigma> u" "w_ready (if u = t then w else wt \<sigma> u)" for u
      using that w(2) inv(5) [of u] by (cases "u = t") auto
    show "if listed \<sigma> u then u \<in> set (m_waiters (io \<sigma>)) \<and> u \<noteq> t else slot_in d (io \<sigma>) = Some u"
      if "(if u = t then p else pcs \<sigma> u) = Parked d" "if u = t then b else living \<sigma> u" "u \<notin> notified \<sigma>" for u d
      using that np inv(4) [of u d] by (cases "u = t") auto
    show "\<exists>e. dispatching \<sigma> = Some e \<and> wants (w_direction (if n = t then w else wt \<sigma> n)) e"
      if "n \<in> set (m_waiters (io \<sigma>)) \<and> n \<noteq> t" "ready_in (w_direction (if n = t then w else wt \<sigma> n)) (io \<sigma>)" for n
      using that inv(11) [of n] by simp
    show "remove1 t (m_waiters (io \<sigma>)) = [] \<and> m_reader (io \<sigma>) = None \<and> m_writer (io \<sigma>) = None" if "m_shutdown (io \<sigma>)"
      using inv(12) [OF that] by simp
    show "k \<le> epoch \<sigma> \<and> tick ev = of_nat k" if "(if u = t then p else pcs \<sigma> u) = Observed ev k" for u ev k
      using that obs inv(13) [of u ev k] by (cases "u = t") auto
    show "k \<le> epoch \<sigma> \<and> tick ev = of_nat k \<and> (k = epoch \<sigma> \<longrightarrow> nonblocking \<sigma> (direction ev) \<longrightarrow> pending \<sigma> (direction ev))"
      if "(if u = t then p else pcs \<sigma> u) = Would_Block ev k" for u ev k
      using that block inv(14) [of u ev k] by (cases "u = t") auto
  qed (use inv in blast)+
qed

lemma pc_inv:
  assumes "hs_inv \<sigma>" "t \<notin> set (m_waiters (io \<sigma>))" "listed \<sigma> t \<Longrightarrow> \<not> w_ready (wt \<sigma> t)"
    and "\<And>ev k. p = Observed ev k \<Longrightarrow> k \<le> epoch \<sigma> \<and> tick ev = of_nat k"
    and "\<And>ev k. p = Would_Block ev k \<Longrightarrow> k \<le> epoch \<sigma> \<and> tick ev = of_nat k
      \<and> (k = epoch \<sigma> \<longrightarrow> nonblocking \<sigma> (direction ev) \<longrightarrow> pending \<sigma> (direction ev))"
    and "\<And>d. p \<noteq> Parked d"
  shows "hs_inv (\<sigma>\<lparr>pcs := (pcs \<sigma>)(t := p)\<rparr>)"
proof -
  have "\<not> w_linked (wt \<sigma> t)" using assms(2) hs_invD(2) [OF assms(1)] by simp
  from leave_inv [where t = t and b = "living \<sigma> t", OF assms(1) this assms(3-6)] assms(2) show ?thesis
    by (simp add: remove1_idem)
qed

lemma slot_in_upd [simp]:
  "slot_in d (i\<lparr>m_reader := r\<rparr>) = (if d = Read then r else slot_in d i)"
  "slot_in d (i\<lparr>m_writer := r\<rparr>) = (if d = Write then r else slot_in d i)"
  by (cases d; simp add: slot_in_def)+

definition set_slot :: "IoDirection \<Rightarrow> rc_waker \<Rightarrow> ScheduledIo \<Rightarrow> ScheduledIo" where
  "set_slot d w i = (if d = Read then i\<lparr>m_reader := w\<rparr> else i\<lparr>m_writer := w\<rparr>)"

lemma set_slot_simps [simp]:
  "slot_in d (set_slot c w i) = (if d = c then w else slot_in d i)" "m_level (set_slot c w i) = m_level i"
  "ready_in d (set_slot c w i) = ready_in d i" "m_tick (set_slot c w i) = m_tick i"
  "m_waiters (set_slot c w i) = m_waiters i" "m_shutdown (set_slot c w i) = m_shutdown i"
  by (cases c; cases d; simp add: set_slot_def slot_in_def ready_in_def)+

lemma park_slot_inv:
  assumes "hs_inv \<sigma>" and "\<not> listed \<sigma> t" "\<not> ready_in d (io \<sigma>)" "\<not> m_shutdown (io \<sigma>)" "may_poll t d \<sigma>"
  shows "hs_inv (\<sigma>\<lparr>io := set_slot d (Some t) (io \<sigma>), pcs := (pcs \<sigma>)(t := Parked d), notified := notified \<sigma> - {t}\<rparr>)"
proof -
  note inv = hs_invD [OF assms(1)]
  let ?t = "\<sigma>\<lparr>io := set_slot d (Some t) (io \<sigma>), pcs := (pcs \<sigma>)(t := Parked d), notified := notified \<sigma> - {t}\<rparr>"
  have f: "io ?t = set_slot d (Some t) (io \<sigma>)" "wt ?t = wt \<sigma>" "listed ?t = listed \<sigma>"
    "pcs ?t u = (if u = t then Parked d else pcs \<sigma> u)" "living ?t = living \<sigma>" "notified ?t = notified \<sigma> - {t}"
    "dispatching ?t = dispatching \<sigma>" "epoch ?t = epoch \<sigma>"
    "nonblocking ?t = nonblocking \<sigma>" "pending ?t = pending \<sigma>" for u by (simp_all add: fun_eq_iff pending_def)
  have t: "t \<notin> set (m_waiters (io \<sigma>))" using inv(3) assms(2) by blast
  show ?thesis
  proof (rule hs_invI; unfold f set_slot_simps)
    show "listed \<sigma> n \<and> w_waker (wt \<sigma> n) = Some n \<and> \<not> w_ready (wt \<sigma> n)
        \<and> (if n = t then Parked d else pcs \<sigma> n) = Parked (w_direction (wt \<sigma> n))" if "n \<in> set (m_waiters (io \<sigma>))" for n
      using that t inv(3) [OF that] by (cases "n = t") auto
    show "\<exists>c. (if u = t then Parked d else pcs \<sigma> u) = Parked c" if "listed \<sigma> u" "w_ready (wt \<sigma> u)" for u
      using that inv(5) [of u] by (cases "u = t") auto
    show "if listed \<sigma> u then u \<in> set (m_waiters (io \<sigma>)) else (if c = d then Some t else slot_in c (io \<sigma>)) = Some u"
      if "(if u = t then Parked d else pcs \<sigma> u) = Parked c" "living \<sigma> u" "u \<notin> notified \<sigma> - {t}" for u c
    proof (cases "u = t")
      case True
      then show ?thesis using that assms(2) by auto
    next
      case False
      then have u: "pcs \<sigma> u = Parked c" "u \<notin> notified \<sigma>" using that by auto
      have "\<not> listed \<sigma> u \<Longrightarrow> c \<noteq> d"
      proof
        assume l: "\<not> listed \<sigma> u" "c = d"
        then have "slot_in d (io \<sigma>) = Some u" using inv(4) [OF u(1) that(2) u(2)] by simp
        then show False using assms(2,5) False u(1) l by (auto simp: may_poll_def)
      qed
      then show ?thesis using inv(4) [OF u(1) that(2) u(2)] by auto
    qed
    show "\<not> listed \<sigma> u" if "(if c = d then Some t else slot_in c (io \<sigma>)) = Some u" for c u
      using that inv(6) assms(2) by (cases "c = d") auto
    show "(if c = d then Some t else slot_in c (io \<sigma>)) = None" if "ready_in c (io \<sigma>)" for c
      using that inv(10) assms(3) by (cases "c = d") auto
    show "k \<le> epoch \<sigma> \<and> tick ev = of_nat k" if "(if u = t then Parked d else pcs \<sigma> u) = Observed ev k" for u ev k
      using that inv(13) [of u ev k] by (cases "u = t") auto
    show "k \<le> epoch \<sigma> \<and> tick ev = of_nat k \<and> (k = epoch \<sigma> \<longrightarrow> nonblocking \<sigma> (direction ev) \<longrightarrow> pending \<sigma> (direction ev))"
      if "(if u = t then Parked d else pcs \<sigma> u) = Would_Block ev k" for u ev k
      using that inv(14) [of u ev k] by (cases "u = t") auto
  qed (use inv assms(4) in blast)+
qed

text \<open>Linking a waiter, or polling again with one that is linked.\<close>

lemma park_listed_inv:
  assumes "hs_inv \<sigma>" and "listed \<sigma> t" "\<not> m_shutdown (io \<sigma>)" "\<not> w_ready (wt \<sigma> t)"
    and ns: "t \<in> set (m_waiters (io \<sigma>)) \<and> ns = m_waiters (io \<sigma>) \<and> pcs \<sigma> t = Parked d
      \<or> t \<notin> set (m_waiters (io \<sigma>)) \<and> ns = m_waiters (io \<sigma>) @ [t] \<and> \<not> ready_in d (io \<sigma>)"
    and w: "w_direction w = d" "w_waker w = Some t" "w_linked w" "\<not> w_ready w"
  shows "hs_inv (\<sigma>\<lparr>io := (io \<sigma>)\<lparr>m_waiters := ns\<rparr>, wt := (wt \<sigma>)(t := w),
    pcs := (pcs \<sigma>)(t := Parked d), notified := notified \<sigma> - {t}\<rparr>)"
proof -
  note inv = hs_invD [OF assms(1)]
  let ?t = "\<sigma>\<lparr>io := (io \<sigma>)\<lparr>m_waiters := ns\<rparr>, wt := (wt \<sigma>)(t := w),
    pcs := (pcs \<sigma>)(t := Parked d), notified := notified \<sigma> - {t}\<rparr>"
  let ?i = "(io \<sigma>)\<lparr>m_waiters := ns\<rparr>"
  have f: "io ?t = ?i" "wt ?t u = (if u = t then w else wt \<sigma> u)" "listed ?t = listed \<sigma>"
    "pcs ?t u = (if u = t then Parked d else pcs \<sigma> u)" "living ?t = living \<sigma>"
    "notified ?t = notified \<sigma> - {t}" "dispatching ?t = dispatching \<sigma>" "epoch ?t = epoch \<sigma>"
    "nonblocking ?t = nonblocking \<sigma>" "pending ?t = pending \<sigma>" for u by (simp_all add: fun_eq_iff pending_def)
  have g: "slot_in c ?i = slot_in c (io \<sigma>)" "ready_in c ?i = ready_in c (io \<sigma>)" "m_level ?i = m_level (io \<sigma>)"
    "m_tick ?i = m_tick (io \<sigma>)" "m_shutdown ?i = m_shutdown (io \<sigma>)" "m_reader ?i = m_reader (io \<sigma>)"
    "m_writer ?i = m_writer (io \<sigma>)" "m_waiters ?i = ns" for c
    by (simp_all add: slot_in_def ready_in_def)
  have ws: "n \<in> set ns \<longleftrightarrow> n \<in> set (m_waiters (io \<sigma>)) \<or> n = t" for n using ns by auto
  have dir: "t \<in> set (m_waiters (io \<sigma>)) \<Longrightarrow> w_direction (wt \<sigma> t) = d" using inv(3) [of t] ns by auto
  show ?thesis
  proof (rule hs_invI; unfold f g ws)
    show "distinct ns" using inv(1) ns by auto
    show "w_linked (if n = t then w else wt \<sigma> n) \<longleftrightarrow> n \<in> set (m_waiters (io \<sigma>)) \<or> n = t" for n
      using w(3) inv(2) [of n] by (cases "n = t") auto
    show "listed \<sigma> n \<and> w_waker (if n = t then w else wt \<sigma> n) = Some n \<and> \<not> w_ready (if n = t then w else wt \<sigma> n)
        \<and> (if n = t then Parked d else pcs \<sigma> n) = Parked (w_direction (if n = t then w else wt \<sigma> n))"
      if "n \<in> set (m_waiters (io \<sigma>)) \<or> n = t" for n
      using that inv(3) [of n] w assms(2) by (cases "n = t") auto
    show "\<exists>d'. (if u = t then Parked d else pcs \<sigma> u) = Parked d'"
      if "listed \<sigma> u" "w_ready (if u = t then w else wt \<sigma> u)" for u
      using that inv(5) [of u] by (cases "u = t") auto
    show "if listed \<sigma> u then u \<in> set (m_waiters (io \<sigma>)) \<or> u = t else slot_in c (io \<sigma>) = Some u"
      if "(if u = t then Parked d else pcs \<sigma> u) = Parked c" "living \<sigma> u" "u \<notin> notified \<sigma> - {t}" for u c
      using that assms(2) inv(4) [of u c] by (cases "u = t") auto
    show "\<exists>e. dispatching \<sigma> = Some e \<and> wants (w_direction (if n = t then w else wt \<sigma> n)) e"
      if "n \<in> set (m_waiters (io \<sigma>)) \<or> n = t" "ready_in (w_direction (if n = t then w else wt \<sigma> n)) (io \<sigma>)" for n
      using that inv(11) [of n] w(1) ns dir by (cases "n = t") auto
    show "ns = [] \<and> m_reader (io \<sigma>) = None \<and> m_writer (io \<sigma>) = None" if "m_shutdown (io \<sigma>)"
      using assms(3) that by simp
    show "k \<le> epoch \<sigma> \<and> tick ev = of_nat k" if "(if u = t then Parked d else pcs \<sigma> u) = Observed ev k" for u ev k
      using that inv(13) [of u ev k] by (cases "u = t") auto
    show "k \<le> epoch \<sigma> \<and> tick ev = of_nat k \<and> (k = epoch \<sigma> \<longrightarrow> nonblocking \<sigma> (direction ev) \<longrightarrow> pending \<sigma> (direction ev))"
      if "(if u = t then Parked d else pcs \<sigma> u) = Would_Block ev k" for u ev k
      using that inv(14) [of u ev k] by (cases "u = t") auto
  qed (use inv in blast)+
qed

lemma not_parked:
  assumes "hs_inv \<sigma>" "\<And>d. pcs \<sigma> t \<noteq> Parked d"
  shows "t \<notin> set (m_waiters (io \<sigma>))" "listed \<sigma> t \<Longrightarrow> \<not> w_ready (wt \<sigma> t)"
  using hs_invD(3,5) [OF assms(1)] assms(2) by blast+

lemma poll_slot_inv:
  assumes "hs_inv \<sigma>" "may_poll t d \<sigma>" "\<not> listed \<sigma> t"
  shows "hs_inv (snd (hs_exec (Poll t d) \<sigma>))"
proof -
  note inv = hs_invD [OF assms(1)]
  have t: "t \<notin> set (m_waiters (io \<sigma>))" using inv(3) assms(3) by blast
  have pc: "hs_inv (\<sigma>\<lparr>pcs := (pcs \<sigma>)(t := p)\<rparr>)"
    if "p = Idle \<or> p = Observed \<lparr>direction = d, tick = m_tick (io \<sigma>), shutdown = False\<rparr> (epoch \<sigma>)" for p
    by (rule pc_inv [OF assms(1) t]) (use that assms(3) inv(8) in auto)
  have slot: "(if d = Read then (io \<sigma>)\<lparr>m_reader := Some t\<rparr> else (io \<sigma>)\<lparr>m_writer := Some t\<rparr>) = set_slot d (Some t) (io \<sigma>)"
    by (simp add: set_slot_def)
  consider "m_shutdown (io \<sigma>)" | "\<not> m_shutdown (io \<sigma>)" "ready_in d (io \<sigma>)" | "\<not> m_shutdown (io \<sigma>)" "\<not> ready_in d (io \<sigma>)" by blast
  then show ?thesis
  proof cases
    case 3
    with park_slot_inv [OF assms(1,3) _ _ assms(2)] show ?thesis
      using assms(2,3) inv(7) by (simp add: poll_ready_def polled_def slot)
  qed (use assms(2,3) inv(7) pc in \<open>simp_all add: poll_ready_def polled_def\<close>)
qed

lemma poll_listed_inv:
  assumes "hs_inv \<sigma>" "may_poll t d \<sigma>" "listed \<sigma> t"
  shows "hs_inv (snd (hs_exec (Poll t d) \<sigma>))"
proof -
  note inv = hs_invD [OF assms(1)]
  let ?w = "wt \<sigma> t" and ?ev = "\<lparr>direction = d, tick = m_tick (io \<sigma>), shutdown = False\<rparr>"
  have leave: "hs_inv (\<sigma>\<lparr>wt := (wt \<sigma>)(t := ?w\<lparr>w_ready := False\<rparr>), pcs := (pcs \<sigma>)(t := p)\<rparr>)"
    if "t \<notin> set (m_waiters (io \<sigma>))" "p = Idle \<or> p = Observed ?ev (epoch \<sigma>)" for p
  proof -
    have "hs_inv (\<sigma>\<lparr>io := (io \<sigma>)\<lparr>m_waiters := remove1 t (m_waiters (io \<sigma>))\<rparr>, wt := (wt \<sigma>)(t := ?w\<lparr>w_ready := False\<rparr>),
        pcs := (pcs \<sigma>)(t := p), living := (living \<sigma>)(t := living \<sigma> t)\<rparr>)"
      by (rule leave_inv [OF assms(1)]) (use that inv(2) [of t] inv(8) in auto)
    then show ?thesis using that(1) by (simp add: remove1_idem)
  qed
  consider "m_shutdown (io \<sigma>)" | "\<not> m_shutdown (io \<sigma>)" "w_ready ?w" | "\<not> m_shutdown (io \<sigma>)" "\<not> w_ready ?w" "w_linked ?w"
    | "\<not> m_shutdown (io \<sigma>)" "\<not> w_ready ?w" "\<not> w_linked ?w" "ready_in d (io \<sigma>)"
    | "\<not> m_shutdown (io \<sigma>)" "\<not> w_ready ?w" "\<not> w_linked ?w" "\<not> ready_in d (io \<sigma>)" by blast
  then show ?thesis
  proof cases
    case 1
    then have t: "t \<notin> set (m_waiters (io \<sigma>))" "\<not> w_linked ?w" using inv(12) inv(2) [of t] by auto
    with 1 leave [OF t(1), of Idle] show ?thesis using assms(2,3) inv(7) by (simp add: poll_ready_listed_def polled_def)
  next
    case 2
    then have "t \<notin> set (m_waiters (io \<sigma>))" using inv(3) by blast
    with 2 leave [OF this] show ?thesis using assms(2,3) inv(7) by (simp add: poll_ready_listed_def polled_def)
  next
    case 3
    then have t: "t \<in> set (m_waiters (io \<sigma>))" using inv(2) by blast
    then have d: "pcs \<sigma> t = Parked (w_direction ?w)" "pcs \<sigma> t = Parked d" using inv(3) [of t] assms(2) by (auto simp: may_poll_def)
    have "hs_inv (\<sigma>\<lparr>io := (io \<sigma>)\<lparr>m_waiters := m_waiters (io \<sigma>)\<rparr>, wt := (wt \<sigma>)(t := ?w\<lparr>w_waker := Some t\<rparr>),
        pcs := (pcs \<sigma>)(t := Parked d), notified := notified \<sigma> - {t}\<rparr>)"
      by (rule park_listed_inv [OF assms(1,3)]) (use 3 t d in auto)
    with 3 show ?thesis using assms(2,3) inv(7) by (simp add: poll_ready_listed_def polled_def)
  next
    case 4
    then have t: "t \<notin> set (m_waiters (io \<sigma>))" using inv(2) by blast
    have "?w\<lparr>w_ready := False\<rparr> = ?w" using 4(2) by simp
    with 4 leave [OF t, of "Observed ?ev (epoch \<sigma>)"] show ?thesis
      using assms(2,3) inv(7) by (simp add: poll_ready_listed_def polled_def)
  next
    case 5
    then have t: "t \<notin> set (m_waiters (io \<sigma>))" using inv(2) by blast
    have "hs_inv (\<sigma>\<lparr>io := (io \<sigma>)\<lparr>m_waiters := m_waiters (io \<sigma>) @ [t]\<rparr>,
        wt := (wt \<sigma>)(t := ?w\<lparr>w_direction := d, w_waker := Some t, w_linked := True\<rparr>),
        pcs := (pcs \<sigma>)(t := Parked d), notified := notified \<sigma> - {t}\<rparr>)"
      by (rule park_listed_inv [OF assms(1,3)]) (use 5 t in auto)
    with 5 show ?thesis using assms(2,3) inv(7) by (simp add: poll_ready_listed_def polled_def)
  qed
qed

lemma nonblocking_inv:
  assumes "hs_inv \<sigma>" "\<And>d. nb d \<Longrightarrow> nonblocking \<sigma> d"
  shows "hs_inv (\<sigma>\<lparr>nonblocking := nb\<rparr>)"
proof -
  note inv = hs_invD [OF assms(1)]
  let ?t = "\<sigma>\<lparr>nonblocking := nb\<rparr>"
  have f: "io ?t = io \<sigma>" "wt ?t = wt \<sigma>" "listed ?t = listed \<sigma>" "pcs ?t = pcs \<sigma>" "living ?t = living \<sigma>"
    "notified ?t = notified \<sigma>" "dispatching ?t = dispatching \<sigma>" "epoch ?t = epoch \<sigma>"
    "nonblocking ?t = nb" "pending ?t = pending \<sigma>" by (simp_all add: fun_eq_iff pending_def)
  show ?thesis by (rule hs_invI; unfold f) (use inv assms(2) in blast)+
qed

lemma operate_inv:
  assumes "hs_inv \<sigma>"
  shows "hs_inv (snd (hs_exec (Operate t leaves) \<sigma>))"
proof (cases "pcs \<sigma> t")
  case (Observed ev k)
  note np = not_parked [OF assms, of t]
  have k: "k \<le> epoch \<sigma> \<and> tick ev = of_nat k" using hs_invD(13) [OF assms Observed] .
  show ?thesis
  proof (cases "nonblocking \<sigma> (direction ev)")
    case True
    let ?s = "\<sigma>\<lparr>nonblocking := (nonblocking \<sigma>)(direction ev := leaves)\<rparr>"
    have "hs_inv ?s" by (rule nonblocking_inv [OF assms]) (use True in \<open>auto split: if_splits\<close>)
    then have "hs_inv (?s\<lparr>pcs := (pcs ?s)(t := Idle)\<rparr>)" by (rule pc_inv) (use np Observed in auto)
    then show ?thesis using Observed True by simp
  next
    case False
    have "hs_inv (\<sigma>\<lparr>pcs := (pcs \<sigma>)(t := Would_Block ev k)\<rparr>)"
      by (rule pc_inv [OF assms]) (use np Observed False k in auto)
    then show ?thesis using Observed False by simp
  qed
qed (use assms in auto)

lemma clear_inv:
  assumes "hs_inv \<sigma>" and small: "epoch \<sigma> < 2 ^ 64"
  shows "hs_inv (snd (hs_exec (Clear t) \<sigma>))"
proof (cases "pcs \<sigma> t")
  case (Would_Block ev k)
  note inv = hs_invD [OF assms(1)] and np = not_parked [OF assms(1), of t]
  have k: "k \<le> epoch \<sigma>" "tick ev = of_nat k"
    and pend: "k = epoch \<sigma> \<Longrightarrow> nonblocking \<sigma> (direction ev) \<Longrightarrow> pending \<sigma> (direction ev)"
    using inv(14) [OF Would_Block] by blast+
  have idle: "hs_inv (\<sigma>\<lparr>pcs := (pcs \<sigma>)(t := Idle)\<rparr>)" by (rule pc_inv [OF assms(1)]) (use np Would_Block in auto)
  show ?thesis
  proof (cases "m_tick (io \<sigma>) = tick ev")
    case True
    then have "(of_nat (epoch \<sigma>) :: 64 word) = of_nat k" using inv(8) k(2) by simp
    then have "unat (of_nat (epoch \<sigma>) :: 64 word) = unat (of_nat k :: 64 word)" by simp
    then have e: "k = epoch \<sigma>" using small k(1) by (simp add: unat_of_nat take_bit_nat_eq_self)
    let ?s = "\<sigma>\<lparr>pcs := (pcs \<sigma>)(t := Idle)\<rparr>"
    let ?i = "snd (clear_ready ev (io \<sigma>))"
    let ?t = "?s\<lparr>io := ?i\<rparr>"
    note inv' = hs_invD [OF idle]
    have f: "io ?t = ?i" "wt ?t = wt ?s" "listed ?t = listed ?s" "pcs ?t = pcs ?s" "living ?t = living ?s"
      "notified ?t = notified ?s" "dispatching ?t = dispatching ?s" "epoch ?t = epoch ?s"
      "nonblocking ?t = nonblocking ?s" "pending ?t = pending ?s" by (simp_all add: fun_eq_iff pending_def)
    have g: "slot_in d ?i = slot_in d (io ?s)" "ready_in d ?i \<longleftrightarrow> ready_in d (io ?s) \<and> d \<noteq> direction ev"
      "m_level ?i = m_level (io ?s)" "m_tick ?i = m_tick (io ?s)" "m_shutdown ?i = m_shutdown (io ?s)"
      "m_reader ?i = m_reader (io ?s)" "m_writer ?i = m_writer (io ?s)" "m_waiters ?i = m_waiters (io ?s)" for d
      using True by (cases d; cases "direction ev"; simp add: clear_ready_def slot_in_def ready_in_def)+
    have flag: "pending ?s d" if "nonblocking ?s d" "\<not> (ready_in d (io ?s) \<and> d \<noteq> direction ev)" for d
    proof (cases "d = direction ev")
      case True
      then have "nonblocking \<sigma> (direction ev)" using that(1) by simp
      from pend [OF e this] True show ?thesis by (simp add: pending_def)
    next
      case False
      with that inv'(9) show ?thesis by blast
    qed
    have "hs_inv ?t" by (rule hs_invI; unfold f g) (use inv' flag in blast)+
    moreover have "?t = \<sigma>\<lparr>io := ?i, pcs := (pcs \<sigma>)(t := Idle)\<rparr>" by simp
    ultimately show ?thesis using Would_Block by simp
  next
    case False
    then show ?thesis using idle Would_Block by (simp add: clear_ready_def)
  qed
qed (use assms in auto)

lemma drop_inv:
  assumes "hs_inv \<sigma>"
  shows "hs_inv (snd (hs_exec (Drop t stays) \<sigma>))"
proof -
  note inv = hs_invD [OF assms]
  define w where "w = (if listed \<sigma> t then (wt \<sigma> t)\<lparr>w_linked := False, w_ready := False, w_waker := None\<rparr> else wt \<sigma> t)"
  have "hs_inv (\<sigma>\<lparr>io := (io \<sigma>)\<lparr>m_waiters := remove1 t (m_waiters (io \<sigma>))\<rparr>, wt := (wt \<sigma>)(t := w),
      pcs := (pcs \<sigma>)(t := Idle), living := (living \<sigma>)(t := living \<sigma> t \<and> stays)\<rparr>)"
    by (rule leave_inv [OF assms]) (use inv(2,3) in \<open>auto simp: w_def\<close>)
  moreover have "\<not> listed \<sigma> t \<Longrightarrow> t \<notin> set (m_waiters (io \<sigma>))" using inv(3) by blast
  moreover have "snd (hs_exec (Drop t stays) \<sigma>) = \<sigma>\<lparr>io := (io \<sigma>)\<lparr>m_waiters := remove1 t (m_waiters (io \<sigma>))\<rparr>,
      wt := (wt \<sigma>)(t := w), pcs := (pcs \<sigma>)(t := Idle), living := (living \<sigma>)(t := living \<sigma> t \<and> stays)\<rparr>"
  proof (cases "listed \<sigma> t \<and> \<not> w_linked (wt \<sigma> t)")
    case True
    then have "w = (wt \<sigma> t)\<lparr>w_ready := False, w_waker := None\<rparr>" unfolding w_def by (cases "wt \<sigma> t") simp
    then show ?thesis using True inv(2) [of t] by (simp add: cancel_wait_def remove1_idem)
  next
    case False
    then show ?thesis using calculation(2) by (auto simp: w_def cancel_wait_def remove1_idem)
  qed
  ultimately show ?thesis by simp
qed

text \<open>Listed waiters taken out, marked ready and woken.\<close>

lemma take_inv:
  assumes "hs_inv \<sigma>" and D: "D \<subseteq> set (m_waiters (io \<sigma>))"
    and N: "\<And>n. n \<in> D \<Longrightarrow> living \<sigma> n \<Longrightarrow> n \<in> N"
    and rest: "\<And>n. n \<in> set (m_waiters (io \<sigma>)) \<Longrightarrow> n \<notin> D \<Longrightarrow> ready_in (w_direction (wt \<sigma> n)) (io \<sigma>) \<Longrightarrow>
      \<exists>e. dp = Some e \<and> wants (w_direction (wt \<sigma> n)) e"
  shows "hs_inv (\<sigma>\<lparr>io := (io \<sigma>)\<lparr>m_waiters := filter (\<lambda>n. n \<notin> D) (m_waiters (io \<sigma>))\<rparr>,
    wt := released D (wt \<sigma>), notified := notified \<sigma> \<union> N, dispatching := dp\<rparr>)"
proof -
  note inv = hs_invD [OF assms(1)]
  let ?i = "(io \<sigma>)\<lparr>m_waiters := filter (\<lambda>n. n \<notin> D) (m_waiters (io \<sigma>))\<rparr>"
  let ?t = "\<sigma>\<lparr>io := ?i, wt := released D (wt \<sigma>), notified := notified \<sigma> \<union> N, dispatching := dp\<rparr>"
  have f: "io ?t = ?i" "wt ?t = released D (wt \<sigma>)" "listed ?t = listed \<sigma>"
    "pcs ?t = pcs \<sigma>" "living ?t = living \<sigma>" "notified ?t = notified \<sigma> \<union> N" "dispatching ?t = dp" "epoch ?t = epoch \<sigma>"
    "nonblocking ?t = nonblocking \<sigma>" "pending ?t = pending \<sigma>" by (simp_all add: fun_eq_iff pending_def)
  have g: "slot_in c ?i = slot_in c (io \<sigma>)" "ready_in c ?i = ready_in c (io \<sigma>)" "m_level ?i = m_level (io \<sigma>)"
    "m_tick ?i = m_tick (io \<sigma>)" "m_shutdown ?i = m_shutdown (io \<sigma>)" "m_reader ?i = m_reader (io \<sigma>)"
    "m_writer ?i = m_writer (io \<sigma>)" "m_waiters ?i = filter (\<lambda>n. n \<notin> D) (m_waiters (io \<sigma>))" for c
    by (simp_all add: slot_in_def ready_in_def)
  have ws: "n \<in> set (filter (\<lambda>n. n \<notin> D) (m_waiters (io \<sigma>))) \<longleftrightarrow> n \<in> set (m_waiters (io \<sigma>)) \<and> n \<notin> D" for n by simp
  have out: "n \<notin> D \<Longrightarrow> released D (wt \<sigma>) n = wt \<sigma> n" for n by (simp add: released_def)
  have inD: "n \<in> D \<Longrightarrow> \<not> w_linked (released D (wt \<sigma>) n)" for n by (simp add: released_def)
  show ?thesis
  proof (rule hs_invI; unfold f g ws)
    show "distinct (filter (\<lambda>n. n \<notin> D) (m_waiters (io \<sigma>)))" using inv(1) by simp
    show "w_linked (released D (wt \<sigma>) n) \<longleftrightarrow> n \<in> set (m_waiters (io \<sigma>)) \<and> n \<notin> D" for n
      using inv(2) [of n] out [of n] inD [of n] by (cases "n \<in> D") auto
    show "listed \<sigma> n \<and> w_waker (released D (wt \<sigma>) n) = Some n \<and> \<not> w_ready (released D (wt \<sigma>) n)
        \<and> pcs \<sigma> n = Parked (w_direction (released D (wt \<sigma>) n))" if "n \<in> set (m_waiters (io \<sigma>)) \<and> n \<notin> D" for n
      using that inv(3) [of n] out [of n] by simp
    show "if listed \<sigma> u then u \<in> set (m_waiters (io \<sigma>)) \<and> u \<notin> D else slot_in d (io \<sigma>) = Some u"
      if "pcs \<sigma> u = Parked d" "living \<sigma> u" "u \<notin> notified \<sigma> \<union> N" for u d
      using that inv(4) [OF that(1,2)] N [of u] by auto
    show "\<exists>d. pcs \<sigma> u = Parked d" if "listed \<sigma> u" "w_ready (released D (wt \<sigma>) u)" for u
    proof (cases "u \<in> D")
      case True
      then show ?thesis using D inv(3) by blast
    next
      case False
      then show ?thesis using that inv(5) [of u] out [of u] by simp
    qed
    show "\<exists>e. dp = Some e \<and> wants (w_direction (released D (wt \<sigma>) n)) e"
      if "n \<in> set (m_waiters (io \<sigma>)) \<and> n \<notin> D" "ready_in (w_direction (released D (wt \<sigma>) n)) (io \<sigma>)" for n
      using that rest [of n] out [of n] by simp
    show "filter (\<lambda>n. n \<notin> D) (m_waiters (io \<sigma>)) = [] \<and> m_reader (io \<sigma>) = None \<and> m_writer (io \<sigma>) = None"
      if "m_shutdown (io \<sigma>)" using inv(12) [OF that] by simp
  qed (use inv in blast)+
qed

lemma dispatch_more_inv:
  assumes "hs_inv \<sigma>" and e: "dispatching \<sigma> = Some e"
    and t: "dispatch_more (living \<sigma>) e (io \<sigma>) (wt \<sigma>) = (again, out, i, ws)"
  shows "hs_inv (\<sigma>\<lparr>io := i, wt := ws, notified := notified \<sigma> \<union> set out, dispatching := (if again then Some e else None)\<rparr>)"
proof -
  note inv = hs_invD [OF assms(1)]
  let ?ns = "m_waiters (io \<sigma>)"
  obtain kept where k: "take_listed (living \<sigma>) (wants_read e) (wants_write e) False kWakeBatch 0 ?ns (wt \<sigma>) = (again, out, kept, ws)"
    "i = (io \<sigma>)\<lparr>m_waiters := kept\<rparr>"
    using t by (auto simp: dispatch_more_def take_listed_wakers_def Let_def split: prod.splits)
  from take_listed_spec [OF k(1) inv(1)] obtain D where D: "D \<subseteq> set ?ns" "kept = filter (\<lambda>n. n \<notin> D) ?ns"
    "ws = released D (wt \<sigma>)" "set out = {x. \<exists>n\<in>D. w_waker (wt \<sigma> n) = Some x \<and> living \<sigma> x}"
    "\<not> again \<longrightarrow> (\<forall>n\<in>set ?ns. matches (wants_read e) (wants_write e) False (wt \<sigma> n) \<longrightarrow> n \<in> D)" by auto
  have m: "matches (wants_read e) (wants_write e) False w \<longleftrightarrow> wants (w_direction w) e" for w
    by (simp add: matches_def wants_def)
  show ?thesis unfolding k(2) D(2,3)
  proof (rule take_inv [OF assms(1) D(1)])
    show "n \<in> set out" if "n \<in> D" "living \<sigma> n" for n
      using that D(1) inv(3) [of n] unfolding D(4) by blast
    show "\<exists>e'. (if again then Some e else None) = Some e' \<and> wants (w_direction (wt \<sigma> n)) e'"
      if "n \<in> set ?ns" "n \<notin> D" "ready_in (w_direction (wt \<sigma> n)) (io \<sigma>)" for n
      using that D(5) inv(11) [OF that(1,3)] e by (auto simp: m)
  qed
qed

text \<open>The flags, slots and tick of an event, before its listed waiters are taken.\<close>

definition flagged :: "Event \<Rightarrow> ScheduledIo \<Rightarrow> ScheduledIo" where
  "flagged e i = i\<lparr>m_readable := m_readable i \<or> wants_read e, m_reader := (if wants_read e then None else m_reader i),
     m_writable := m_writable i \<or> wants_write e, m_writer := (if wants_write e then None else m_writer i),
     m_tick := m_tick i + 1\<rparr>"

definition slot_wakers :: "(waker \<Rightarrow> bool) \<Rightarrow> Event \<Rightarrow> ScheduledIo \<Rightarrow> waker list" where
  "slot_wakers alive e i = wake_opt (if wants_read e then weak_lock alive (m_reader i) else None)
     @ wake_opt (if wants_write e then weak_lock alive (m_writer i) else None)"

lemma dispatch_first_alt:
  assumes "\<not> m_level i"
  shows "dispatch_first alive e i ws =
    (case dispatch_more alive e (flagged e i) ws of (again, out, j, vs) \<Rightarrow> (again, slot_wakers alive e i @ out, j, vs))"
  using assms by (simp add: dispatch_first_def dispatch_more_def slot_wakers_def flagged_def Let_def split: prod.splits)

lemma slot_wakers_mem: "slot_in d i = Some t \<Longrightarrow> wants d e \<Longrightarrow> alive t \<Longrightarrow> t \<in> set (slot_wakers alive e i)"
  by (cases d) (auto simp: slot_wakers_def slot_in_def wants_def weak_lock_def)

lemma flagged_inv:
  assumes "hs_inv \<sigma>" and dp: "dispatching \<sigma> = None" and ev: "events \<sigma> = e # es"
  shows "hs_inv (\<sigma>\<lparr>io := flagged e (io \<sigma>), notified := notified \<sigma> \<union> set (slot_wakers (living \<sigma>) e (io \<sigma>)),
    events := es, dispatching := Some e, epoch := epoch \<sigma> + 1\<rparr>)"
proof -
  note inv = hs_invD [OF assms(1)]
  let ?i = "flagged e (io \<sigma>)" and ?n = "notified \<sigma> \<union> set (slot_wakers (living \<sigma>) e (io \<sigma>))"
  let ?t = "\<sigma>\<lparr>io := ?i, notified := ?n, events := es, dispatching := Some e, epoch := epoch \<sigma> + 1\<rparr>"
  have f: "io ?t = ?i" "wt ?t = wt \<sigma>" "listed ?t = listed \<sigma>"
    "pcs ?t = pcs \<sigma>" "living ?t = living \<sigma>" "notified ?t = ?n" "dispatching ?t = Some e" "epoch ?t = epoch \<sigma> + 1"
    "nonblocking ?t = nonblocking \<sigma>" by simp_all
  have p: "pending \<sigma> d \<longleftrightarrow> wants d e \<or> pending ?t d" for d by (auto simp: pending_def ev)
  have g: "slot_in c ?i = (if wants c e then None else slot_in c (io \<sigma>))" "ready_in c ?i \<longleftrightarrow> ready_in c (io \<sigma>) \<or> wants c e"
    "m_level ?i = m_level (io \<sigma>)" "m_tick ?i = m_tick (io \<sigma>) + 1" "m_shutdown ?i = m_shutdown (io \<sigma>)"
    "m_waiters ?i = m_waiters (io \<sigma>)" for c
    by (cases c; simp add: flagged_def slot_in_def ready_in_def wants_def)+
  show ?thesis
  proof (rule hs_invI; unfold f g)
    show "if listed \<sigma> u then u \<in> set (m_waiters (io \<sigma>)) else (if wants d e then None else slot_in d (io \<sigma>)) = Some u"
      if "pcs \<sigma> u = Parked d" "living \<sigma> u" "u \<notin> ?n" for u d
      using that inv(4) [OF that(1,2)] slot_wakers_mem [of d "io \<sigma>" u e "living \<sigma>"] by (cases "listed \<sigma> u") auto
    show "\<not> listed \<sigma> u" if "(if wants d e then None else slot_in d (io \<sigma>)) = Some u" for d u
      using that inv(6) [of d u] by (auto split: if_splits)
    show "m_tick (io \<sigma>) + 1 = of_nat (epoch \<sigma> + 1)" using inv(8) by simp
    show "pending ?t d" if "nonblocking \<sigma> d" "\<not> (ready_in d (io \<sigma>) \<or> wants d e)" for d
      using that inv(9) [of d] p [of d] by blast
    show "(if wants d e then None else slot_in d (io \<sigma>)) = None" if "ready_in d (io \<sigma>) \<or> wants d e" for d
      using that inv(10) [of d] by auto
    show "\<exists>e'. Some e = Some e' \<and> wants (w_direction (wt \<sigma> n)) e'"
      if "n \<in> set (m_waiters (io \<sigma>))" "ready_in (w_direction (wt \<sigma> n)) (io \<sigma>) \<or> wants (w_direction (wt \<sigma> n)) e" for n
      using that inv(11) [of n] dp by auto
    show "m_waiters (io \<sigma>) = [] \<and> m_reader ?i = None \<and> m_writer ?i = None" if "m_shutdown (io \<sigma>)"
      using inv(12) [OF that] by (simp add: flagged_def)
    show "k \<le> epoch \<sigma> + 1 \<and> tick v = of_nat k" if "pcs \<sigma> u = Observed v k" for u v k
      using inv(13) [OF that] by simp
    show "k \<le> epoch \<sigma> + 1 \<and> tick v = of_nat k \<and> (k = epoch \<sigma> + 1 \<longrightarrow> nonblocking \<sigma> (direction v) \<longrightarrow> pending ?t (direction v))"
      if "pcs \<sigma> u = Would_Block v k" for u v k
      using inv(14) [OF that] by auto
  qed (use inv in blast)+
qed

lemma dispatch_inv:
  assumes "hs_inv \<sigma>"
  shows "hs_inv (snd (hs_exec Dispatch \<sigma>))"
proof (cases "dispatching \<sigma> = None \<and> events \<sigma> \<noteq> []")
  case True
  then obtain e es where ev: "events \<sigma> = e # es" by (cases "events \<sigma>") auto
  let ?s = "\<sigma>\<lparr>io := flagged e (io \<sigma>), notified := notified \<sigma> \<union> set (slot_wakers (living \<sigma>) e (io \<sigma>)),
    events := es, dispatching := Some e, epoch := epoch \<sigma> + 1\<rparr>"
  have s: "hs_inv ?s" using flagged_inv [OF assms _ ev] True by simp
  obtain again out i ws where t: "dispatch_more (living \<sigma>) e (flagged e (io \<sigma>)) (wt \<sigma>) = (again, out, i, ws)"
    by (metis prod_cases4)
  have "\<not> m_level (io \<sigma>)" using hs_invD(7) [OF assms] .
  then have "dispatch_first (living \<sigma>) e (io \<sigma>) (wt \<sigma>) = (again, slot_wakers (living \<sigma>) e (io \<sigma>) @ out, i, ws)"
    by (simp add: dispatch_first_alt t)
  then have "snd (hs_exec Dispatch \<sigma>) = ?s\<lparr>io := i, wt := ws, notified := notified ?s \<union> set out,
      dispatching := (if again then Some e else None)\<rparr>"
    using True ev by (intro hs_sys.equality) (simp_all add: Un_assoc)
  with dispatch_more_inv [OF s, of e again out i ws] t show ?thesis by simp
next
  case False
  then show ?thesis using assms by (auto split: option.splits list.splits)
qed

lemma released_released: "released D (released C ws) = released (C \<union> D) ws"
  by (auto simp: released_def fun_eq_iff)

lemma take_all_listed_spec:
  assumes "distinct (m_waiters i)" "take_all_listed alive i ws = (out, j, vs)"
  shows "j = i\<lparr>m_waiters := []\<rparr> \<and> vs = released (set (m_waiters i)) ws
    \<and> {x. \<exists>n\<in>set (m_waiters i). w_waker (ws n) = Some x \<and> alive x} \<subseteq> set out"
  using assms
proof (induction alive i ws arbitrary: out j vs rule: take_all_listed.induct)
  case (1 alive i ws)
  let ?ns = "m_waiters i"
  obtain again out1 kept ws1 where t: "take_listed alive True True True kWakeBatch 0 ?ns ws = (again, out1, kept, ws1)"
    by (metis prod_cases4)
  from take_listed_spec [OF t "1.prems"(1)] obtain D where D: "D \<subseteq> set ?ns" "kept = filter (\<lambda>n. n \<notin> D) ?ns"
    "ws1 = released D ws" "set out1 = {x. \<exists>n\<in>D. w_waker (ws n) = Some x \<and> alive x}"
    "\<not> again \<longrightarrow> (\<forall>n\<in>set ?ns. matches True True True (ws n) \<longrightarrow> n \<in> D)" by auto
  have whole: "\<not> again \<Longrightarrow> D = set ?ns" using D(1,5) by (auto simp: matches_def)
  have l: "take_listed_wakers alive True True True kWakeBatch i ws = (again, out1, i\<lparr>m_waiters := kept\<rparr>, ws1)"
    by (simp add: take_listed_wakers_def t)
  show ?case
  proof (cases again)
    case True
    obtain out2 where r: "take_all_listed alive (i\<lparr>m_waiters := kept\<rparr>) ws1 = (out2, j, vs)" "out = out1 @ out2"
      using "1.prems"(2) True l by (auto simp: take_all_listed.simps [of alive i] Let_def split: prod.splits)
    have "distinct (m_waiters (i\<lparr>m_waiters := kept\<rparr>))" using "1.prems"(1) by (simp add: D(2))
    from "1.IH" [OF l [symmetric] _ refl refl this r(1)] True
    have IH: "j = i\<lparr>m_waiters := []\<rparr>" "vs = released (set kept) ws1"
      "{x. \<exists>n\<in>set kept. w_waker (ws1 n) = Some x \<and> alive x} \<subseteq> set out2" by simp_all
    have "set kept = set ?ns - D" by (auto simp: D(2))
    moreover have "D \<union> (set ?ns - D) = set ?ns" using D(1) by auto
    ultimately have "vs = released (set ?ns) ws" using IH(2) D(3) by (simp add: released_released)
    moreover have "x \<in> set out" if "n \<in> set ?ns" "w_waker (ws n) = Some x" "alive x" for n x
    proof (cases "n \<in> D")
      case True
      then show ?thesis using that D(4) r(2) by auto
    next
      case False
      then have "n \<in> set kept" "ws1 n = ws n" using that(1) by (simp_all add: D(2,3) released_def)
      then have "x \<in> {x. \<exists>n\<in>set kept. w_waker (ws1 n) = Some x \<and> alive x}"
        using that by (intro CollectI bexI [of _ n]) simp_all
      then show ?thesis using IH(3) r(2) by auto
    qed
    ultimately show ?thesis using IH(1) by blast
  next
    case False
    then have "kept = []" using D(2) whole by simp
    then show ?thesis using "1.prems"(2) False l D(3,4) whole by (simp add: take_all_listed.simps [of alive i])
  qed
qed

lemma shutdown_inv:
  assumes "hs_inv \<sigma>"
  shows "hs_inv (snd (hs_exec Shut_Down \<sigma>))"
proof -
  note inv = hs_invD [OF assms]
  let ?sl = "wake_opt (weak_lock (living \<sigma>) (m_reader (io \<sigma>))) @ wake_opt (weak_lock (living \<sigma>) (m_writer (io \<sigma>)))"
  let ?i = "(io \<sigma>)\<lparr>m_shutdown := True, m_reader := None, m_writer := None\<rparr>"
  obtain out j vs where t: "take_all_listed (living \<sigma>) ?i (wt \<sigma>) = (out, j, vs)" by (metis prod_cases3)
  have d: "distinct (m_waiters ?i)" using inv(1) by simp
  have T: "j = ?i\<lparr>m_waiters := []\<rparr>" "vs = released (set (m_waiters (io \<sigma>))) (wt \<sigma>)"
    "{x. \<exists>n\<in>set (m_waiters (io \<sigma>)). w_waker (wt \<sigma> n) = Some x \<and> living \<sigma> x} \<subseteq> set out"
    using take_all_listed_spec [OF d t] by simp_all
  let ?s = "\<sigma>\<lparr>io := (io \<sigma>)\<lparr>m_waiters := filter (\<lambda>n. n \<notin> set (m_waiters (io \<sigma>))) (m_waiters (io \<sigma>))\<rparr>,
      wt := released (set (m_waiters (io \<sigma>))) (wt \<sigma>), notified := notified \<sigma> \<union> (set ?sl \<union> set out), dispatching := dispatching \<sigma>\<rparr>"
  have "hs_inv ?s"
  proof (rule take_inv [OF assms])
    show "n \<in> set ?sl \<union> set out" if "n \<in> set (m_waiters (io \<sigma>))" "living \<sigma> n" for n
      using that inv(3) [OF that(1)] T(3) by blast
  qed auto
  note inv' = hs_invD [OF this]
  let ?t = "snd (hs_exec Shut_Down \<sigma>)"
  have e: "?t = \<sigma>\<lparr>io := j, wt := vs, notified := notified \<sigma> \<union> set (?sl @ out)\<rparr>"
    using inv(7) t by (simp add: shutdown_io_def Let_def)
  have f: "io ?t = j" "wt ?t = wt ?s" "listed ?t = listed ?s" "pcs ?t = pcs ?s" "living ?t = living ?s"
    "notified ?t = notified ?s" "dispatching ?t = dispatching ?s" "epoch ?t = epoch ?s"
    "nonblocking ?t = nonblocking ?s" "pending ?t = pending ?s" unfolding e T(2) by (simp_all add: fun_eq_iff pending_def Un_assoc)
  have g: "slot_in c j = None" "ready_in c j = ready_in c (io ?s)" "m_level j = m_level (io ?s)"
    "m_tick j = m_tick (io ?s)" "m_waiters j = m_waiters (io ?s)" "m_reader j = None" "m_writer j = None" "m_waiters (io ?s) = []" for c
    unfolding T(1) by (cases c; simp add: slot_in_def ready_in_def)+
  have sl: "t \<in> set ?sl" if "slot_in d (io \<sigma>) = Some t" "living \<sigma> t" for d t
    using that by (cases d) (auto simp: slot_in_def weak_lock_def)
  show ?thesis
  proof (rule hs_invI; unfold f g)
    show "if listed ?s u then u \<in> set [] else None = Some u"
      if "pcs ?s u = Parked d" "living ?s u" "u \<notin> notified ?s" for u d
    proof -
      have u: "pcs \<sigma> u = Parked d" "living \<sigma> u" "u \<notin> notified \<sigma>" "u \<notin> set ?sl" "u \<notin> set out" using that by auto
      have "\<not> listed \<sigma> u \<Longrightarrow> slot_in d (io \<sigma>) = Some u" using inv(4) [OF u(1-3)] by simp
      moreover have "listed \<sigma> u \<Longrightarrow> u \<in> set (m_waiters (io \<sigma>))" using inv(4) [OF u(1-3)] by simp
      ultimately show ?thesis using sl [of d u] u inv(3) [of u] T(3) by blast
    qed
  qed (use inv' [unfolded g] in \<open>auto; fail | blast\<close>)+
qed

section \<open>No readiness is lost\<close>

text \<open>The invariant holds while the ticks have not come round.\<close>

definition hs_safe :: "hs_sys \<Rightarrow> bool" where
  "hs_safe \<sigma> \<longleftrightarrow> epoch \<sigma> < 2 ^ 64 \<longrightarrow> hs_inv \<sigma>"

lemma epoch_mono: "epoch \<sigma> \<le> epoch (snd (hs_exec op \<sigma>))"
  by (cases op) (auto simp: Let_def polled_def split: prod.splits option.splits list.splits pc.splits sum.splits)

lemma hs_exec_safe:
  assumes "hs_safe \<sigma>"
  shows "hs_safe (snd (hs_exec op \<sigma>))"
  unfolding hs_safe_def
proof
  assume "epoch (snd (hs_exec op \<sigma>)) < 2 ^ 64"
  then have small: "epoch \<sigma> < 2 ^ 64" using epoch_mono [of \<sigma> op] by simp
  then have inv: "hs_inv \<sigma>" using assms by (simp add: hs_safe_def)
  show "hs_inv (snd (hs_exec op \<sigma>))"
  proof (cases op)
    case (Arrive e c)
    then show ?thesis using arrive_inv [OF inv] by simp
  next
    case Dispatch
    then show ?thesis using dispatch_inv [OF inv] by simp
  next
    case Dispatch_More
    then show ?thesis using dispatch_more_inv [OF inv] inv by (auto simp: Let_def split: option.splits prod.splits)
  next
    case (Poll t d)
    show ?thesis
    proof (cases "may_poll t d \<sigma>")
      case True
      then show ?thesis unfolding Poll using poll_listed_inv [OF inv True] poll_slot_inv [OF inv True] by (cases "listed \<sigma> t")
    next
      case False
      then show ?thesis using Poll inv by simp
    qed
  next
    case (Operate t b)
    then show ?thesis using operate_inv [OF inv] by simp
  next
    case (Clear t)
    then show ?thesis using clear_inv [OF inv small] by simp
  next
    case (Drop t b)
    then show ?thesis using drop_inv [OF inv] by simp
  next
    case Shut_Down
    then show ?thesis using shutdown_inv [OF inv] by simp
  qed
qed

lemma hs_init_safe: "hs_safe (hs_init l)"
  by (simp add: hs_safe_def hs_init_inv)

interpretation handshake: op_system "hs_init l" hs_exec hs_safe for l
  by unfold_locales (simp_all only: hs_exec_safe hs_init_safe)

lemma parked_waits:
  assumes "hs_inv \<sigma>" "pcs \<sigma> t = Parked d" "living \<sigma> t" "t \<notin> notified \<sigma>" "ready_in d (io \<sigma>)"
  shows "\<exists>e. dispatching \<sigma> = Some e \<and> wants d e"
proof (cases "listed \<sigma> t")
  case True
  then have t: "t \<in> set (m_waiters (io \<sigma>))" using hs_invD(4) [OF assms(1-4)] by simp
  then have "w_direction (wt \<sigma> t) = d" using hs_invD(3) [OF assms(1) t] assms(2) by simp
  then show ?thesis using hs_invD(11) [OF assms(1) t] assms(5) by simp
next
  case False
  then have "slot_in d (io \<sigma>) = Some t" using hs_invD(4) [OF assms(1-4)] by simp
  then show ?thesis using hs_invD(10) [OF assms(1,5)] by simp
qed

text \<open>
  C6. No readiness is lost in the handshake between \<^verbatim>\<open>IoRegistration\<close> and
  \<^verbatim>\<open>IoDriver::dispatch\<close>, whatever the interleaving of the sections of the tasks that poll, run
  their operation, clear, are polled again or are dropped, with arriving events, dispatches in batches
  of 32 and a shutdown, and for the slot form and the waiter-list form at once: while fewer than
  \<open>2 ^ 64\<close> events have been dispatched, a live task that is parked and not notified waits on a driver
  that is not shut down, and if its operation would not block then an event for its direction has
  still to be dispatched or is being dispatched.
\<close>

theorem io_no_lost_readiness:
  assumes "(outs, \<sigma>) = run_ops hs_exec ops (hs_init l)" "epoch \<sigma> < 2 ^ 64"
    and t: "pcs \<sigma> t = Parked d" "living \<sigma> t" "t \<notin> notified \<sigma>"
  shows "\<not> m_shutdown (io \<sigma>) \<and>
    (nonblocking \<sigma> d \<longrightarrow> (\<exists>e\<in>set (events \<sigma>). wants d e) \<or> (\<exists>e. dispatching \<sigma> = Some e \<and> wants d e))"
proof -
  have "hs_safe \<sigma>" using handshake.run_inv [of ops l] assms(1) by (metis snd_conv)
  then have inv: "hs_inv \<sigma>" using assms(2) by (simp add: hs_safe_def)
  have "\<not> m_shutdown (io \<sigma>)"
    using hs_invD(12) [OF inv] hs_invD(4) [OF inv t] by (cases d) (auto simp: slot_in_def split: if_splits)
  then show ?thesis using parked_waits [OF inv t] hs_invD(9) [OF inv] unfolding pending_def by blast
qed

definition demo_ops :: "hs_op list" where
  "demo_ops =
     (let r = \<lparr>e_readable = True, e_writable = False, e_error = False, e_hup = False\<rparr> in
      [Poll 1 Read, Operate 1 False, Poll 2 Read, Operate 2 False, Arrive r False, Dispatch, Clear 1, Poll 1 Read,
       Operate 1 False, Clear 2, Poll 2 Read, Operate 2 False, Clear 2, Poll 2 Read, Arrive r False])"

text \<open>
  Task 1 sees the data that arrived after its own failed attempt, since the tick keeps it; task 2
  parks, and the next event is on its way to it.
\<close>

theorem io_no_lost_readiness_witness:
  "let \<sigma> = snd (run_ops hs_exec demo_ops (hs_init (\<lambda>t. t = 2))) in
     pcs \<sigma> 1 = Idle \<and> pcs \<sigma> 2 = Parked Read \<and> 2 \<notin> notified \<sigma> \<and> nonblocking \<sigma> Read \<and> \<not> m_shutdown (io \<sigma>)
     \<and> ((\<exists>e\<in>set (events \<sigma>). wants Read e) \<or> (\<exists>e. dispatching \<sigma> = Some e \<and> wants Read e))"
proof -
  define s where s: "s = run_ops hs_exec demo_ops (hs_init (\<lambda>t. t = 2))"
  have "pcs (snd s) 1 = Idle" unfolding s by code_simp
  moreover have p: "pcs (snd s) 2 = Parked Read" unfolding s by code_simp
  moreover have "living (snd s) 2" unfolding s by code_simp
  moreover have "2 \<notin> notified (snd s)" unfolding s by code_simp
  moreover have "nonblocking (snd s) Read" unfolding s by code_simp
  moreover have "epoch (snd s) = 1" unfolding s by code_simp
  moreover from this have "epoch (snd s) < 2 ^ 64" by simp
  moreover have "(fst s, snd s) = run_ops hs_exec demo_ops (hs_init (\<lambda>t. t = 2))" by (simp add: s)
  note io_no_lost_readiness [OF this _ p]
  ultimately show ?thesis unfolding s [symmetric] Let_def by blast
qed

section \<open>A dispatched event reaches its waiters\<close>

definition rounds_left :: "hs_sys \<Rightarrow> nat" where
  "rounds_left \<sigma> = (if dispatching \<sigma> = None then 0 else length (m_waiters (io \<sigma>)) + 1)"

lemma dispatch_more_frame:
  assumes "dispatch_more alive e i ws = (again, out, j, vs)"
  shows "ready_in d j = ready_in d i" "length (m_waiters j) + (if again then 1 else 0) \<le> length (m_waiters i)"
proof -
  show "ready_in d j = ready_in d i"
    using assms by (auto simp: dispatch_more_def take_listed_wakers_def ready_in_def split: prod.splits)
qed (rule dispatch_more_length [OF assms])

lemma more_step:
  assumes "hs_exec Dispatch_More \<sigma> = (out, \<tau>)"
  shows "pcs \<tau> = pcs \<sigma> \<and> living \<tau> = living \<sigma> \<and> ready_in d (io \<tau>) = ready_in d (io \<sigma>) \<and> epoch \<tau> = epoch \<sigma>
    \<and> rounds_left \<tau> \<le> rounds_left \<sigma> - 1"
proof (cases "dispatching \<sigma>")
  case None
  then show ?thesis using assms by (auto simp: rounds_left_def)
next
  case (Some e)
  obtain again out j vs where t: "dispatch_more (living \<sigma>) e (io \<sigma>) (wt \<sigma>) = (again, out, j, vs)"
    by (metis prod_cases4)
  have "\<tau> = \<sigma>\<lparr>io := j, wt := vs, notified := notified \<sigma> \<union> set out, dispatching := (if again then Some e else None)\<rparr>"
    using assms Some t by auto
  then show ?thesis using dispatch_more_frame [OF t] Some by (simp add: rounds_left_def split: if_splits)
qed

lemma more_rounds:
  assumes "hs_safe \<sigma>" "rounds_left \<sigma> \<le> k"
  shows "hs_safe (snd (run_ops hs_exec (replicate k Dispatch_More) \<sigma>))
    \<and> pcs (snd (run_ops hs_exec (replicate k Dispatch_More) \<sigma>)) = pcs \<sigma>
    \<and> living (snd (run_ops hs_exec (replicate k Dispatch_More) \<sigma>)) = living \<sigma>
    \<and> ready_in d (io (snd (run_ops hs_exec (replicate k Dispatch_More) \<sigma>))) = ready_in d (io \<sigma>)
    \<and> epoch (snd (run_ops hs_exec (replicate k Dispatch_More) \<sigma>)) = epoch \<sigma>
    \<and> dispatching (snd (run_ops hs_exec (replicate k Dispatch_More) \<sigma>)) = None"
  using assms
proof (induction k arbitrary: \<sigma>)
  case 0
  then show ?case by (auto simp: rounds_left_def split: if_splits)
next
  case (Suc k)
  obtain out \<tau> where t: "hs_exec Dispatch_More \<sigma> = (out, \<tau>)" by force
  note m = more_step [OF t, of d]
  have "hs_safe \<tau>" using hs_exec_safe [OF Suc.prems(1), of Dispatch_More] t by simp
  moreover have "rounds_left \<tau> \<le> k" using m Suc.prems(2) by linarith
  moreover have "snd (run_ops hs_exec (replicate (Suc k) Dispatch_More) \<sigma>) = snd (run_ops hs_exec (replicate k Dispatch_More) \<tau>)"
    using t by (simp add: Let_def split: prod.splits)
  ultimately show ?case using Suc.IH [of \<tau>] m by simp
qed

lemma dispatch_step:
  assumes "hs_inv \<sigma>" "dispatching \<sigma> = None" "events \<sigma> = e # es"
  shows "pcs (snd (hs_exec Dispatch \<sigma>)) = pcs \<sigma> \<and> living (snd (hs_exec Dispatch \<sigma>)) = living \<sigma>
    \<and> (wants d e \<longrightarrow> ready_in d (io (snd (hs_exec Dispatch \<sigma>)))) \<and> epoch (snd (hs_exec Dispatch \<sigma>)) = epoch \<sigma> + 1
    \<and> rounds_left (snd (hs_exec Dispatch \<sigma>)) \<le> length (m_waiters (io \<sigma>))"
proof -
  obtain again out j vs where t: "dispatch_more (living \<sigma>) e (flagged e (io \<sigma>)) (wt \<sigma>) = (again, out, j, vs)"
    by (metis prod_cases4)
  have "\<not> m_level (io \<sigma>)" using hs_invD(7) [OF assms(1)] .
  then have "dispatch_first (living \<sigma>) e (io \<sigma>) (wt \<sigma>) = (again, slot_wakers (living \<sigma>) e (io \<sigma>) @ out, j, vs)"
    by (simp add: dispatch_first_alt t)
  moreover have "wants d e \<Longrightarrow> ready_in d (flagged e (io \<sigma>))" by (cases d) (simp_all add: flagged_def ready_in_def wants_def)
  moreover have "length (m_waiters (flagged e (io \<sigma>))) = length (m_waiters (io \<sigma>))" by (simp add: flagged_def)
  ultimately show ?thesis using dispatch_more_frame [OF t] assms(2,3) by (auto simp: rounds_left_def)
qed

text \<open>
  C8. A dispatched event wakes everyone it is for: in every reachable state with an event to report,
  the dispatch of it and at most as many further rounds as waiters are linked notify every live task
  that is parked in a direction the event is for, an error or a hang-up being for both; the rounds of
  at most 32 wakers neither stop early nor go on for ever.
\<close>

theorem io_dispatch_wakes_parked:
  assumes "(outs, \<sigma>) = run_ops hs_exec ops (hs_init l)" "epoch \<sigma> + 1 < 2 ^ 64"
    and "dispatching \<sigma> = None" "events \<sigma> = e # es"
    and t: "pcs \<sigma> t = Parked d" "living \<sigma> t" "wants d e"
  shows "t \<in> notified (snd (run_ops hs_exec (Dispatch # replicate (length (m_waiters (io \<sigma>))) Dispatch_More) \<sigma>))
    \<and> dispatching (snd (run_ops hs_exec (Dispatch # replicate (length (m_waiters (io \<sigma>))) Dispatch_More) \<sigma>)) = None"
proof -
  have safe: "hs_safe \<sigma>" using handshake.run_inv [of ops l] assms(1) by (metis snd_conv)
  then have inv: "hs_inv \<sigma>" using assms(2) by (simp add: hs_safe_def)
  obtain out \<tau> where d: "hs_exec Dispatch \<sigma> = (out, \<tau>)" by force
  note D = dispatch_step [OF inv assms(3,4), of d, unfolded d snd_conv]
  let ?k = "length (m_waiters (io \<sigma>))"
  let ?r = "snd (run_ops hs_exec (replicate ?k Dispatch_More) \<tau>)"
  have "hs_safe \<tau>" using hs_exec_safe [OF safe, of Dispatch] d by simp
  from more_rounds [OF this, of ?k d] D t
  have R: "hs_safe ?r" "pcs ?r t = Parked d" "living ?r t" "ready_in d (io ?r)" "epoch ?r < 2 ^ 64" "dispatching ?r = None"
    using assms(2) by auto
  then have "t \<in> notified ?r" using parked_waits [of ?r t d] by (auto simp: hs_safe_def)
  moreover have "snd (run_ops hs_exec (Dispatch # replicate ?k Dispatch_More) \<sigma>) = ?r"
    using d by (simp add: Let_def split: prod.splits)
  ultimately show ?thesis using R(6) by simp
qed

definition demo_wake_ops :: "hs_op list" where
  "demo_wake_ops =
     (let e = \<lparr>e_readable = False, e_writable = False, e_error = True, e_hup = False\<rparr> in
      [Poll 1 Read, Operate 1 False, Clear 1, Poll 1 Read, Poll 2 Read, Poll 3 Write, Operate 3 False, Clear 3, Poll 3 Write, Arrive e False])"

theorem io_dispatch_wakes_parked_witness:
  "let \<sigma> = snd (run_ops hs_exec demo_wake_ops (hs_init (\<lambda>t. t = 2))) in
     pcs \<sigma> 2 = Parked Read \<and> pcs \<sigma> 3 = Parked Write \<and> m_waiters (io \<sigma>) = [2]
     \<and> 2 \<in> notified (snd (run_ops hs_exec [Dispatch, Dispatch_More] \<sigma>))"
proof -
  define s where s: "s = run_ops hs_exec demo_wake_ops (hs_init (\<lambda>t. t = 2))"
  define e where "e = \<lparr>e_readable = False, e_writable = False, e_error = True, e_hup = False\<rparr>"
  have p: "pcs (snd s) 2 = Parked Read" unfolding s by code_simp
  have ev: "events (snd s) = [e]" unfolding s e_def by code_simp
  have w: "m_waiters (io (snd s)) = [2]" unfolding s by code_simp
  have "dispatching (snd s) = None" "living (snd s) 2" "pcs (snd s) 3 = Parked Write" "epoch (snd s) = 0"
    unfolding s by code_simp+
  moreover have "wants Read e" by (simp add: e_def wants_def wants_read_def)
  moreover have "(fst s, snd s) = run_ops hs_exec demo_wake_ops (hs_init (\<lambda>t. t = 2))" by (simp add: s)
  note io_dispatch_wakes_parked [OF this _ _ ev p]
  ultimately show ?thesis unfolding s [symmetric] Let_def using p w by simp
qed

end
