(* ===== verification/Io_Driver.thy ===== *)
theory Io_Driver
  imports Io_Registration Timer_Queue
begin

text \<open>
  \<^verbatim>\<open>IoDriver\<close> of \<^verbatim>\<open>include/coro/runtime/io_driver.h\<close> and \<^verbatim>\<open>src/runtime/io_driver.cpp\<close>: the
  registrations it owns, the turn, the deferred release of dropped registrations and the shutdown. The
  states of the registrations are objects on a heap, named by the address that is their key in the
  poller; a released one is no longer there, and reaching for it is a fault. What the poller accepts
  and reports is an argument. The driver's own list of live registrations is their list.
\<close>

section \<open>The driver\<close>

type_synonym RawFd = nat
type_synonym key = nat

record io_driver =
  heap :: "key \<rightharpoonup> ScheduledIo"
  nodes :: waiters
  poller :: "RawFd \<rightharpoonup> key"
  unpark_calls :: nat
  m_registrations :: "key list"
  d_closed :: bool
  m_shut_down :: bool
  m_pending_release :: "key list"
  m_pending_release_count :: nat
  m_timers :: tqueue


definition driver_unpark :: "io_driver \<Rightarrow> io_driver" where
  "driver_unpark d = d\<lparr>unpark_calls := unpark_calls d + 1\<rparr>"

datatype driver_error = Shut_Down_Error | Os_Error




definition driver_add_timer :: "int \<Rightarrow> waker \<Rightarrow> io_driver \<Rightarrow> driver_error + TimerId \<times> io_driver" where
  "driver_add_timer at w d =
     (let (ins, q) = tq_insert at w (m_timers d); d = d\<lparr>m_timers := q\<rparr> in
      if ins_closed ins then Inl Shut_Down_Error
      else Inr (ins_id ins, if unpark ins then driver_unpark d else d))"

definition driver_cancel_timer :: "TimerId \<Rightarrow> io_driver \<Rightarrow> io_driver" where
  "driver_cancel_timer i d = d\<lparr>m_timers := tq_cancel i (m_timers d)\<rparr>"

section \<open>The turn\<close>

text \<open>
  Its parts: releasing what was dropped before, the wait it may make, one reported event (whose key is
  \<open>None\<close> for the driver's own waker), and the timers at its end.
\<close>

definition turn_release :: "io_driver \<Rightarrow> io_driver" where
  "turn_release d =
     (if m_pending_release_count d \<noteq> 0
      then d\<lparr>heap := (heap d) |` (- set (m_pending_release d)), m_pending_release := [], m_pending_release_count := 0\<rparr>
      else d)"

definition turn_wait :: "int \<Rightarrow> int option \<Rightarrow> io_driver \<Rightarrow> int option \<times> io_driver" where
  "turn_wait now timeout d =
     (let (w, q) = begin_wait now (if m_shut_down d then Some 0 else timeout) (m_timers d) in (w, d\<lparr>m_timers := q\<rparr>))"

definition turn_event :: "(waker \<Rightarrow> bool) \<Rightarrow> key option \<times> Event \<Rightarrow> io_driver \<Rightarrow> fault + waker list \<times> io_driver" where
  "turn_event alive ev d =
     (case ev of
        (None, e) \<Rightarrow> Inr ([], d)
      | (Some k, e) \<Rightarrow>
          (case heap d k of
             None \<Rightarrow> Inl Use_After_Free
           | Some io \<Rightarrow> (let (ws, io, ns) = dispatch alive e io (nodes d)
                         in Inr (ws, d\<lparr>heap := (heap d)(k \<mapsto> io), nodes := ns\<rparr>))))"

definition turn_timers :: "(waker \<Rightarrow> bool) \<Rightarrow> (nat \<Rightarrow> int) \<Rightarrow> io_driver \<Rightarrow> waker list \<times> io_driver" where
  "turn_timers alive clock d =
     (let (ws, q) = fire_expired alive True clock 0 (m_timers d) in (ws, d\<lparr>m_timers := q\<rparr>))"

fun turn_events :: "(waker \<Rightarrow> bool) \<Rightarrow> (key option \<times> Event) list \<Rightarrow> io_driver \<Rightarrow> fault + nat \<times> waker list \<times> io_driver" where
  "turn_events alive [] d = Inr (0, [], d)"
| "turn_events alive (ev # evs) d =
     (case turn_event alive ev d of
        Inl f \<Rightarrow> Inl f
      | Inr (ws, d) \<Rightarrow>
          (case turn_events alive evs d of
             Inl f \<Rightarrow> Inl f
           | Inr (n, vs, d) \<Rightarrow> Inr (if fst ev = None then n else n + 1, ws @ vs, d)))"

text \<open>
  The whole of \<^verbatim>\<open>turn_locked\<close>, with no other section in between: \<open>report\<close> is what the poller
  answers to the wait it is given.
\<close>

definition turn_locked :: "(waker \<Rightarrow> bool) \<Rightarrow> int \<Rightarrow> (nat \<Rightarrow> int) \<Rightarrow> int option \<Rightarrow> (int option \<Rightarrow> (key option \<times> Event) list)
    \<Rightarrow> io_driver \<Rightarrow> fault + nat \<times> waker list \<times> io_driver" where
  "turn_locked alive now clock timeout report d =
     (let (wait, d) = turn_wait now timeout (turn_release d) in
      case turn_events alive (report wait) d of
        Inl f \<Rightarrow> Inl f
      | Inr (n, ws, d) \<Rightarrow> (let (vs, d) = turn_timers alive clock d in Inr (n + length vs, ws @ vs, d)))"

section \<open>Shutdown\<close>

fun shutdown_all :: "(waker \<Rightarrow> bool) \<Rightarrow> key list \<Rightarrow> io_driver \<Rightarrow> fault + waker list \<times> io_driver" where
  "shutdown_all alive [] d = Inr ([], d)"
| "shutdown_all alive (k # ks) d =
     (case heap d k of
        None \<Rightarrow> Inl Use_After_Free
      | Some io \<Rightarrow>
          (let (ws, io, ns) = shutdown_io alive io (nodes d) in
           case shutdown_all alive ks (d\<lparr>heap := (heap d)(k \<mapsto> io), nodes := ns\<rparr>) of
             Inl f \<Rightarrow> Inl f
           | Inr (vs, d) \<Rightarrow> Inr (ws @ vs, d)))"

text \<open>
  \<^verbatim>\<open>shutdown\<close> first sets the flag that keeps a turn from waiting and ends the wait of one that is
  in progress; the rest runs with the turn held.
\<close>

definition shutdown_begin :: "io_driver \<Rightarrow> io_driver" where
  "shutdown_begin d = driver_unpark (d\<lparr>m_shut_down := True\<rparr>)"

definition shutdown_finish :: "(waker \<Rightarrow> bool) \<Rightarrow> io_driver \<Rightarrow> fault + waker list \<times> io_driver" where
  "shutdown_finish alive d =
     (if d_closed d then Inr ([], d)
      else (case shutdown_all alive (m_registrations d) (d\<lparr>d_closed := True\<rparr>) of
          Inl f \<Rightarrow> Inl f
        | Inr (ws, d) \<Rightarrow> (let (vs, q) = close_and_wake_all alive (m_timers d) in Inr (ws @ vs, d\<lparr>m_timers := q\<rparr>))))"

definition driver_shutdown :: "(waker \<Rightarrow> bool) \<Rightarrow> io_driver \<Rightarrow> fault + waker list \<times> io_driver" where
  "driver_shutdown alive d = shutdown_finish alive (shutdown_begin d)"

section \<open>Registrations, turns and shutdown interleaved\<close>








definition drv_ok :: "io_driver \<Rightarrow> bool" where
  "drv_ok d \<longleftrightarrow> distinct (m_registrations d @ m_pending_release d)
     \<and> dom (heap d) = set (m_registrations d) \<union> set (m_pending_release d)
     \<and> (\<forall>fd k. poller d fd = Some k \<longrightarrow> k \<in> set (m_registrations d)) \<and> inj_on (poller d) (dom (poller d))
     \<and> m_pending_release_count d = length (m_pending_release d)
     \<and> (d_closed d \<longrightarrow> m_shut_down d \<and> (\<forall>k\<in>set (m_registrations d). m_shutdown (the (heap d k))))"


section \<open>Nothing is released too early\<close>






lemma drv_ok_heap:
  assumes "drv_ok d" "k \<in> dom (heap d)" "m_shutdown (the (heap d k)) \<Longrightarrow> m_shutdown i"
  shows "drv_ok (d\<lparr>heap := (heap d)(k \<mapsto> i), nodes := ns\<rparr>)"
  using assms unfolding drv_ok_def by auto

lemma drv_ok_heap':
  assumes "drv_ok d" "heap d k = Some io" "m_shutdown io \<Longrightarrow> m_shutdown i"
  shows "drv_ok (d\<lparr>heap := (heap d)(k \<mapsto> i)\<rparr>)"
  using drv_ok_heap [of d k i "nodes d"] assms by (simp add: domI)





















end
