(* ===== verification/Lwip_Poller.thy ===== *)
theory Lwip_Poller
  imports Prelude "HOL-Library.Word"
begin

text \<open>
  The lwIP backend's poller, \<^verbatim>\<open>src/detail/sys/lwip/poller_lwip.cpp\<close> and the objects of
  \<^verbatim>\<open>src/detail/sys/lwip/io_object.h\<close>: registration, the ready list that is threaded through the
  objects, and the teardown deferred while lwIP's callbacks run. The pointers of the list are
  explicit; its loops, which a cycle would keep running, are partial functions. The whole is a queue of
  the objects that became ready, each reported once with every bit seen since its last report.
\<close>

unbundle bit_operations_syntax

section \<open>Objects\<close>

type_synonym obj = nat

datatype obj_kind = Tcp | TcpListener | Udp | DnsQuery | Notify

record IoObject =
  o_key :: "nat option"
  next_ready :: "obj option"
  o_poller :: bool
  o_kind :: obj_kind
  flags :: "8 word"

definition kReadable :: "8 word" where "kReadable = push_bit 0 1"
definition kWritable :: "8 word" where "kWritable = push_bit 1 1"
definition kError :: "8 word" where "kError = push_bit 2 1"
definition kHup :: "8 word" where "kHup = push_bit 3 1"
definition kQueued :: "8 word" where "kQueued = push_bit 4 1"
definition kReadiness :: "8 word" where "kReadiness = kReadable OR kWritable OR kError OR kHup"

record poller =
  objs :: "obj \<Rightarrow> IoObject"
  m_ready_head :: "obj option"
  m_ready_tail :: "obj option"

definition new_object :: "obj_kind \<Rightarrow> IoObject" where
  "new_object k = \<lparr>o_key = None, next_ready = None, o_poller = False, o_kind = k, flags = 0\<rparr>"

definition upd :: "obj \<Rightarrow> (IoObject \<Rightarrow> IoObject) \<Rightarrow> poller \<Rightarrow> poller" where
  "upd x f p = p\<lparr>objs := (objs p)(x := f (objs p x))\<rparr>"

section \<open>Operations\<close>

definition poller_mark_ready :: "obj \<Rightarrow> 8 word \<Rightarrow> poller \<Rightarrow> poller" where
  "poller_mark_ready x bits p =
     (let p = upd x (\<lambda>a. a\<lparr>flags := flags a OR (bits AND kReadiness)\<rparr>) p in
      if o_key (objs p x) = None \<or> flags (objs p x) AND kQueued \<noteq> 0 then p
      else (let p = upd x (\<lambda>a. a\<lparr>flags := flags a OR kQueued, next_ready := None\<rparr>) p;
                p = (case m_ready_tail p of
                       Some t \<Rightarrow> upd t (\<lambda>a. a\<lparr>next_ready := Some x\<rparr>) p
                     | None \<Rightarrow> p\<lparr>m_ready_head := Some x\<rparr>)
            in p\<lparr>m_ready_tail := Some x\<rparr>))"

definition mark_ready :: "obj \<Rightarrow> 8 word \<Rightarrow> poller \<Rightarrow> poller" where
  "mark_ready x bits p =
     (if o_poller (objs p x) then poller_mark_ready x bits p
      else upd x (\<lambda>a. a\<lparr>flags := flags a OR (bits AND kReadiness)\<rparr>) p)"

text \<open>Registering and deregistering are those of an object that is not a notify worker.\<close>

datatype register_error = Not_Supported | Registered_Twice

definition register_fd :: "obj \<Rightarrow> nat \<Rightarrow> bool \<Rightarrow> poller \<Rightarrow> register_error + poller" where
  "register_fd x key level p =
     (if level then Inl Not_Supported
      else if o_poller (objs p x) then Inl Registered_Twice
      else Inr (upd x (\<lambda>a. a\<lparr>o_key := Some key, o_poller := True, flags := 0\<rparr>) p))"

text \<open>The scan of \<^verbatim>\<open>unlink_ready\<close>, from \<open>cur\<close> with its predecessor \<open>prev\<close>.\<close>

partial_function (option) unlink_scan :: "obj \<Rightarrow> obj option \<Rightarrow> obj option \<Rightarrow> poller \<Rightarrow> poller option" where
  "unlink_scan x prev cur p =
     (case cur of
        None \<Rightarrow> Some p
      | Some c \<Rightarrow>
          (if c \<noteq> x then unlink_scan x (Some c) (next_ready (objs p c)) p
           else (let p = (case prev of
                            Some q \<Rightarrow> upd q (\<lambda>a. a\<lparr>next_ready := next_ready (objs p c)\<rparr>) p
                          | None \<Rightarrow> p\<lparr>m_ready_head := next_ready (objs p c)\<rparr>)
                 in Some (if m_ready_tail p = Some c then p\<lparr>m_ready_tail := prev\<rparr> else p))))"

definition unlink_ready :: "obj \<Rightarrow> poller \<Rightarrow> poller option" where
  "unlink_ready x p =
     (if flags (objs p x) AND kQueued = 0 then Some p
      else (case unlink_scan x None (m_ready_head p) p of
          None \<Rightarrow> None
        | Some p \<Rightarrow> Some (upd x (\<lambda>a. a\<lparr>next_ready := None, flags := flags a AND NOT kQueued\<rparr>) p)))"

definition deregister_fd :: "obj \<Rightarrow> poller \<Rightarrow> (bool \<times> poller) option" where
  "deregister_fd x p =
     (if \<not> o_poller (objs p x) then Some (False, p)
      else (case unlink_ready x p of
          None \<Rightarrow> None
        | Some p \<Rightarrow> Some (True, upd x (\<lambda>a. a\<lparr>o_key := None, o_poller := False, flags := 0\<rparr>) p)))"

record lwip_event =
  ev_key :: "nat option"
  ev_readable :: bool
  ev_writable :: bool
  ev_error :: bool
  ev_hup :: bool

definition event_of :: "IoObject \<Rightarrow> lwip_event" where
  "event_of a = \<lparr>ev_key = o_key a, ev_readable = (flags a AND kReadable \<noteq> 0), ev_writable = (flags a AND kWritable \<noteq> 0),
     ev_error = (flags a AND kError \<noteq> 0), ev_hup = (flags a AND kHup \<noteq> 0)\<rparr>"

text \<open>The loop at the end of \<^verbatim>\<open>Poller::poll\<close>, over the list from \<open>cur\<close> on.\<close>

partial_function (option) drain :: "obj option \<Rightarrow> lwip_event list \<Rightarrow> poller \<Rightarrow> (lwip_event list \<times> poller) option" where
  "drain cur out p =
     (case cur of
        None \<Rightarrow> Some (out, p\<lparr>m_ready_head := None, m_ready_tail := None\<rparr>)
      | Some x \<Rightarrow> drain (next_ready (objs p x)) (out @ [event_of (objs p x)])
                    (upd x (\<lambda>a. a\<lparr>flags := 0, next_ready := None\<rparr>) p))"

definition poll_report :: "poller \<Rightarrow> (lwip_event list \<times> poller) option" where
  "poll_report p = drain (m_ready_head p) [] p"

section \<open>The service pass and the sleep\<close>

text \<open>
  Teardown asked for while lwIP's callbacks run waits until the pass ends. A teardown is the detaching of a
  notify worker from its context, or the closing of an object; the actions carried out are recorded in
  order. \<open>asks x\<close> are the teardowns that closing \<open>x\<close> asks for in turn.
\<close>

datatype teardown = Detach obj | Close obj

record service_state =
  g_in_service :: bool
  g_deferred :: "teardown list"
  performed :: "teardown list"

definition request :: "teardown \<Rightarrow> service_state \<Rightarrow> service_state" where
  "request d s = (if g_in_service s then s\<lparr>g_deferred := g_deferred s @ [d]\<rparr> else s\<lparr>performed := performed s @ [d]\<rparr>)"

definition detach_notify_deferred :: "obj \<Rightarrow> service_state \<Rightarrow> service_state" where
  "detach_notify_deferred x s = request (Detach x) s"

definition close_object_deferred :: "(obj \<Rightarrow> teardown list) \<Rightarrow> obj \<Rightarrow> service_state \<Rightarrow> service_state" where
  "close_object_deferred asks x s =
     (if g_in_service s then request (Close x) s else fold request (asks x) (request (Close x) s))"

fun run_batch :: "(obj \<Rightarrow> teardown list) \<Rightarrow> teardown list \<Rightarrow> service_state \<Rightarrow> service_state" where
  "run_batch asks [] s = s"
| "run_batch asks (Detach x # ds) s = run_batch asks ds (request (Detach x) s)"
| "run_batch asks (Close x # ds) s = run_batch asks ds (close_object_deferred asks x s)"

partial_function (option) run_deferred :: "(obj \<Rightarrow> teardown list) \<Rightarrow> service_state \<Rightarrow> service_state option" where
  "run_deferred asks s =
     (if g_deferred s \<noteq> [] then run_deferred asks (run_batch asks (g_deferred s) (s\<lparr>g_deferred := []\<rparr>)) else Some s)"

text \<open>One pass, in which the callbacks ask for the teardowns \<open>rs\<close>.\<close>

definition service :: "(obj \<Rightarrow> teardown list) \<Rightarrow> teardown list \<Rightarrow> service_state \<Rightarrow> service_state option" where
  "service asks rs s =
     run_deferred asks ((fold request rs (s\<lparr>g_in_service := True\<rparr>))\<lparr>g_in_service := False\<rparr>)"

definition kMaxSleepUs :: nat where
  "kMaxSleepUs = 3600 * 1000000"

text \<open>
  What \<^verbatim>\<open>poll\<close> does between its two passes, with a timeout in nanoseconds: no sleep, one without a
  limit, or one of so many microseconds.
\<close>

datatype sleep = No_Sleep | Sleep_Forever | Sleep_Us nat

definition poll_sleep :: "bool \<Rightarrow> int option \<Rightarrow> poller \<Rightarrow> sleep" where
  "poll_sleep loopback_pending timeout p =
     (if m_ready_head p = None \<and> \<not> loopback_pending \<and> (case timeout of None \<Rightarrow> True | Some t \<Rightarrow> 0 < t) then
        (case timeout of
           None \<Rightarrow> Sleep_Forever
         | Some t \<Rightarrow>
             (let ns = nat t; us = ns div 1000 + (if ns mod 1000 \<noteq> 0 then 1 else 0)
              in Sleep_Us (if kMaxSleepUs < us then kMaxSleepUs else us)))
      else No_Sleep)"

lemma poll_sleep_covers:
  assumes "poll_sleep lb (Some t) p = Sleep_Us us"
  shows "us \<le> kMaxSleepUs" "0 < us" "us = kMaxSleepUs \<or> t \<le> 1000 * int us \<and> 1000 * int us < t + 1000"
proof -
  define ns where "ns = nat t"
  have t: "0 < t" "t = int ns" using assms by (auto simp: poll_sleep_def ns_def split: if_splits)
  define u where "u = ns div 1000 + (if ns mod 1000 \<noteq> 0 then 1 else 0)"
  have us: "us = (if kMaxSleepUs < u then kMaxSleepUs else u)"
    using assms by (auto simp: poll_sleep_def u_def ns_def Let_def split: if_splits)
  define q r where "q = ns div 1000" and "r = ns mod 1000"
  have "ns = 1000 * q + r" "r < 1000" "u = q + (if r \<noteq> 0 then 1 else 0)" by (simp_all add: q_def r_def u_def)
  then have u: "ns \<le> 1000 * u" "1000 * u < ns + 1000" "0 < u" using t by (auto split: if_splits)
  show "us \<le> kMaxSleepUs" "0 < us" using us u(3) by (auto simp: kMaxSleepUs_def)
  show "us = kMaxSleepUs \<or> t \<le> 1000 * int us \<and> 1000 * int us < t + 1000" using us u t(2) by auto
qed

lemma request_idle [simp]: "\<not> g_in_service s \<Longrightarrow> request d s = s\<lparr>performed := performed s @ [d]\<rparr>"
  by (simp add: request_def)

lemma fold_request_idle:
  "\<not> g_in_service s \<Longrightarrow> fold request ds s = s\<lparr>performed := performed s @ ds\<rparr>"
  by (induction ds arbitrary: s) auto

lemma fold_request_service:
  "g_in_service s \<Longrightarrow> fold request ds s = s\<lparr>g_deferred := g_deferred s @ ds\<rparr>"
  by (induction ds arbitrary: s) (auto simp: request_def)

fun with_asked :: "(obj \<Rightarrow> teardown list) \<Rightarrow> teardown \<Rightarrow> teardown list" where
  "with_asked asks (Detach x) = [Detach x]"
| "with_asked asks (Close x) = Close x # asks x"

lemma run_batch_idle:
  "\<not> g_in_service s \<Longrightarrow> run_batch asks ds s = s\<lparr>performed := performed s @ concat (map (with_asked asks) ds)\<rparr>"
  by (induction asks ds s rule: run_batch.induct) (auto simp: close_object_deferred_def fold_request_idle)

text \<open>A pass tears nothing down while the callbacks run, and carries out all they asked for, in order, after it.\<close>

lemma service_defers:
  assumes "\<not> g_in_service s" "g_deferred s = []"
  shows "service asks rs s = Some (s\<lparr>performed := performed s @ concat (map (with_asked asks) rs)\<rparr>)"
proof (cases "rs = []")
  case True
  then show ?thesis using assms by (simp add: service_def run_deferred.simps)
next
  case False
  let ?t = "s\<lparr>g_in_service := False, g_deferred := rs\<rparr>"
  have "(fold request rs (s\<lparr>g_in_service := True\<rparr>))\<lparr>g_in_service := False\<rparr> = ?t"
    using assms by (simp add: fold_request_service)
  moreover have "run_deferred asks ?t = run_deferred asks (?t\<lparr>g_deferred := [], performed := performed s @ concat (map (with_asked asks) rs)\<rparr>)"
    using False by (subst run_deferred.simps) (simp add: run_batch_idle)
  moreover have "run_deferred asks (?t\<lparr>g_deferred := [], performed := q\<rparr>) = Some (s\<lparr>performed := q\<rparr>)" for q
    using assms by (subst run_deferred.simps) simp
  ultimately show ?thesis by (simp add: service_def)
qed

section \<open>The bits\<close>

lemma flag_bit: "(w AND push_bit n 1 \<noteq> 0) = bit w n" for w :: "8 word"
  by (simp add: bit_iff_and_push_bit_not_eq_0)

lemmas flag_defs = kReadable_def kWritable_def kError_def kHup_def kQueued_def

lemma bit_kReadiness: "bit kReadiness n = (n < 4)"
  by (auto simp: kReadiness_def flag_defs bit_simps less_Suc_eq numeral_eq_Suc)

lemma bit_kQueued: "bit kQueued n = (n = 4)"
  unfolding kQueued_def bit_push_bit_iff by (auto simp: bit_1_iff)

lemma queued_or [simp]: "bit ((w OR (b AND kReadiness)) :: 8 word) 4 = bit w 4"
  by (simp add: bit_simps bit_kReadiness)

section \<open>The list behind the pointers\<close>

fun chain :: "(obj \<Rightarrow> obj option) \<Rightarrow> obj option \<Rightarrow> obj list \<Rightarrow> bool" where
  "chain nx h [] \<longleftrightarrow> h = None"
| "chain nx h (x # xs) \<longleftrightarrow> h = Some x \<and> chain nx (nx x) xs"

lemma chain_cong: "(\<And>x. x \<in> set xs \<Longrightarrow> nx x = ny x) \<Longrightarrow> chain nx h xs = chain ny h xs"
  by (induction xs arbitrary: h) auto

lemma chain_snoc:
  assumes "chain nx h xs" "x \<notin> set xs" "distinct xs"
  shows "xs = [] \<Longrightarrow> chain (nx(x := None)) (Some x) [x]"
    and "xs \<noteq> [] \<Longrightarrow> chain ((nx(x := None))(last xs := Some x)) h (xs @ [x])"
proof -
  show "xs = [] \<Longrightarrow> chain (nx(x := None)) (Some x) [x]" by simp
  show "xs \<noteq> [] \<Longrightarrow> chain ((nx(x := None))(last xs := Some x)) h (xs @ [x])"
    using assms
  proof (induction xs arbitrary: h)
    case (Cons y ys)
    show ?case
    proof (cases "ys = []")
      case False
      then have "y \<noteq> last ys" using Cons.prems by auto
      then show ?thesis using Cons False by auto
    qed (use Cons.prems in auto)
  qed simp
qed

text \<open>
  The reference: the queue of ready objects, their readiness bits and their keys.
\<close>

record aready =
  queue :: "obj list"
  bits_of :: "obj \<Rightarrow> 8 word"
  key_of :: "obj \<Rightarrow> nat option"

definition readiness :: "8 word \<Rightarrow> 8 word" where
  "readiness w = w AND kReadiness"

definition poller_rel :: "poller \<Rightarrow> aready \<Rightarrow> bool" where
  "poller_rel p a \<longleftrightarrow> chain (\<lambda>x. next_ready (objs p x)) (m_ready_head p) (queue a) \<and> distinct (queue a)
     \<and> m_ready_tail p = (if queue a = [] then None else Some (last (queue a)))
     \<and> (\<forall>x. bit (flags (objs p x)) 4 \<longleftrightarrow> x \<in> set (queue a))
     \<and> (\<forall>x. bits_of a x = flags (objs p x) AND kReadiness) \<and> (\<forall>x. key_of a x = o_key (objs p x))
     \<and> (\<forall>x. o_poller (objs p x) \<longleftrightarrow> o_key (objs p x) \<noteq> None) \<and> (\<forall>x\<in>set (queue a). o_key (objs p x) \<noteq> None)"

datatype poller_op = P_Register obj nat bool | P_Deregister obj | P_Mark obj "8 word" | P_Poll

datatype poller_out = O_Done | O_Refused register_error | O_Removed bool | O_Events "lwip_event list" | O_Diverged

fun poller_exec :: "poller_op \<Rightarrow> poller \<Rightarrow> poller_out \<times> poller" where
  "poller_exec (P_Register x k level) p =
     (case register_fd x k level p of Inl e \<Rightarrow> (O_Refused e, p) | Inr p \<Rightarrow> (O_Done, p))"
| "poller_exec (P_Deregister x) p =
     (case deregister_fd x p of None \<Rightarrow> (O_Diverged, p) | Some (r, p) \<Rightarrow> (O_Removed r, p))"
| "poller_exec (P_Mark x bits) p = (O_Done, mark_ready x bits p)"
| "poller_exec P_Poll p = (case poll_report p of None \<Rightarrow> (O_Diverged, p) | Some (es, p) \<Rightarrow> (O_Events es, p))"

definition aevent :: "aready \<Rightarrow> obj \<Rightarrow> lwip_event" where
  "aevent a x = \<lparr>ev_key = key_of a x, ev_readable = bit (bits_of a x) 0, ev_writable = bit (bits_of a x) 1,
     ev_error = bit (bits_of a x) 2, ev_hup = bit (bits_of a x) 3\<rparr>"

fun aready_exec :: "poller_op \<Rightarrow> aready \<Rightarrow> poller_out \<times> aready" where
  "aready_exec (P_Register x k level) a =
     (if level then (O_Refused Not_Supported, a)
      else if key_of a x \<noteq> None then (O_Refused Registered_Twice, a)
      else (O_Done, a\<lparr>bits_of := (bits_of a)(x := 0), key_of := (key_of a)(x := Some k)\<rparr>))"
| "aready_exec (P_Deregister x) a =
     (if key_of a x = None then (O_Removed False, a)
      else (O_Removed True, a\<lparr>queue := remove1 x (queue a), bits_of := (bits_of a)(x := 0), key_of := (key_of a)(x := None)\<rparr>))"
| "aready_exec (P_Mark x bits) a =
     (O_Done, a\<lparr>bits_of := (bits_of a)(x := bits_of a x OR (bits AND kReadiness)),
        queue := (if key_of a x \<noteq> None \<and> x \<notin> set (queue a) then queue a @ [x] else queue a)\<rparr>)"
| "aready_exec P_Poll a =
     (O_Events (map (aevent a) (queue a)), a\<lparr>queue := [], bits_of := (\<lambda>x. if x \<in> set (queue a) then 0 else bits_of a x)\<rparr>)"

section \<open>The simulation\<close>

lemma objs_upd [simp]: "objs (upd x f p) y = (if y = x then f (objs p x) else objs p y)"
  "m_ready_head (upd x f p) = m_ready_head p" "m_ready_tail (upd x f p) = m_ready_tail p"
  by (simp_all add: upd_def)

lemma readiness_or: "(w OR (b AND kReadiness)) AND kReadiness = (w AND kReadiness) OR (b AND kReadiness)" for w :: "8 word"
  by (rule bit_eqI) (auto simp: bit_simps)

lemma readiness_queued: "(w OR kQueued) AND kReadiness = w AND kReadiness" for w :: "8 word"
  by (rule bit_eqI) (auto simp: bit_simps bit_kReadiness bit_kQueued)

lemma not_queued: "w AND kQueued = 0 \<longleftrightarrow> \<not> bit w 4" for w :: "8 word"
  using flag_bit [of w 4] by (auto simp: kQueued_def)

lemma flag_zero:
  fixes w :: "8 word"
  shows "w AND kReadable = 0 \<longleftrightarrow> \<not> bit w 0" "w AND kWritable = 0 \<longleftrightarrow> \<not> bit w 1"
    "w AND kError = 0 \<longleftrightarrow> \<not> bit w 2" "w AND kHup = 0 \<longleftrightarrow> \<not> bit w 3"
  unfolding flag_defs using flag_bit by blast+

lemma poller_relD:
  assumes "poller_rel p a"
  shows "chain (\<lambda>x. next_ready (objs p x)) (m_ready_head p) (queue a)" "distinct (queue a)"
    and "m_ready_tail p = (if queue a = [] then None else Some (last (queue a)))"
    and "\<And>x. bit (flags (objs p x)) 4 \<longleftrightarrow> x \<in> set (queue a)"
    and "\<And>x. bits_of a x = flags (objs p x) AND kReadiness" "\<And>x. key_of a x = o_key (objs p x)"
    and "\<And>x. o_poller (objs p x) \<longleftrightarrow> o_key (objs p x) \<noteq> None" "\<And>x. x \<in> set (queue a) \<Longrightarrow> o_key (objs p x) \<noteq> None"
  using assms by (auto simp: poller_rel_def)

lemma register_rel:
  assumes "poller_rel p a"
  shows "fst (poller_exec (P_Register x k level) p) = fst (aready_exec (P_Register x k level) a)
    \<and> poller_rel (snd (poller_exec (P_Register x k level) p)) (snd (aready_exec (P_Register x k level) a))"
proof (cases "level \<or> o_poller (objs p x)")
  case True
  then show ?thesis using assms poller_relD(6,7) [OF assms] by (auto simp: register_fd_def)
next
  case False
  note R = poller_relD [OF assms]
  have "o_key (objs p x) = None" using False R(7) [of x] by simp
  then have x: "key_of a x = None" "x \<notin> set (queue a)" using R(6) [of x] R(8) [of x] by auto
  let ?p = "upd x (\<lambda>a. a\<lparr>o_key := Some k, o_poller := True, flags := 0\<rparr>) p"
  let ?a = "a\<lparr>bits_of := (bits_of a)(x := 0), key_of := (key_of a)(x := Some k)\<rparr>"
  have "chain (\<lambda>y. next_ready (objs ?p y)) (m_ready_head ?p) (queue ?a)"
    using R(1) by (subst chain_cong [of _ _ "\<lambda>y. next_ready (objs p y)"]) auto
  then have "poller_rel ?p ?a" using R(2-8) x by (auto simp: poller_rel_def)
  then show ?thesis using False x by (simp add: register_fd_def)
qed

lemma mark_rel:
  assumes "poller_rel p a"
  shows "poller_rel (mark_ready x b p) (snd (aready_exec (P_Mark x b) a))"
proof -
  note R = poller_relD [OF assms]
  let ?w = "flags (objs p x) OR (b AND kReadiness)"
  let ?q = "upd x (\<lambda>a. a\<lparr>flags := ?w\<rparr>) p"
  show ?thesis
  proof (cases "key_of a x \<noteq> None \<and> x \<notin> set (queue a)")
    case False
    have "mark_ready x b p = ?q"
      using False R(4) [of x] R(6,7) by (auto simp: mark_ready_def poller_mark_ready_def Let_def upd_def not_queued)
    moreover have "chain (\<lambda>y. next_ready (objs ?q y)) (m_ready_head ?q) (queue a)"
      using R(1) by (subst chain_cong [of _ _ "\<lambda>y. next_ready (objs p y)"]) auto
    ultimately show ?thesis using R False by (auto simp: poller_rel_def readiness_or)
  next
    case True
    let ?r = "upd x (\<lambda>a. a\<lparr>flags := ?w OR kQueued, next_ready := None\<rparr>) p"
    let ?s = "(if queue a = [] then ?r\<lparr>m_ready_head := Some x\<rparr> else upd (last (queue a)) (\<lambda>a. a\<lparr>next_ready := Some x\<rparr>) ?r)\<lparr>m_ready_tail := Some x\<rparr>"
    have e: "mark_ready x b p = ?s"
      using True R(3) R(4) [of x] R(6,7)
      by (auto simp: mark_ready_def poller_mark_ready_def Let_def upd_def not_queued)
    have l: "queue a \<noteq> [] \<Longrightarrow> last (queue a) \<noteq> x" using True by auto
    have "chain (\<lambda>y. next_ready (objs ?s y)) (m_ready_head ?s) (queue a @ [x])"
    proof (cases "queue a = []")
      case False
      have "(\<lambda>y. next_ready (objs ?s y)) = ((\<lambda>y. next_ready (objs p y))(x := None))(last (queue a) := Some x)"
        using False l by (auto simp: fun_eq_iff)
      then show ?thesis using chain_snoc(2) [OF R(1) _ R(2) False, of x] True False by simp
    qed simp
    then show ?thesis unfolding e using R True l
      by (auto simp: poller_rel_def readiness_or readiness_queued bit_or_iff bit_kQueued bit_and_iff bit_kReadiness)
  qed
qed

definition unlink_at :: "obj \<Rightarrow> obj option \<Rightarrow> poller \<Rightarrow> poller" where
  "unlink_at x prev p =
     (let p = (case prev of
                 Some q \<Rightarrow> upd q (\<lambda>a. a\<lparr>next_ready := next_ready (objs p x)\<rparr>) p
               | None \<Rightarrow> p\<lparr>m_ready_head := next_ready (objs p x)\<rparr>)
      in if m_ready_tail p = Some x then p\<lparr>m_ready_tail := prev\<rparr> else p)"

lemma unlink_scan_at:
  assumes "chain (\<lambda>y. next_ready (objs p y)) cur (ys @ x # zs)" "x \<notin> set ys"
  shows "unlink_scan x prev cur p = Some (unlink_at x (if ys = [] then prev else Some (last ys)) p)"
  using assms
proof (induction ys arbitrary: prev cur)
  case Nil
  then show ?case by (simp add: unlink_scan.simps unlink_at_def Let_def)
next
  case (Cons y ys)
  then show ?case by (subst unlink_scan.simps) auto
qed

lemma chain_unlink:
  assumes "chain nx h (ys @ x # zs)" "distinct (ys @ x # zs)"
  shows "ys = [] \<Longrightarrow> chain nx (nx x) zs" "ys \<noteq> [] \<Longrightarrow> chain (nx(last ys := nx x)) h (ys @ zs)"
proof -
  show "ys = [] \<Longrightarrow> chain nx (nx x) zs" using assms by simp
  show "ys \<noteq> [] \<Longrightarrow> chain (nx(last ys := nx x)) h (ys @ zs)" using assms
  proof (induction ys arbitrary: h)
    case (Cons y ys)
    show ?case
    proof (cases "ys = []")
      case True
      have "chain (nx(y := nx x)) (nx x) zs = chain nx (nx x) zs" using Cons.prems by (intro chain_cong) auto
      then show ?thesis using Cons.prems True by (simp add: fun_upd_def)
    next
      case False
      then have "y \<noteq> last ys" using Cons.prems by auto
      then show ?thesis using Cons False by auto
    qed
  qed simp
qed

lemma deregister_rel:
  assumes "poller_rel p a"
  shows "fst (poller_exec (P_Deregister x) p) = fst (aready_exec (P_Deregister x) a)
    \<and> poller_rel (snd (poller_exec (P_Deregister x) p)) (snd (aready_exec (P_Deregister x) a))"
proof (cases "o_poller (objs p x)")
  case False
  then show ?thesis using assms poller_relD(6,7) [OF assms] by (simp add: deregister_fd_def)
next
  case True
  note R = poller_relD [OF assms]
  have k: "key_of a x \<noteq> None" using True R(6) [of x] R(7) [of x] by simp
  let ?a = "a\<lparr>queue := remove1 x (queue a), bits_of := (bits_of a)(x := 0), key_of := (key_of a)(x := None)\<rparr>"
  have fin: "poller_rel (upd x (\<lambda>a. a\<lparr>o_key := None, o_poller := False, flags := 0\<rparr>) q) ?a"
    if q: "chain (\<lambda>y. next_ready (objs q y)) (m_ready_head q) (remove1 x (queue a))"
      "m_ready_tail q = (if remove1 x (queue a) = [] then None else Some (last (remove1 x (queue a))))"
      "\<And>y. y \<noteq> x \<Longrightarrow> flags (objs q y) = flags (objs p y) \<and> o_key (objs q y) = o_key (objs p y) \<and> o_poller (objs q y) = o_poller (objs p y)" for q
  proof -
    let ?q = "upd x (\<lambda>a. a\<lparr>o_key := None, o_poller := False, flags := 0\<rparr>) q"
    have "chain (\<lambda>y. next_ready (objs ?q y)) (m_ready_head ?q) (remove1 x (queue a))"
      using q(1) by (subst chain_cong [of _ _ "\<lambda>y. next_ready (objs q y)"]) auto
    moreover have "set (remove1 x (queue a)) = set (queue a) - {x}" using R(2) by simp
    ultimately show ?thesis using q(2,3) R(2,4-8) by (auto simp: poller_rel_def)
  qed
  show ?thesis
  proof (cases "x \<in> set (queue a)")
    case False
    have "deregister_fd x p = Some (True, upd x (\<lambda>a. a\<lparr>o_key := None, o_poller := False, flags := 0\<rparr>) p)"
      using True False R(4) [of x] by (simp add: deregister_fd_def unlink_ready_def not_queued)
    with fin [of p] R(1,3) k False show ?thesis by (simp add: remove1_idem)
  next
    case q: True
    then obtain ys zs where s: "queue a = ys @ x # zs" "x \<notin> set ys" by (metis split_list_first)
    have d: "distinct (ys @ x # zs)" using R(2) s(1) by simp
    have r: "remove1 x (queue a) = ys @ zs" using s by (simp add: remove1_append)
    let ?u = "unlink_at x (if ys = [] then None else Some (last ys)) p"
    let ?v = "upd x (\<lambda>a. a\<lparr>next_ready := None, flags := flags a AND NOT kQueued\<rparr>) ?u"
    have "unlink_scan x None (m_ready_head p) p = Some ?u"
      using unlink_scan_at [of p "m_ready_head p" ys x zs None] R(1) s by simp
    then have e: "deregister_fd x p = Some (True, upd x (\<lambda>a. a\<lparr>o_key := None, o_poller := False, flags := 0\<rparr>) ?v)"
      using True q R(4) [of x] by (simp add: deregister_fd_def unlink_ready_def not_queued)
    have c: "chain (\<lambda>y. next_ready (objs ?u y)) (m_ready_head ?u) (ys @ zs)"
    proof (cases "ys = []")
      case True
      then show ?thesis using chain_unlink(1) [OF R(1) [unfolded s(1)] d] by (auto simp: unlink_at_def Let_def)
    next
      case False
      have "(\<lambda>y. next_ready (objs ?u y)) = (\<lambda>y. next_ready (objs p y))(last ys := next_ready (objs p x))"
        using False by (auto simp: unlink_at_def Let_def fun_eq_iff)
      then show ?thesis using chain_unlink(2) [OF R(1) [unfolded s(1)] d False] False by (simp add: unlink_at_def Let_def)
    qed
    have c': "chain (\<lambda>y. next_ready (objs ?v y)) (m_ready_head ?v) (remove1 x (queue a))"
      unfolding r using c d by (subst chain_cong [of _ _ "\<lambda>y. next_ready (objs ?u y)"]) auto
    have t: "m_ready_tail ?v = (if remove1 x (queue a) = [] then None else Some (last (remove1 x (queue a))))"
    proof (cases "zs = []")
      case True
      then show ?thesis unfolding r using R(3) s(1) by (auto simp: unlink_at_def Let_def)
    next
      case False
      then have "last zs \<noteq> x" using d by auto
      then show ?thesis unfolding r using R(3) s(1) False by (auto simp: unlink_at_def Let_def)
    qed
    have o: "flags (objs ?v y) = flags (objs p y) \<and> o_key (objs ?v y) = o_key (objs p y) \<and> o_poller (objs ?v y) = o_poller (objs p y)"
      if "y \<noteq> x" for y using that by (auto simp: unlink_at_def Let_def)
    from fin [OF c' t o] e k show ?thesis by simp
  qed
qed

lemma drain_list:
  assumes "chain (\<lambda>y. next_ready (objs p y)) cur xs" "distinct xs"
  shows "drain cur out p = Some (out @ map (\<lambda>x. event_of (objs p x)) xs,
    p\<lparr>objs := (\<lambda>x. if x \<in> set xs then (objs p x)\<lparr>flags := 0, next_ready := None\<rparr> else objs p x),
      m_ready_head := None, m_ready_tail := None\<rparr>)"
  using assms
proof (induction xs arbitrary: cur out p)
  case Nil
  then show ?case by (simp add: drain.simps)
next
  case (Cons x xs)
  let ?p = "upd x (\<lambda>a. a\<lparr>flags := 0, next_ready := None\<rparr>) p"
  have x: "cur = Some x" "x \<notin> set xs" "distinct xs" using Cons.prems by auto
  have "chain (\<lambda>y. next_ready (objs ?p y)) (next_ready (objs p x)) xs"
    using Cons.prems x by (subst chain_cong [of _ _ "\<lambda>y. next_ready (objs p y)"]) auto
  from Cons.IH [OF this x(3), of "out @ [event_of (objs p x)]"]
  have "drain cur out p = Some ((out @ [event_of (objs p x)]) @ map (\<lambda>y. event_of (objs ?p y)) xs,
     ?p\<lparr>objs := (\<lambda>y. if y \<in> set xs then (objs ?p y)\<lparr>flags := 0, next_ready := None\<rparr> else objs ?p y),
      m_ready_head := None, m_ready_tail := None\<rparr>)"
    by (subst drain.simps) (simp add: x(1))
  moreover have "map (\<lambda>y. event_of (objs ?p y)) xs = map (\<lambda>y. event_of (objs p y)) xs" using x(2) by auto
  moreover have "?p\<lparr>objs := (\<lambda>y. if y \<in> set xs then (objs ?p y)\<lparr>flags := 0, next_ready := None\<rparr> else objs ?p y),
      m_ready_head := None, m_ready_tail := None\<rparr>
    = p\<lparr>objs := (\<lambda>y. if y \<in> set (x # xs) then (objs p y)\<lparr>flags := 0, next_ready := None\<rparr> else objs p y),
      m_ready_head := None, m_ready_tail := None\<rparr>"
    using x(2) by (auto simp: upd_def fun_eq_iff intro!: poller.equality)
  ultimately show ?case by simp
qed

lemma poll_rel:
  assumes "poller_rel p a"
  shows "fst (poller_exec P_Poll p) = fst (aready_exec P_Poll a)
    \<and> poller_rel (snd (poller_exec P_Poll p)) (snd (aready_exec P_Poll a))"
proof -
  note R = poller_relD [OF assms]
  have ev: "event_of (objs p x) = aevent a x" for x
    using R(5,6) by (simp add: event_of_def aevent_def flag_zero bit_and_iff bit_kReadiness)
  have d: "poll_report p = Some (map (aevent a) (queue a),
    p\<lparr>objs := (\<lambda>x. if x \<in> set (queue a) then (objs p x)\<lparr>flags := 0, next_ready := None\<rparr> else objs p x),
      m_ready_head := None, m_ready_tail := None\<rparr>)"
    unfolding poll_report_def by (simp add: drain_list [OF R(1,2)] ev)
  show ?thesis using R by (auto simp: d poller_rel_def)
qed

definition poller_init :: "(obj \<Rightarrow> obj_kind) \<Rightarrow> poller" where
  "poller_init kind = \<lparr>objs = (\<lambda>x. new_object (kind x)), m_ready_head = None, m_ready_tail = None\<rparr>"

definition aready_init :: aready where
  "aready_init = \<lparr>queue = [], bits_of = (\<lambda>_. 0), key_of = (\<lambda>_. None)\<rparr>"

lemma poller_init_rel: "poller_rel (poller_init kind) aready_init"
  by (simp add: poller_rel_def poller_init_def aready_init_def new_object_def)

lemma poller_exec_rel:
  assumes "poller_rel p a"
  shows "fst (poller_exec op p) = fst (aready_exec op a) \<and> poller_rel (snd (poller_exec op p)) (snd (aready_exec op a))"
proof (cases op)
  case (P_Mark x b)
  then show ?thesis using mark_rel [OF assms, of x b] by simp
qed (use register_rel [OF assms] deregister_rel [OF assms] poll_rel [OF assms] in auto)

interpretation lwip: op_simulation "poller_init kind" poller_exec aready_init aready_exec poller_rel for kind
  by unfold_locales (simp_all only: poller_init_rel poller_exec_rel)

text \<open>
  C26. The ready list of the lwIP poller, threaded through the objects and kept in their flag bytes, is a
  queue: every sequence of registering, deregistering, marking with any bits and polling answers as the
  queue of ready objects does. Each poll reports every object that became ready since it was last
  reported or registered, once, in that order, with every bit it was marked with; a deregistered object
  is never reported; and no walk of the list runs for ever.
\<close>

theorem lwip_ready_list_is_queue:
  "fst (run_ops poller_exec ops (poller_init kind)) = fst (run_ops aready_exec ops aready_init)
   \<and> poller_rel (snd (run_ops poller_exec ops (poller_init kind))) (snd (run_ops aready_exec ops aready_init))"
  by (rule lwip.run_rel)

end
