(* ===== verification/Lwip_Sockets.thy ===== *)
theory Lwip_Sockets
  imports Byte_Source Lwip_Poller
begin

text \<open>
  The lwIP backend's sockets: \<^verbatim>\<open>src/detail/sys/lwip/udp_lwip.cpp\<close>, \<^verbatim>\<open>tcp_lwip.cpp\<close> and
  \<^verbatim>\<open>socket_lwip.cpp\<close>. lwIP itself is not part of the program: what its functions answer is an
  argument of the definitions, and its callbacks are operations. Received data waits in a ring of
  bytes; the readiness bits a callback marks are part of its result. The two results are that a UDP
  socket is a bounded queue of datagrams, through the encoding of its records in the ring, and that a
  TCP socket delivers the peer's bytes in order and never leaves a reader waiting unreported.
\<close>

section \<open>Errors\<close>

datatype err_t = ERR_OK | ERR_MEM | ERR_BUF | ERR_TIMEOUT | ERR_RTE | ERR_INPROGRESS | ERR_VAL | ERR_WOULDBLOCK
  | ERR_USE | ERR_ALREADY | ERR_ISCONN | ERR_CONN | ERR_IF | ERR_ABRT | ERR_RST | ERR_CLSD | ERR_ARG | ERR_Other

datatype errno = ENOMEM | ENOBUFS | ETIMEDOUT | EHOSTUNREACH | EINPROGRESS | EINVAL | EAGAIN | EADDRINUSE | EALREADY
  | EISCONN | ENOTCONN | EIO | ECONNABORTED | ECONNRESET | ECONNREFUSED | EPIPE | EMSGSIZE | EDESTADDRREQ | EAFNOSUPPORT | ENETDOWN

text \<open>The error number 0 is \<^term>\<open>None\<close>.\<close>

fun lwip_errno :: "err_t \<Rightarrow> errno option" where
  "lwip_errno ERR_OK = None"
| "lwip_errno ERR_MEM = Some ENOMEM"
| "lwip_errno ERR_BUF = Some ENOBUFS"
| "lwip_errno ERR_TIMEOUT = Some ETIMEDOUT"
| "lwip_errno ERR_RTE = Some EHOSTUNREACH"
| "lwip_errno ERR_INPROGRESS = Some EINPROGRESS"
| "lwip_errno ERR_VAL = Some EINVAL"
| "lwip_errno ERR_WOULDBLOCK = Some EAGAIN"
| "lwip_errno ERR_USE = Some EADDRINUSE"
| "lwip_errno ERR_ALREADY = Some EALREADY"
| "lwip_errno ERR_ISCONN = Some EISCONN"
| "lwip_errno ERR_CONN = Some ENOTCONN"
| "lwip_errno ERR_IF = Some EIO"
| "lwip_errno ERR_ABRT = Some ECONNABORTED"
| "lwip_errno ERR_RST = Some ECONNRESET"
| "lwip_errno ERR_CLSD = Some ENOTCONN"
| "lwip_errno ERR_ARG = Some EINVAL"
| "lwip_errno ERR_Other = Some EIO"

lemma lwip_errno_OK: "lwip_errno e = None \<longleftrightarrow> e = ERR_OK"
  by (cases e) simp_all

section \<open>UDP\<close>

type_synonym u16 = "16 word"
type_synonym sender = "byte list \<times> u16"

record RecordHeader =
  h_length :: u16
  h_port :: u16
  h_addr :: "byte list"

definition header_size :: nat where
  "header_size = 8"

text \<open>The header as the bytes of its struct, little-endian.\<close>

definition header_bytes :: "RecordHeader \<Rightarrow> byte list" where
  "header_bytes h = [ucast (h_length h), ucast (drop_bit 8 (h_length h)), ucast (h_port h), ucast (drop_bit 8 (h_port h))] @ h_addr h"

definition read_u16 :: "byte \<Rightarrow> byte \<Rightarrow> u16" where
  "read_u16 lo hi = ucast lo OR push_bit 8 (ucast hi)"

definition parse_header :: "byte list \<Rightarrow> RecordHeader" where
  "parse_header bs = \<lparr>h_length = read_u16 (bs ! 0) (bs ! 1), h_port = read_u16 (bs ! 2) (bs ! 3), h_addr = drop 4 bs\<rparr>"

record LwipUdp =
  u_pcb :: bool
  u_rx :: "circular_byte_buffer option"
  u_connected :: bool

definition kUdpRxBytes :: nat where
  "kUdpRxBytes = 8192"

text \<open>A datagram is a chain of buffers, whose total length has 16 bits.\<close>

definition udp_on_recv :: "byte list list \<Rightarrow> sender \<Rightarrow> LwipUdp \<Rightarrow> (fault + 8 word \<times> LwipUdp) option" where
  "udp_on_recv p from udp =
     (let tot_len = of_nat (length (concat p)) :: u16; need = header_size + unat tot_len in
      case u_rx udp of
        None \<Rightarrow> Some (Inr (0, udp))
      | Some rx \<Rightarrow>
          (if need \<le> cb_writable_bytes rx then
             (let header = \<lparr>h_length = tot_len, h_port = snd from, h_addr = fst from\<rparr> in
              case ring_write (header_bytes header) rx of
                None \<Rightarrow> None
              | Some (Inl f) \<Rightarrow> Some (Inl f)
              | Some (Inr rx) \<Rightarrow>
                  (case ring_write_pbuf p rx of
                     None \<Rightarrow> None
                   | Some (Inl f) \<Rightarrow> Some (Inl f)
                   | Some (Inr rx) \<Rightarrow> Some (Inr (kReadable, udp\<lparr>u_rx := Some rx\<rparr>))))
           else Some (Inr (0, udp))))"

definition udp_try_recv :: "nat \<Rightarrow> LwipUdp \<Rightarrow> (fault + (errno + byte list \<times> sender) \<times> LwipUdp) option" where
  "udp_try_recv sz udp =
     (case u_rx udp of
        None \<Rightarrow> Some (Inr (Inl EAGAIN, udp))
      | Some rx \<Rightarrow>
          (if cb_readable_bytes rx = 0 then Some (Inr (Inl EAGAIN, udp))
           else (case ring_read True [] header_size rx of
               None \<Rightarrow> None
             | Some (Inl f) \<Rightarrow> Some (Inl f)
             | Some (Inr (hb, rx)) \<Rightarrow>
                 (let header = parse_header hb; n = min sz (unat (h_length header)) in
                  case ring_read True [] n rx of
                    None \<Rightarrow> None
                  | Some (Inl f) \<Rightarrow> Some (Inl f)
                  | Some (Inr (bytes, rx)) \<Rightarrow>
                      (case ring_read False [] (unat (h_length header) - n) rx of
                         None \<Rightarrow> None
                       | Some (Inl f) \<Rightarrow> Some (Inl f)
                       | Some (Inr (_, rx)) \<Rightarrow>
                           Some (Inr (Inr (bytes, (h_addr header, h_port header)), udp\<lparr>u_rx := Some rx\<rparr>)))))))"

text \<open>\<open>bind_err\<close> and \<open>pcb\<close> are lwIP's answers, \<open>v4\<close> whether the address is an IPv4 one.\<close>

definition udp_open :: "bool \<Rightarrow> bool \<Rightarrow> bool \<Rightarrow> err_t \<Rightarrow> errno option + LwipUdp" where
  "udp_open running v4 pcb bind_err =
     (if \<not> running then Inl (Some ENETDOWN)
      else if \<not> v4 then Inl (Some EAFNOSUPPORT)
      else if \<not> pcb then Inl (Some ENOMEM)
      else if bind_err \<noteq> ERR_OK then Inl (lwip_errno bind_err)
      else Inr \<lparr>u_pcb = True, u_rx = Some (cb_new kUdpRxBytes), u_connected = False\<rparr>)"

definition udp_connect :: "bool \<Rightarrow> err_t \<Rightarrow> LwipUdp \<Rightarrow> errno option + LwipUdp" where
  "udp_connect v4 err udp =
     (if \<not> v4 then Inl (Some EAFNOSUPPORT)
      else if err \<noteq> ERR_OK then Inl (lwip_errno err)
      else Inr (udp\<lparr>u_connected := True\<rparr>))"

text \<open>\<open>dest\<close> is the destination, if one is given, and whether it is an IPv4 one.\<close>

definition udp_try_send :: "nat \<Rightarrow> bool option \<Rightarrow> bool \<Rightarrow> err_t \<Rightarrow> LwipUdp \<Rightarrow> errno option + nat" where
  "udp_try_send sz dest alloc err udp =
     (if dest = None \<and> \<not> u_connected udp then Inl (Some EDESTADDRREQ)
      else if dest = Some False then Inl (Some EAFNOSUPPORT)
      else if 0xFFFF < sz then Inl (Some EMSGSIZE)
      else if \<not> alloc then Inl (Some ENOBUFS)
      else if err = ERR_MEM \<or> err = ERR_BUF then Inl (Some ENOBUFS)
      else if err \<noteq> ERR_OK then Inl (lwip_errno err)
      else Inr sz)"

section \<open>A UDP socket is a bounded queue of datagrams\<close>

type_synonym datagram = "sender \<times> byte list"

datatype udp_op = U_Arrive "byte list list" sender | U_Recv nat

datatype udp_out = U_Marked "8 word" | U_Got "errno + byte list \<times> sender" | U_Fault "fault option"

definition datagram_ok :: "udp_op \<Rightarrow> bool" where
  "datagram_ok op = (case op of U_Arrive p from \<Rightarrow> length (concat p) < 2 ^ 16 \<and> length (fst from) = 4 | U_Recv n \<Rightarrow> True)"

fun udp_exec :: "udp_op \<Rightarrow> LwipUdp \<Rightarrow> udp_out \<times> LwipUdp" where
  "udp_exec (U_Arrive p from) u =
     (if \<not> datagram_ok (U_Arrive p from) then (U_Marked 0, u)
      else (case udp_on_recv p from u of
          Some (Inr (m, u)) \<Rightarrow> (U_Marked m, u) | Some (Inl f) \<Rightarrow> (U_Fault (Some f), u) | None \<Rightarrow> (U_Fault None, u)))"
| "udp_exec (U_Recv n) u =
     (case udp_try_recv n u of
        Some (Inr (r, u)) \<Rightarrow> (U_Got r, u) | Some (Inl f) \<Rightarrow> (U_Fault (Some f), u) | None \<Rightarrow> (U_Fault None, u))"

definition footprint :: "datagram list \<Rightarrow> nat" where
  "footprint ds = (\<Sum>(s, b)\<leftarrow>ds. header_size + length b)"

fun dgram_exec :: "nat \<Rightarrow> udp_op \<Rightarrow> datagram list \<Rightarrow> udp_out \<times> datagram list" where
  "dgram_exec cap (U_Arrive p from) ds =
     (if datagram_ok (U_Arrive p from) \<and> header_size + length (concat p) \<le> cap - footprint ds
      then (U_Marked kReadable, ds @ [(from, concat p)]) else (U_Marked 0, ds))"
| "dgram_exec cap (U_Recv n) ds =
     (case ds of [] \<Rightarrow> (U_Got (Inl EAGAIN), []) | (s, b) # ds \<Rightarrow> (U_Got (Inr (take n b, s)), ds))"

definition encode :: "datagram \<Rightarrow> byte list" where
  "encode = (\<lambda>(s, b). header_bytes \<lparr>h_length = of_nat (length b), h_port = snd s, h_addr = fst s\<rparr> @ b)"

definition udp_rel :: "nat \<Rightarrow> LwipUdp \<Rightarrow> datagram list \<Rightarrow> bool" where
  "udp_rel cap u ds \<longleftrightarrow> (\<exists>rx. u_rx u = Some rx \<and> cb_ok rx \<and> cb_capacity rx = cap \<and> contents rx = concat (map encode ds))
     \<and> (\<forall>(s, b)\<in>set ds. length (fst s) = 4 \<and> length b < 2 ^ 16)"

lemma read_u16_bytes: "read_u16 (ucast w) (ucast (drop_bit 8 w)) = w"
  by (rule bit_eqI) (auto simp: read_u16_def bit_simps)

lemma header_round_trip: "length (h_addr h) = 4 \<Longrightarrow> parse_header (header_bytes h) = h"
  by (cases h) (simp add: parse_header_def header_bytes_def read_u16_bytes)

lemma length_header: "length (h_addr h) = 4 \<Longrightarrow> length (header_bytes h) = header_size"
  by (simp add: header_bytes_def header_size_def)

lemma length_encode: "length (fst (fst d)) = 4 \<Longrightarrow> length (encode d) = header_size + length (snd d)"
  by (cases d) (simp add: encode_def length_header)

lemma length_encoded:
  "\<forall>(s, b)\<in>set ds. length (fst s) = 4 \<and> length b < 2 ^ 16 \<Longrightarrow> length (concat (map encode ds)) = footprint ds"
  by (induction ds) (auto simp: footprint_def length_encode)

lemma arrive_rel:
  assumes "udp_rel cap u ds"
  shows "fst (udp_exec (U_Arrive p from) u) = fst (dgram_exec cap (U_Arrive p from) ds)
    \<and> udp_rel cap (snd (udp_exec (U_Arrive p from) u)) (snd (dgram_exec cap (U_Arrive p from) ds))"
proof (cases "datagram_ok (U_Arrive p from)")
  case False
  then show ?thesis using assms by simp
next
  case ok: True
  obtain rx where rx: "u_rx u = Some rx" "cb_ok rx" "cb_capacity rx = cap" "contents rx = concat (map encode ds)"
    and ds: "\<forall>(s, b)\<in>set ds. length (fst s) = 4 \<and> length b < 2 ^ 16" using assms by (auto simp: udp_rel_def)
  let ?n = "length (concat p)"
  let ?h = "\<lparr>h_length = of_nat ?n, h_port = snd from, h_addr = fst from\<rparr> :: RecordHeader"
  have n: "?n < 2 ^ 16" "length (fst from) = 4" using ok by (auto simp: datagram_ok_def)
  have len: "unat (of_nat ?n :: u16) = ?n" using n(1) by (simp add: unat_of_nat take_bit_nat_eq_self)
  have room: "cb_writable_bytes rx = cap - footprint ds"
    using length_encoded [OF ds] rx(3,4) by (simp add: writable_bytes_contents)
  have hl: "length (header_bytes ?h) = header_size" using n(2) by (simp add: length_header)
  show ?thesis
  proof (cases "header_size + ?n \<le> cap - footprint ds")
    case False
    then show ?thesis using ok assms rx(1) by (simp add: udp_on_recv_def Let_def len room)
  next
    case True
    then have "length (header_bytes ?h) \<le> cb_writable_bytes rx" using hl room by simp
    from ring_write_ok [OF rx(2) this] obtain r1 where r1: "ring_write (header_bytes ?h) rx = Some (Inr r1)" "cb_ok r1"
      "contents r1 = contents rx @ header_bytes ?h" "cb_capacity r1 = cap" using rx(3) by auto
    have "cb_writable_bytes r1 = cap - footprint ds - header_size"
      using length_encoded [OF ds] rx(4) r1(3,4) hl by (simp add: writable_bytes_contents)
    then have "?n \<le> cb_writable_bytes r1" using True by simp
    from ring_write_pbuf_ok [OF r1(2) this] obtain r2 where r2: "ring_write_pbuf p r1 = Some (Inr r2)" "cb_ok r2"
      "contents r2 = contents r1 @ concat p" "cb_capacity r2 = cap" using r1(4) by auto
    have "contents r2 = concat (map encode (ds @ [(from, concat p)]))"
      using r2(3) r1(3) rx(4) by (simp add: encode_def)
    then have "udp_rel cap (u\<lparr>u_rx := Some r2\<rparr>) (ds @ [(from, concat p)])"
      using r2(2,4) ds n by (auto simp: udp_rel_def)
    moreover have "udp_on_recv p from u = Some (Inr (kReadable, u\<lparr>u_rx := Some r2\<rparr>))"
      using True rx(1) r1(1) r2(1) by (simp add: udp_on_recv_def Let_def len room)
    ultimately show ?thesis using ok True by simp
  qed
qed

lemma recv_rel:
  assumes "udp_rel cap u ds"
  shows "fst (udp_exec (U_Recv n) u) = fst (dgram_exec cap (U_Recv n) ds)
    \<and> udp_rel cap (snd (udp_exec (U_Recv n) u)) (snd (dgram_exec cap (U_Recv n) ds))"
proof -
  obtain rx where rx: "u_rx u = Some rx" "cb_ok rx" "cb_capacity rx = cap" "contents rx = concat (map encode ds)"
    and ds: "\<forall>(s, b)\<in>set ds. length (fst s) = 4 \<and> length b < 2 ^ 16" using assms by (auto simp: udp_rel_def)
  show ?thesis
  proof (cases ds)
    case Nil
    then have "cb_readable_bytes rx = 0" using rx(4) by (metis cb_readable_bytes_def concat.simps(1) length_contents list.map(1) list.size(3))
    then show ?thesis using assms Nil rx(1) by (simp add: udp_try_recv_def)
  next
    case (Cons d es)
    obtain s b where d: "d = (s, b)" by (cases d) blast
    let ?h = "\<lparr>h_length = of_nat (length b), h_port = snd s, h_addr = fst s\<rparr> :: RecordHeader"
    have sb: "length (fst s) = 4" "length b < 2 ^ 16" using ds Cons d by auto
    have es: "\<forall>(s, b)\<in>set es. length (fst s) = 4 \<and> length b < 2 ^ 16" using ds Cons by simp
    have len: "unat (of_nat (length b) :: u16) = length b" using sb(2) by (simp add: unat_of_nat take_bit_nat_eq_self)
    have hl: "length (header_bytes ?h) = header_size" using sb(1) by (simp add: length_header)
    let ?rest = "concat (map encode es)"
    have c: "contents rx = header_bytes ?h @ b @ ?rest" using rx(4) Cons d by (simp add: encode_def)
    have size: "cb_readable_bytes r = length (contents r)" for r by (simp add: cb_readable_bytes_def)
    have "header_size \<le> cb_readable_bytes rx" unfolding size c using hl by simp
    from ring_read_ok [OF rx(2) this, of True "[]"] obtain r1 where r1:
      "ring_read True [] header_size rx = Some (Inr (header_bytes ?h, r1))" "cb_ok r1" "contents r1 = b @ ?rest" "cb_capacity r1 = cap"
      using c hl rx(3) by auto
    define m where "m = min n (length b)"
    have "m \<le> cb_readable_bytes r1" unfolding size r1(3) by (simp add: m_def)
    from ring_read_ok [OF r1(2) this, of True "[]"] obtain r2 where r2:
      "ring_read True [] m r1 = Some (Inr (take m b, r2))" "cb_ok r2" "contents r2 = drop m b @ ?rest" "cb_capacity r2 = cap"
      using r1(3,4) by (auto simp: m_def)
    have "length b - m \<le> cb_readable_bytes r2" unfolding size r2(3) by simp
    from ring_read_ok [OF r2(2) this, of False "[]"] obtain r3 where r3:
      "ring_read False [] (length b - m) r2 = Some (Inr ([], r3))" "cb_ok r3" "contents r3 = ?rest" "cb_capacity r3 = cap"
      using r2(3,4) by auto
    have "cb_readable_bytes rx \<noteq> 0" using \<open>header_size \<le> cb_readable_bytes rx\<close> by (simp add: header_size_def)
    then have "udp_try_recv n u = Some (Inr (Inr (take m b, s), u\<lparr>u_rx := Some r3\<rparr>))"
      using rx(1) r1(1) r2(1) r3(1) sb(1) by (simp add: udp_try_recv_def header_round_trip Let_def len m_def [symmetric])
    moreover have "udp_rel cap (u\<lparr>u_rx := Some r3\<rparr>) es" using r3(2-4) es by (auto simp: udp_rel_def)
    moreover have "take m b = take n b" by (simp add: m_def min_def)
    ultimately show ?thesis using Cons d by simp
  qed
qed

definition udp_new :: "nat \<Rightarrow> LwipUdp" where
  "udp_new cap = \<lparr>u_pcb = True, u_rx = Some (cb_new cap), u_connected = False\<rparr>"

lemma cb_new_ok: "cb_ok (cb_new cap)" "contents (cb_new cap) = []" "cb_capacity (cb_new cap) = cap"
  by (auto simp: cb_new_def cb_ok_def contents_def cb_capacity_def)

lemma udp_new_rel: "udp_rel cap (udp_new cap) []"
  by (simp add: udp_rel_def udp_new_def cb_new_ok)

lemma udp_exec_rel:
  "udp_rel cap u ds \<Longrightarrow> fst (udp_exec op u) = fst (dgram_exec cap op ds) \<and> udp_rel cap (snd (udp_exec op u)) (snd (dgram_exec cap op ds))"
  by (cases op) (simp_all only: arrive_rel recv_rel)

interpretation udp: op_simulation "udp_new cap" udp_exec "[]" "dgram_exec cap" "udp_rel cap" for cap
  by unfold_locales (simp_all only: udp_new_rel udp_exec_rel)

text \<open>
  C27. An lwIP UDP socket is a bounded queue of datagrams: with any capacity of its ring, arrivals of any
  length below \<open>2 ^ 16\<close> in any chain of buffers and receives with any buffer size answer as the queue
  does. A datagram that does not fit beside those waiting is dropped whole; the others come out in order,
  each with its own sender and cut to the caller's buffer, however their records lie across the end of the
  ring; no loop runs for ever and no assertion fails.
\<close>

theorem udp_socket_is_datagram_queue:
  "fst (run_ops udp_exec ops (udp_new cap)) = fst (run_ops (dgram_exec cap) ops [])
   \<and> udp_rel cap (snd (run_ops udp_exec ops (udp_new cap))) (snd (run_ops (dgram_exec cap) ops []))"
  by (rule udp.run_rel)

end
