(* ===== verification/Lwip_Tcp.thy ===== *)
theory Lwip_Tcp
  imports Lwip_Sockets
begin

text \<open>
  The TCP sockets of the lwIP backend, \<^verbatim>\<open>src/detail/sys/lwip/tcp_lwip.cpp\<close>: lwIP's callbacks, the
  operations the stream's futures make, and the accept queue. As in \<^verbatim>\<open>Lwip_Sockets\<close>, lwIP's answers
  are arguments and the bits a callback marks are part of its result.
\<close>

section \<open>A connection\<close>

record LwipTcp =
  t_pcb :: bool
  t_rx :: "circular_byte_buffer option"
  t_connected :: bool
  t_connecting :: bool
  t_eof :: bool
  t_write_waiting :: bool
  t_error :: "errno option"

definition tcp_new :: LwipTcp where
  "tcp_new = \<lparr>t_pcb = False, t_rx = None, t_connected = False, t_connecting = False, t_eof = False,
     t_write_waiting = False, t_error = None\<rparr>"

text \<open>
  The receive callback: \<open>p\<close> is the chain of buffers, if any, \<open>alloc\<close> whether the ring can be allocated,
  \<open>wnd\<close> its size, lwIP's receive window.
\<close>

definition tcp_on_recv :: "nat \<Rightarrow> bool \<Rightarrow> byte list list option \<Rightarrow> err_t \<Rightarrow> LwipTcp
    \<Rightarrow> (fault + err_t \<times> 8 word \<times> LwipTcp) option" where
  "tcp_on_recv wnd alloc p err tcp =
     (case p of
        None \<Rightarrow> Some (Inr (ERR_OK, kReadable OR kHup, tcp\<lparr>t_eof := True\<rparr>))
      | Some p \<Rightarrow>
          (if err \<noteq> ERR_OK then Some (Inr (ERR_OK, kReadable OR kError, tcp\<lparr>t_error := lwip_errno err\<rparr>))
           else if t_rx tcp = None \<and> \<not> alloc then Some (Inr (ERR_MEM, 0, tcp))
           else (let rx = (case t_rx tcp of None \<Rightarrow> cb_new wnd | Some rx \<Rightarrow> rx); tcp = tcp\<lparr>t_rx := Some rx\<rparr> in
                 if cb_writable_bytes rx < length (concat p) then Some (Inr (ERR_MEM, 0, tcp))
                 else (case ring_write_pbuf p rx of
                     None \<Rightarrow> None
                   | Some (Inl f) \<Rightarrow> Some (Inl f)
                   | Some (Inr rx) \<Rightarrow> Some (Inr (ERR_OK, kReadable, tcp\<lparr>t_rx := Some rx\<rparr>))))))"

definition tcp_on_sent :: "LwipTcp \<Rightarrow> 8 word \<times> LwipTcp" where
  "tcp_on_sent tcp = (kWritable, tcp\<lparr>t_write_waiting := False\<rparr>)"

definition tcp_on_poll :: "nat \<Rightarrow> LwipTcp \<Rightarrow> 8 word \<times> LwipTcp" where
  "tcp_on_poll sndbuf tcp =
     (if t_write_waiting tcp \<and> 0 < sndbuf then (kWritable, tcp\<lparr>t_write_waiting := False\<rparr>) else (0, tcp))"

definition tcp_on_err :: "err_t \<Rightarrow> LwipTcp \<Rightarrow> 8 word \<times> LwipTcp" where
  "tcp_on_err err tcp =
     (let e = lwip_errno err; e = (if t_connecting tcp \<and> err = ERR_RST then Some ECONNREFUSED else e);
          e = (if e = None then Some ECONNRESET else e)
      in (kReadable OR kWritable OR kError, tcp\<lparr>t_pcb := False, t_error := e, t_connecting := False\<rparr>))"

definition tcp_on_connected :: "err_t \<Rightarrow> LwipTcp \<Rightarrow> 8 word \<times> LwipTcp" where
  "tcp_on_connected err tcp =
     (if err \<noteq> ERR_OK then (kWritable OR kError, tcp\<lparr>t_connecting := False, t_error := lwip_errno err\<rparr>)
      else (kWritable, tcp\<lparr>t_connecting := False, t_connected := True\<rparr>))"

definition tcp_connect_start :: "bool \<Rightarrow> bool \<Rightarrow> bool \<Rightarrow> err_t \<Rightarrow> errno option + LwipTcp" where
  "tcp_connect_start running v4 pcb err =
     (if \<not> running then Inl (Some ENETDOWN)
      else if \<not> v4 then Inl (Some EAFNOSUPPORT)
      else if \<not> pcb then Inl (Some ENOMEM)
      else if err \<noteq> ERR_OK then Inl (lwip_errno err)
      else Inr (tcp_new\<lparr>t_pcb := True, t_connecting := True\<rparr>))"

definition tcp_try_finish_connect :: "LwipTcp \<Rightarrow> errno + unit" where
  "tcp_try_finish_connect tcp =
     (if t_connected tcp then Inr () else case t_error tcp of Some e \<Rightarrow> Inl e | None \<Rightarrow> Inl EAGAIN)"

text \<open>\<^verbatim>\<open>tcp_recved\<close> takes a 16-bit count: the calls that give \<open>n\<close> bytes of window back.\<close>

fun reopen_window :: "nat \<Rightarrow> nat list" where
  "reopen_window n = (if 0 < n then min n 0xFFFF # reopen_window (n - min n 0xFFFF) else [])"

declare reopen_window.simps [simp del]

text \<open>The result, the calls of \<^verbatim>\<open>tcp_recved\<close> and the bytes read.\<close>

definition tcp_try_read :: "nat \<Rightarrow> LwipTcp \<Rightarrow> (fault + (errno + byte list) \<times> nat list \<times> LwipTcp) option" where
  "tcp_try_read sz tcp =
     (if sz = 0 then Some (Inr (Inr [], [], tcp))
      else (let buffered = (case t_rx tcp of None \<Rightarrow> 0 | Some rx \<Rightarrow> cb_readable_bytes rx) in
            if 0 < buffered then
              (let n = min sz buffered in
               case ring_read True [] n (the (t_rx tcp)) of
                 None \<Rightarrow> None
               | Some (Inl f) \<Rightarrow> Some (Inl f)
               | Some (Inr (bs, rx)) \<Rightarrow>
                   Some (Inr (Inr bs, if t_pcb tcp then reopen_window n else [], tcp\<lparr>t_rx := Some rx\<rparr>)))
            else (case t_error tcp of
                Some e \<Rightarrow> Some (Inr (Inl e, [], tcp))
              | None \<Rightarrow>
                  if t_eof tcp then Some (Inr (Inr [], [], tcp))
                  else if \<not> t_pcb tcp then Some (Inr (Inl ENOTCONN, [], tcp))
                  else Some (Inr (Inl EAGAIN, [], tcp)))))"

definition tcp_try_write :: "nat \<Rightarrow> nat \<Rightarrow> err_t \<Rightarrow> LwipTcp \<Rightarrow> (errno option + nat) \<times> LwipTcp" where
  "tcp_try_write sz room err tcp =
     (case t_error tcp of
        Some e \<Rightarrow> (Inl (Some e), tcp)
      | None \<Rightarrow>
          (if \<not> t_pcb tcp then (Inl (Some EPIPE), tcp)
           else if sz = 0 then (Inr 0, tcp)
           else if room = 0 then (Inl (Some EAGAIN), tcp\<lparr>t_write_waiting := True\<rparr>)
           else if err = ERR_MEM then (Inl (Some EAGAIN), tcp\<lparr>t_write_waiting := True\<rparr>)
           else if err \<noteq> ERR_OK then (Inl (if err = ERR_CONN then Some EPIPE else lwip_errno err), tcp)
           else (Inr (min sz room), tcp)))"

section \<open>The accept queue\<close>

text \<open>
  The queue holds connections by name; \<open>live\<close> tells which still have their control block, and the ones
  closed while waiting are closed for good.
\<close>

definition tcp_on_accept :: "err_t \<Rightarrow> bool \<Rightarrow> bool \<Rightarrow> bool \<Rightarrow> nat \<Rightarrow> nat list \<Rightarrow> err_t \<times> 8 word \<times> nat list" where
  "tcp_on_accept err newpcb alloc push c q =
     (if err \<noteq> ERR_OK \<or> \<not> newpcb then (ERR_VAL, 0, q)
      else if \<not> alloc then (ERR_MEM, 0, q)
      else if \<not> push then (ERR_MEM, 0, q)
      else (ERR_OK, kReadable, q @ [c]))"

fun tcp_try_accept :: "(nat \<Rightarrow> bool) \<Rightarrow> nat list \<Rightarrow> nat option \<times> nat list \<times> nat list" where
  "tcp_try_accept live [] = (None, [], [])"
| "tcp_try_accept live (c # q) =
     (if \<not> live c then (let (r, q, closed) = tcp_try_accept live q in (r, q, c # closed)) else (Some c, q, []))"

lemma tcp_try_accept_first:
  "tcp_try_accept live q =
     (case dropWhile (\<lambda>c. \<not> live c) q of
        [] \<Rightarrow> (None, [], q) | c # r \<Rightarrow> (Some c, r, takeWhile (\<lambda>c. \<not> live c) q))"
  by (induction q) (auto simp del: dropWhile_eq_Nil_conv split: list.splits)

definition tcp_backlog :: "int \<Rightarrow> int \<Rightarrow> int" where
  "tcp_backlog max_pcbs backlog =
     (let hi = min 255 max_pcbs in if backlog < 1 then 1 else if hi < backlog then hi else backlog)"

section \<open>The window\<close>

lemma reopen_window_sum: "sum_list (reopen_window n) = n"
proof (induction n rule: reopen_window.induct)
  case (1 n)
  then show ?case by (subst reopen_window.simps) auto
qed

lemma reopen_window_u16: "x \<in> set (reopen_window n) \<Longrightarrow> 0 < x \<and> x < 2 ^ 16"
proof (induction n rule: reopen_window.induct)
  case (1 n)
  then show ?case by (subst (asm) (2) reopen_window.simps) (auto split: if_splits)
qed

section \<open>A connected socket under the poller\<close>

text \<open>
  The socket is the object 0 of a poller it is registered with. lwIP offers data within the receive window,
  which shrinks by what the socket takes and grows by what \<^verbatim>\<open>tcp_recved\<close> gives back; refused data is
  offered again later. After the peer's close no more data comes, and after an error, which is an abort, a
  reset or a close and leaves the socket without its control block, no more callbacks. Recorded are the bytes the socket took, the bytes read, and whether a
  read would block and no event has been reported since.
\<close>

record tcp_sys =
  sock :: LwipTcp
  pl :: poller
  window :: nat
  taken :: "byte list"
  read :: "byte list"
  blocked :: bool
  refused :: bool
  tcp_fault :: bool

datatype tcp_op = Offer "byte list list" bool | Peer_Close | Fail err_t | Sent | Try_Read nat | Report

definition tcp_init :: "nat \<Rightarrow> poller \<Rightarrow> tcp_sys" where
  "tcp_init wnd p = \<lparr>sock = tcp_new\<lparr>t_pcb := True, t_connected := True\<rparr>, pl = p, window = wnd, taken = [], read = [],
     blocked = False, refused = False, tcp_fault = False\<rparr>"

fun tcp_exec :: "nat \<Rightarrow> tcp_op \<Rightarrow> tcp_sys \<Rightarrow> (errno + byte list) option \<times> tcp_sys" where
  "tcp_exec wnd (Offer p alloc) \<sigma> =
     (if \<not> t_pcb (sock \<sigma>) \<or> t_eof (sock \<sigma>) \<or> window \<sigma> < length (concat p) then (None, \<sigma>)
      else (case tcp_on_recv wnd alloc (Some p) ERR_OK (sock \<sigma>) of
          Some (Inr (e, bits, s)) \<Rightarrow>
            (if e = ERR_OK
             then (None, \<sigma>\<lparr>sock := s, pl := mark_ready 0 bits (pl \<sigma>), window := window \<sigma> - length (concat p), taken := taken \<sigma> @ concat p\<rparr>)
             else (None, \<sigma>\<lparr>sock := s, refused := (refused \<sigma> \<or> alloc)\<rparr>))
        | _ \<Rightarrow> (None, \<sigma>\<lparr>tcp_fault := True\<rparr>)))"
| "tcp_exec wnd Peer_Close \<sigma> =
     (if \<not> t_pcb (sock \<sigma>) then (None, \<sigma>)
      else (case tcp_on_recv wnd True None ERR_OK (sock \<sigma>) of
          Some (Inr (e, bits, s)) \<Rightarrow> (None, \<sigma>\<lparr>sock := s, pl := mark_ready 0 bits (pl \<sigma>)\<rparr>)
        | _ \<Rightarrow> (None, \<sigma>\<lparr>tcp_fault := True\<rparr>)))"
| "tcp_exec wnd (Fail err) \<sigma> =
     (if \<not> t_pcb (sock \<sigma>) \<or> err \<notin> {ERR_ABRT, ERR_RST, ERR_CLSD} then (None, \<sigma>)
      else (let (bits, s) = tcp_on_err err (sock \<sigma>) in (None, \<sigma>\<lparr>sock := s, pl := mark_ready 0 bits (pl \<sigma>)\<rparr>)))"
| "tcp_exec wnd Sent \<sigma> =
     (if \<not> t_pcb (sock \<sigma>) then (None, \<sigma>)
      else (let (bits, s) = tcp_on_sent (sock \<sigma>) in (None, \<sigma>\<lparr>sock := s, pl := mark_ready 0 bits (pl \<sigma>)\<rparr>)))"
| "tcp_exec wnd (Try_Read n) \<sigma> =
     (case tcp_try_read n (sock \<sigma>) of
        Some (Inr (r, calls, s)) \<Rightarrow>
          (Some r, \<sigma>\<lparr>sock := s, window := window \<sigma> + sum_list calls,
             read := read \<sigma> @ (case r of Inr bs \<Rightarrow> bs | Inl _ \<Rightarrow> []), blocked := (r = Inl EAGAIN)\<rparr>)
      | _ \<Rightarrow> (None, \<sigma>\<lparr>tcp_fault := True\<rparr>))"
| "tcp_exec wnd Report \<sigma> =
     (case poll_report (pl \<sigma>) of
        None \<Rightarrow> (None, \<sigma>\<lparr>tcp_fault := True\<rparr>)
      | Some (es, p) \<Rightarrow>
          (None, \<sigma>\<lparr>pl := p, blocked := (blocked \<sigma> \<and> \<not> list_ex (\<lambda>e. ev_key e = o_key (objs (pl \<sigma>) 0)
                             \<and> (ev_readable e \<or> ev_error e \<or> ev_hup e)) es)\<rparr>))"

definition buffered :: "LwipTcp \<Rightarrow> byte list" where
  "buffered s = (case t_rx s of None \<Rightarrow> [] | Some rx \<Rightarrow> contents rx)"

text \<open>A read would report something: data, the end of the stream or an error.\<close>

definition readable :: "LwipTcp \<Rightarrow> bool" where
  "readable s \<longleftrightarrow> buffered s \<noteq> [] \<or> t_error s \<noteq> None \<or> t_eof s \<or> \<not> t_pcb s"

definition reg_ok :: "poller \<Rightarrow> bool" where
  "reg_ok p \<longleftrightarrow> (\<exists>a. poller_rel p a \<and> (\<forall>x. bits_of a x \<noteq> 0 \<longrightarrow> key_of a x \<noteq> None \<longrightarrow> x \<in> set (queue a))) \<and> o_key (objs p 0) \<noteq> None"

definition tcp_inv :: "nat \<Rightarrow> tcp_sys \<Rightarrow> bool" where
  "tcp_inv wnd \<sigma> \<longleftrightarrow> \<not> tcp_fault \<sigma> \<and> \<not> refused \<sigma> \<and> reg_ok (pl \<sigma>)
     \<and> taken \<sigma> = read \<sigma> @ buffered (sock \<sigma>)
     \<and> (\<forall>rx. t_rx (sock \<sigma>) = Some rx \<longrightarrow> cb_ok rx \<and> cb_capacity rx = wnd)
     \<and> (t_pcb (sock \<sigma>) \<longrightarrow> window \<sigma> + length (buffered (sock \<sigma>)) = wnd)
     \<and> (blocked \<sigma> \<longrightarrow> readable (sock \<sigma>) \<longrightarrow> bit (flags (objs (pl \<sigma>) 0)) 0)"

lemma rel_bit: "poller_rel p a \<Longrightarrow> n < 4 \<Longrightarrow> bit (flags (objs p x)) n = bit (bits_of a x) n"
  using poller_relD(5) [of p a x] by (simp add: bit_and_iff bit_kReadiness)

lemma mark_reg:
  assumes "reg_ok p"
  shows "reg_ok (mark_ready 0 b p) \<and> (bit (flags (objs (mark_ready 0 b p) 0)) 0 \<longleftrightarrow> bit (flags (objs p 0)) 0 \<or> bit b 0)"
proof -
  obtain a where a: "poller_rel p a" "\<And>x. bits_of a x \<noteq> 0 \<Longrightarrow> key_of a x \<noteq> None \<Longrightarrow> x \<in> set (queue a)" "key_of a 0 \<noteq> None"
    using assms poller_relD(6) by (auto simp: reg_ok_def)
  let ?a = "snd (aready_exec (P_Mark 0 b) a)"
  have r: "poller_rel (mark_ready 0 b p) ?a" by (rule mark_rel [OF a(1)])
  have "o_key (objs (mark_ready 0 b p) 0) = key_of ?a 0" using poller_relD(6) [OF r] by simp
  moreover have "x \<in> set (queue ?a)" if "bits_of ?a x \<noteq> 0" "key_of ?a x \<noteq> None" for x
    using that a(2) [of x] by (cases "x = 0") auto
  ultimately have "reg_ok (mark_ready 0 b p)" unfolding reg_ok_def using r a(3) by (intro conjI exI [of _ ?a]) auto
  moreover have "bit (flags (objs (mark_ready 0 b p) 0)) 0 \<longleftrightarrow> bit (flags (objs p 0)) 0 \<or> bit b 0"
    using rel_bit [OF r, of 0 0] rel_bit [OF a(1), of 0 0] by (simp add: bit_or_iff bit_and_iff bit_kReadiness)
  ultimately show ?thesis by blast
qed

lemma report_reg:
  assumes "reg_ok p"
  shows "\<exists>es q. poll_report p = Some (es, q) \<and> reg_ok q
    \<and> (bit (flags (objs p 0)) 0 \<longrightarrow> list_ex (\<lambda>e. ev_key e = o_key (objs p 0) \<and> (ev_readable e \<or> ev_error e \<or> ev_hup e)) es)"
proof -
  obtain a where a: "poller_rel p a" "\<And>x. bits_of a x \<noteq> 0 \<Longrightarrow> key_of a x \<noteq> None \<Longrightarrow> x \<in> set (queue a)" "key_of a 0 \<noteq> None"
    using assms poller_relD(6) by (auto simp: reg_ok_def)
  let ?a = "snd (aready_exec P_Poll a)"
  obtain es q where q: "poll_report p = Some (es, q)" "es = map (aevent a) (queue a)" "poller_rel q ?a"
    using poll_rel [OF a(1)] by (cases "poll_report p") (auto split: prod.splits)
  have "o_key (objs q 0) = key_of ?a 0" using poller_relD(6) [OF q(3)] by simp
  moreover have "\<forall>x. bits_of ?a x \<noteq> 0 \<longrightarrow> key_of ?a x \<noteq> None \<longrightarrow> x \<in> set (queue ?a)"
    using a(2) by (simp, blast)
  ultimately have "reg_ok q" unfolding reg_ok_def using q(3) a(3) by (intro conjI exI [of _ ?a]) auto
  moreover have "list_ex (\<lambda>e. ev_key e = o_key (objs p 0) \<and> (ev_readable e \<or> ev_error e \<or> ev_hup e)) es"
    if "bit (flags (objs p 0)) 0"
  proof -
    have b: "bit (bits_of a 0) 0" using that rel_bit [OF a(1), of 0 0] by simp
    then have "bits_of a 0 \<noteq> 0" by auto
    then have "0 \<in> set (queue a)" using a(2,3) by blast
    moreover have "ev_key (aevent a 0) = o_key (objs p 0)" "ev_readable (aevent a 0)"
      using b poller_relD(6) [OF a(1)] by (simp_all add: aevent_def)
    ultimately show ?thesis unfolding q(2) list_ex_iff by force
  qed
  ultimately show ?thesis using q(1) by blast
qed

lemma bit_flags0 [simp]: "bit kReadable 0" "bit (kReadable OR w) 0"
  by (simp_all add: kReadable_def bit_or_iff)

lemma tcp_invD:
  assumes "tcp_inv wnd \<sigma>"
  shows "\<not> tcp_fault \<sigma>" "\<not> refused \<sigma>" "reg_ok (pl \<sigma>)" "taken \<sigma> = read \<sigma> @ buffered (sock \<sigma>)"
    and "\<And>rx. t_rx (sock \<sigma>) = Some rx \<Longrightarrow> cb_ok rx \<and> cb_capacity rx = wnd"
    and "t_pcb (sock \<sigma>) \<Longrightarrow> window \<sigma> + length (buffered (sock \<sigma>)) = wnd"
    and "blocked \<sigma> \<Longrightarrow> readable (sock \<sigma>) \<Longrightarrow> bit (flags (objs (pl \<sigma>) 0)) 0"
  using assms by (auto simp: tcp_inv_def)

lemma offer_inv:
  assumes "tcp_inv wnd \<sigma>"
  shows "tcp_inv wnd (snd (tcp_exec wnd (Offer p alloc) \<sigma>))"
proof (cases "\<not> t_pcb (sock \<sigma>) \<or> t_eof (sock \<sigma>) \<or> window \<sigma> < length (concat p) \<or> t_rx (sock \<sigma>) = None \<and> \<not> alloc")
  case True
  then show ?thesis using assms by (auto simp: tcp_on_recv_def tcp_inv_def)
next
  case False
  note I = tcp_invD [OF assms]
  define rx where "rx = (case t_rx (sock \<sigma>) of None \<Rightarrow> cb_new wnd | Some rx \<Rightarrow> rx)"
  have rx: "cb_ok rx" "cb_capacity rx = wnd" "contents rx = buffered (sock \<sigma>)"
    using I(5) by (auto simp: rx_def buffered_def cb_new_ok split: option.splits)
  have room: "cb_writable_bytes rx = window \<sigma>"
    unfolding writable_bytes_contents rx(2,3) using I(6) False by linarith
  then have fits: "length (concat p) \<le> cb_writable_bytes rx" using False by simp
  from ring_write_pbuf_ok [OF rx(1) fits] obtain r where r: "ring_write_pbuf p rx = Some (Inr r)" "cb_ok r"
    "contents r = buffered (sock \<sigma>) @ concat p" "cb_capacity r = wnd" using rx by auto
  let ?s = "(sock \<sigma>)\<lparr>t_rx := Some r\<rparr>"
  have e: "tcp_on_recv wnd alloc (Some p) ERR_OK (sock \<sigma>) = Some (Inr (ERR_OK, kReadable, ?s))"
    using False fits r(1) by (simp add: tcp_on_recv_def Let_def rx_def [symmetric])
  have "snd (tcp_exec wnd (Offer p alloc) \<sigma>) = \<sigma>\<lparr>sock := ?s, pl := mark_ready 0 kReadable (pl \<sigma>),
      window := window \<sigma> - length (concat p), taken := taken \<sigma> @ concat p\<rparr>" using False e by simp
  moreover have b: "buffered ?s = buffered (sock \<sigma>) @ concat p" by (simp add: buffered_def r(3) [unfolded buffered_def])
  ultimately show ?thesis using I(1-4) I(6) r(2,4) mark_reg [OF I(3), of kReadable] False
    by (auto simp: tcp_inv_def)
qed

lemma mark_inv:
  assumes "tcp_inv wnd \<sigma>" "t_rx s = t_rx (sock \<sigma>)" "t_pcb s \<Longrightarrow> t_pcb (sock \<sigma>)"
    and "bit b 0 \<or> t_error s = t_error (sock \<sigma>) \<and> t_eof s = t_eof (sock \<sigma>) \<and> t_pcb s = t_pcb (sock \<sigma>)"
  shows "tcp_inv wnd (\<sigma>\<lparr>sock := s, pl := mark_ready 0 b (pl \<sigma>)\<rparr>)"
proof -
  note I = tcp_invD [OF assms(1)]
  have b: "buffered s = buffered (sock \<sigma>)" using assms(2) by (simp add: buffered_def)
  then have "bit b 0 \<or> readable s = readable (sock \<sigma>)" using assms(4) by (auto simp: readable_def)
  then show ?thesis using I(1-4) I(5-7) assms(2,3) b mark_reg [OF I(3), of b] by (auto simp: tcp_inv_def)
qed

lemma idle_read:
  assumes "n = 0 \<or> buffered s = []" "t_error s \<noteq> Some EAGAIN"
  shows "\<exists>r. tcp_try_read n s = Some (Inr (r, [], s)) \<and> (r = Inr [] \<or> (\<exists>e. r = Inl e)) \<and> (r = Inl EAGAIN \<longrightarrow> \<not> readable s)"
proof (cases "n = 0")
  case True
  then show ?thesis by (simp add: tcp_try_read_def)
next
  case False
  then have b: "buffered s = []" using assms(1) by simp
  have "(case t_rx s of None \<Rightarrow> 0 | Some rx \<Rightarrow> cb_readable_bytes rx) = length (buffered s)"
    by (auto simp: buffered_def cb_readable_bytes_def split: option.splits)
  then show ?thesis using False b assms(2) by (cases "t_error s") (auto simp: tcp_try_read_def readable_def)
qed

lemma data_read:
  assumes "0 < n" "buffered s \<noteq> []" "\<And>rx. t_rx s = Some rx \<Longrightarrow> cb_ok rx \<and> cb_capacity rx = wnd"
  shows "\<exists>rx calls. tcp_try_read n s = Some (Inr (Inr (take n (buffered s)), calls, s\<lparr>t_rx := Some rx\<rparr>)) \<and> cb_ok rx
    \<and> cb_capacity rx = wnd \<and> contents rx = drop n (buffered s)
    \<and> (t_pcb s \<longrightarrow> sum_list calls = length (take n (buffered s)))"
proof -
  obtain rx where rx: "t_rx s = Some rx" "contents rx = buffered s" using assms(2) by (auto simp: buffered_def split: option.splits)
  define m where "m = min n (length (buffered s))"
  have size: "cb_readable_bytes rx = length (buffered s)" using rx(2) by (metis cb_readable_bytes_def length_contents)
  have "m \<le> cb_readable_bytes rx" "cb_ok rx" using size assms(3) [OF rx(1)] by (auto simp: m_def)
  from ring_read_ok [OF this(2,1), of True "[]"] obtain r where r: "ring_read True [] m rx = Some (Inr (take m (buffered s), r))"
    "cb_ok r" "contents r = drop m (buffered s)" "cb_capacity r = wnd" using rx(2) assms(3) [OF rx(1)] by auto
  have "take m (buffered s) = take n (buffered s)" "drop m (buffered s) = drop n (buffered s)" by (auto simp: m_def min_def)
  moreover have "tcp_try_read n s = Some (Inr (Inr (take m (buffered s)), if t_pcb s then reopen_window m else [], s\<lparr>t_rx := Some r\<rparr>))"
    using assms(1,2) rx(1) r(1) size by (simp add: tcp_try_read_def m_def [symmetric])
  ultimately show ?thesis using r by (auto simp: reopen_window_sum m_def)
qed

definition err_ok :: "tcp_sys \<Rightarrow> bool" where
  "err_ok \<sigma> \<longleftrightarrow> t_error (sock \<sigma>) \<noteq> Some EAGAIN"

lemma read_inv:
  assumes "tcp_inv wnd \<sigma>" "err_ok \<sigma>"
  shows "tcp_inv wnd (snd (tcp_exec wnd (Try_Read n) \<sigma>)) \<and> err_ok (snd (tcp_exec wnd (Try_Read n) \<sigma>))"
proof (cases "n = 0 \<or> buffered (sock \<sigma>) = []")
  case True
  from idle_read [OF this] assms(2) obtain r where r: "tcp_try_read n (sock \<sigma>) = Some (Inr (r, [], sock \<sigma>))"
    "r = Inr [] \<or> (\<exists>e. r = Inl e)" "r = Inl EAGAIN \<longrightarrow> \<not> readable (sock \<sigma>)" by (auto simp: err_ok_def)
  then show ?thesis using assms by (auto simp: tcp_inv_def err_ok_def)
next
  case False
  note I = tcp_invD [OF assms(1)]
  from data_read [of n "sock \<sigma>" wnd] False I(5) obtain rx calls where r:
    "tcp_try_read n (sock \<sigma>) = Some (Inr (Inr (take n (buffered (sock \<sigma>))), calls, (sock \<sigma>)\<lparr>t_rx := Some rx\<rparr>))" "cb_ok rx"
    "cb_capacity rx = wnd" "contents rx = drop n (buffered (sock \<sigma>))"
    "t_pcb (sock \<sigma>) \<longrightarrow> sum_list calls = length (take n (buffered (sock \<sigma>)))" by blast
  have b: "buffered ((sock \<sigma>)\<lparr>t_rx := Some rx\<rparr>) = drop n (buffered (sock \<sigma>))" using r(4) by (simp add: buffered_def)
  have "window \<sigma> + sum_list calls + length (drop n (buffered (sock \<sigma>))) = wnd" if "t_pcb (sock \<sigma>)"
    using I(6) [OF that] r(5) that by auto
  then show ?thesis using I(1-4) r(1-3) b assms(2) by (auto simp: tcp_inv_def err_ok_def)
qed

lemma tcp_exec_inv:
  assumes "tcp_inv wnd \<sigma> \<and> err_ok \<sigma>"
  shows "tcp_inv wnd (snd (tcp_exec wnd op \<sigma>)) \<and> err_ok (snd (tcp_exec wnd op \<sigma>))"
proof (cases op)
  case (Offer p alloc)
  have "err_ok (snd (tcp_exec wnd (Offer p alloc) \<sigma>))"
    using assms by (auto simp: err_ok_def tcp_on_recv_def Let_def split: option.splits sum.splits)
  then show ?thesis using Offer assms offer_inv by simp
next
  case Peer_Close
  let ?s = "(sock \<sigma>)\<lparr>t_eof := True\<rparr>"
  have "tcp_inv wnd (\<sigma>\<lparr>sock := ?s, pl := mark_ready 0 (kReadable OR kHup) (pl \<sigma>)\<rparr>)"
    by (rule mark_inv) (use assms in auto)
  then show ?thesis using Peer_Close assms by (simp add: tcp_on_recv_def err_ok_def)
next
  case (Fail err)
  have "tcp_inv wnd (\<sigma>\<lparr>sock := snd (tcp_on_err err (sock \<sigma>)), pl := mark_ready 0 (kReadable OR kWritable OR kError) (pl \<sigma>)\<rparr>)"
    by (rule mark_inv) (use assms in \<open>auto simp: tcp_on_err_def Let_def or.assoc\<close>)
  then show ?thesis using Fail assms by (auto simp: tcp_on_err_def err_ok_def Let_def)
next
  case Sent
  have "tcp_inv wnd (\<sigma>\<lparr>sock := snd (tcp_on_sent (sock \<sigma>)), pl := mark_ready 0 kWritable (pl \<sigma>)\<rparr>)"
    by (rule mark_inv) (use assms in \<open>auto simp: tcp_on_sent_def\<close>)
  then show ?thesis using Sent assms by (simp add: tcp_on_sent_def err_ok_def)
next
  case (Try_Read n)
  then show ?thesis using read_inv [of wnd \<sigma> n] assms by blast
next
  case Report
  note I = tcp_invD [of wnd \<sigma>]
  from report_reg [OF I(3)] assms obtain es q where
    "poll_report (pl \<sigma>) = Some (es, q)" "reg_ok q"
    "bit (flags (objs (pl \<sigma>) 0)) 0 \<longrightarrow> list_ex (\<lambda>e. ev_key e = o_key (objs (pl \<sigma>) 0) \<and> (ev_readable e \<or> ev_error e \<or> ev_hup e)) es"
    by blast
  then show ?thesis using Report assms by (auto simp: tcp_inv_def err_ok_def)
qed

definition tcp_good :: "nat \<Rightarrow> tcp_sys \<Rightarrow> bool" where
  "tcp_good wnd \<sigma> \<longleftrightarrow> tcp_inv wnd \<sigma> \<and> err_ok \<sigma>"

text \<open>The poller the socket has just been registered with.\<close>

definition tcp_poller :: poller where
  "tcp_poller = (poller_init (\<lambda>_. Tcp))\<lparr>objs := (\<lambda>_. new_object Tcp)(0 := (new_object Tcp)\<lparr>o_key := Some 1, o_poller := True\<rparr>)\<rparr>"

lemma tcp_poller_registered: "register_fd 0 1 False (poller_init (\<lambda>_. Tcp)) = Inr tcp_poller"
  by (auto simp: register_fd_def tcp_poller_def poller_init_def new_object_def upd_def fun_eq_iff)

lemma tcp_poller_ok: "reg_ok tcp_poller"
proof -
  let ?a = "\<lparr>queue = [], bits_of = (\<lambda>_. 0), key_of = (\<lambda>_. None)(0 := Some 1)\<rparr> :: aready"
  have "poller_rel tcp_poller ?a"
    by (auto simp: poller_rel_def tcp_poller_def poller_init_def new_object_def)
  then show ?thesis unfolding reg_ok_def
    by (intro conjI exI [of _ ?a]) (auto simp: tcp_poller_def)
qed

lemma tcp_init_good: "tcp_good wnd (tcp_init wnd tcp_poller)"
  by (simp add: tcp_good_def tcp_inv_def tcp_init_def tcp_poller_ok err_ok_def buffered_def tcp_new_def)

lemma tcp_exec_good: "tcp_good wnd \<sigma> \<Longrightarrow> tcp_good wnd (snd (tcp_exec wnd op \<sigma>))"
  unfolding tcp_good_def by (rule tcp_exec_inv)

interpretation tcp: op_system "tcp_init wnd tcp_poller" "tcp_exec wnd" "tcp_good wnd" for wnd
  by unfold_locales (simp_all only: tcp_init_good tcp_exec_good)

text \<open>
  C28. A connected lwIP TCP socket delivers what it took from the peer, in order and whole, and never leaves
  its reader unreported: for every receive window and every sequence of data within it in any chain of
  buffers, closes, failures, reads of any size and polls, the bytes taken are the bytes read followed by
  those buffered; data within the window is refused only when the ring cannot be allocated, since the reads
  give back exactly the room they make; no loop runs for ever and no assertion fails; and while a read has
  found nothing and no event has been reported since, anything to read, an error or the end of the stream is
  flagged for the next poll.
\<close>

theorem tcp_socket_delivers:
  assumes "(outs, \<sigma>) = run_ops (tcp_exec wnd) ops (tcp_init wnd tcp_poller)"
  shows "\<not> tcp_fault \<sigma> \<and> \<not> refused \<sigma> \<and> taken \<sigma> = read \<sigma> @ buffered (sock \<sigma>)
    \<and> (t_pcb (sock \<sigma>) \<longrightarrow> window \<sigma> + length (buffered (sock \<sigma>)) = wnd)
    \<and> (blocked \<sigma> \<and> readable (sock \<sigma>) \<longrightarrow> flags (objs (pl \<sigma>) 0) AND kReadable \<noteq> 0)"
proof -
  have "tcp_good wnd \<sigma>" using tcp.run_inv [of wnd ops] assms by (metis snd_conv)
  then have I: "tcp_inv wnd \<sigma>" by (simp add: tcp_good_def)
  then show ?thesis using tcp_invD(7) [OF I] flag_zero(1) by (auto simp: tcp_inv_def)
qed

definition demo_tcp_ops :: "tcp_op list" where
  "demo_tcp_ops = [Try_Read 9, Sent, Fail ERR_RST]"

text \<open>The reader that waits on an idle connection is flagged by the reset.\<close>

theorem tcp_socket_delivers_witness:
  "let \<sigma> = snd (run_ops (tcp_exec 4) demo_tcp_ops (tcp_init 4 tcp_poller)) in
     blocked \<sigma> \<and> readable (sock \<sigma>) \<and> flags (objs (pl \<sigma>) 0) AND kReadable \<noteq> 0
     \<and> taken \<sigma> = read \<sigma> @ buffered (sock \<sigma>)"
proof -
  define s where s: "s = run_ops (tcp_exec 4) demo_tcp_ops (tcp_init 4 tcp_poller)"
  have "blocked (snd s)" unfolding s by code_simp
  moreover have "readable (sock (snd s))" unfolding s by code_simp
  moreover have "(fst s, snd s) = run_ops (tcp_exec 4) demo_tcp_ops (tcp_init 4 tcp_poller)" by (simp add: s)
  note tcp_socket_delivers [OF this]
  ultimately show ?thesis unfolding s [symmetric] Let_def by blast
qed

end
