(* ===== verification/Spec2Isabelle.thy ===== *)
theory Spec2Isabelle
  imports Poll_Result Rc Intrusive_List Run_Queue Steal_Protocol Scheduling Join_Set Oneshot Mpsc_Spec Watch Broadcast_Spec
    Async_Mutex Event Barrier Timer_Queue_Spec Byte_Source Io_Handshake Io_Driver Lwip_Tcp
begin

text \<open>
  A verification of the coroutine library \<^verbatim>\<open>coro\<close>: tasks polled by executors, the channels and locks they
  wait on, timers, the I/O driver and its lwIP backend. Paths are relative to \<^verbatim>\<open>src/\<close>; sources are
  C++ headers under \<^verbatim>\<open>include/coro\<close> and files under \<^verbatim>\<open>src\<close>.

  \<^bold>\<open>How the program works, and what is modelled where.\<close> An executor polls a task; a poll that cannot go on leaves the
  task's waker with whatever it waits for and answers pending; whoever makes progress possible wakes the
  task, which queues it again. Every component is either part of this cycle or something a task waits on,
  so most of what has to be right is of one kind: nothing is lost or duplicated, and no waiter is
  left asleep.

  \<^item> Values. Theory Poll_Result (\<^verbatim>\<open>detail/poll_result.h\<close>) models the union a poll answers with, down to the life of its
    member (\<open>construct_at\<close>, \<open>pr_copy_assign\<close> and so on); it behaves as the plain value \<open>poll_result\<close> of theory Prelude. Theory
    Rc (\<^verbatim>\<open>detail/rc.h\<close>) models the reference counts of single-threaded targets with values that own pointers:
    in a program of safe calls the counts are exact, nothing is used after it was freed, a block is freed exactly
    when no pointer to it is left, and a value without owners is destroyed.
  \<^item> Lists. Theory Intrusive_List (\<^verbatim>\<open>detail/intrusive_list.h\<close>) models every operation on explicit hooks and proves that they
    implement lists. Its locale \<open>waiter_queue\<close> is interpreted on the pointer structure and on plain
    lists: the channels then use lists of node identities.
  \<^item> Scheduling. Theory Scheduling (\<^verbatim>\<open>src/task/task.cpp\<close>, the poll loops of the executors) is a step relation of any
    number of wakers and workers on the state word: a task is queued or polled exactly once, and no wake is lost. Theory
    Run_Queue (\<^verbatim>\<open>detail/local_run_queue.h\<close>, \<^verbatim>\<open>detail/work_stealing_deque.h\<close>) models the ring with 32-bit
    wrapping indices, theory Steal_Protocol its owner and thieves one atomic access at a time: every task pushed is handed
    out exactly once.
  \<^item> Tasks. Theory Task (\<^verbatim>\<open>detail/task_state.h\<close>, \<^verbatim>\<open>detail/task.h\<close>, \<^verbatim>\<open>task/join_handle.h\<close>, \<^verbatim>\<open>task/cancel_handle.h\<close>,
    \<^verbatim>\<open>task/cancel_and_join.h\<close>) puts the worker, the handle, the scope and the cancellers of one task together: the handle
    reports the ending, and awaiters are woken. Theory Join_Set (\<^verbatim>\<open>task/join_set.h\<close>) builds sets of such tasks, with
    \<^verbatim>\<open>next\<close>, \<^verbatim>\<open>join_all\<close>, \<^verbatim>\<open>drain\<close> and \<^verbatim>\<open>shutdown\<close>.
  \<^item> Synchronisation. Theories Oneshot, Mpsc, Watch, Broadcast, Async_Mutex, Event and Barrier model the headers of those
    names in \<^verbatim>\<open>sync/\<close>, with the helpers of theory Wakers. Oneshot refines a cell, Mpsc_Spec shows that the
    multi-producer channel is one line of values, Broadcast_Spec that each receiver reads a suffix of one history and
    is told what it missed.
  \<^item> Timers. Theory Binary_Heap has the heap algorithms of the C++ library, theory Timer_Queue (\<^verbatim>\<open>detail/timer_queue.h\<close>,
    \<^verbatim>\<open>src/detail/timer_queue.cpp\<close>) the queue with its slots, generations and lazy cancellation; Timer_Queue_Spec proves it
    equal to a list of pending timers.
  \<^item> Buffers. Theory Ring_Buffer (\<^verbatim>\<open>io/ring_buffer.h\<close>) refines a bounded queue; theory Byte_Source has the ring of raw bytes
    (\<^verbatim>\<open>io/circular_byte_buffer.h\<close>) and the futures of \<^verbatim>\<open>io/byte_source.h\<close>.
  \<^item> I/O. Theory Io_Registration (\<^verbatim>\<open>runtime/io_driver.h\<close>, \<^verbatim>\<open>src/runtime/io_driver.cpp\<close>) has the readiness state
    and its operations, Io_Handshake the interleavings of tasks, driver and system around it, Io_Driver the
    registrations a driver owns and their deferred release. Theories Lwip_Poller, Lwip_Sockets and Lwip_Tcp
    (\<^verbatim>\<open>src/detail/sys/lwip\<close>) have the backend for bare-metal targets.

  \<^bold>\<open>How the models are built.\<close> An object is a record with the fields of the class, an operation a function with the
  conditions and early returns of the method. An operation returns what it answers, the wakers it wakes, in order,
  and the new state; undefined behaviour, failed assertions and \<^verbatim>\<open>std::abort\<close> are values of the type \<open>fault\<close>
  of theory Prelude. A critical section is one step, so an operation that locks twice is two steps and others may
  run between them. On top of the operations each component has a system: a datatype of calls, a function that executes one
  (a name ending in \<open>_exec\<close>), and ghost fields that record what has happened. The theorems are about \<open>run_ops\<close>, any
  sequence of such calls from the initial state. The two protocols on atomics, Scheduling and
  Steal_Protocol, are inductive step relations instead.

  The locales of theory Prelude turn step-wise arguments into statements on runs: \<open>invariant_system\<close> for relations, \<open>op_system\<close>
  for an invariant of executed calls, \<open>guarded_system\<close> where only some calls are allowed, \<open>op_refinement\<close> for an abstraction
  function to a specification and \<open>op_simulation\<close> for a relation to one. Each is interpreted on the model's
  definitions in the theory of the component.

  \<^bold>\<open>What the properties show.\<close> For each component: that its state stays well formed; that its answers are those of a simpler
  object, or its results are in order, complete and handed out once; that a waiter not yet woken is registered where the
  next event wakes it. Where the code does otherwise in a corner, the general theorem names the case it leaves out
  and a run that shows it is a theorem of its own.

  \<^bold>\<open>Bounds and termination.\<close> No fuel is used. Loops over data are terminating functions. Loops that follow pointers or
  wait for a callback (\<open>il_clear_loop\<close>, \<open>drain\<close>, \<open>ring_write\<close>, \<open>ring_read\<close>, \<open>poll_io\<close>, \<open>unlink_scan\<close>, \<open>run_deferred\<close>) are partial
  functions to an option. That they return is proved on well-formed states.
  Run-queue indices, timer ids, slot generations, watch versions and readiness ticks keep their width; the theorems on timers hold for
  fewer than $2^{32}$ insertions, and those on the run queue across the wrap-around. Broadcast sequence numbers, barrier
  generations and reference counts are unbounded. The theorems on the two bounded channels are for capacities of at least one;
  \<^verbatim>\<open>broadcast_channel\<close> rejects zero.

  \<^bold>\<open>Not modelled.\<close> Memory orders: atomics are sequentially consistent. Coroutine frames and promise types (\<^verbatim>\<open>coro.h\<close>,
  \<^verbatim>\<open>coro_stream.h\<close>, \<^verbatim>\<open>detail/coro_scope.h\<close>) belong to the compiler's transformation; a future is a parameter that answers
  polls. The threads of the executors, the blocking pool and the runtime, fibers, combinators over futures
  (\<^verbatim>\<open>sync/join.h\<close>, \<^verbatim>\<open>sync/select.h\<close> and others), teams, stream tasks and interrupt events are left out. So are the POSIX and
  Windows backends, files, pipes, signals, name lookup, WebSockets and the Pico hardware: they are calls of systems and
  libraries outside the sources. What epoll and lwIP answer is an argument of the definitions that use it.
\<close>

end
